(* ===== verification/Tt_Prelude.thy ===== *)
theory Tt_Prelude
  imports Complex_Main "HOL-Library.Word" "HOL-Library.Multiset" "HOL-Library.Sublist"
begin

unbundle bit_operations_syntax

text \<open>
  What every component theory shares: the outcomes of C++ code that does not return
  normally, the width of \<open>int\<close>, and a few facts about lists and words.

  \<^item> \<open>fault\<close> lists the ways a modelled operation can stop: a glog \<open>CHECK\<close> or an
    \<open>assert\<close> that fails, an exception of the standard library, or an access the language
    leaves undefined (read or write outside an array, use of a freed object, use of a null
    pointer, overflow of a signed integer).
  \<^item> \<open>'a outcome\<close> is the result of an operation: \<open>Inl\<close> a fault or \<open>Inr\<close> the value.
  \<^item> \<open>int\<close> of the source is Isabelle's \<open>int\<close>, kept in range by \<open>i32\<close>: an
    arithmetic result outside the 32-bit range is the fault \<open>SignedOverflow\<close>.
\<close>

section \<open>Outcomes\<close>

datatype fault =
    CheckFailed
  | AssertFailed
  | SignedOverflow
  | DivisionByZero
  | OutOfRange        \<comment> \<open>\<open>std::out_of_range\<close>, thrown by \<open>at()\<close>\<close>
  | OutOfBounds       \<comment> \<open>an unchecked access outside an array or vector\<close>
  | NullDeref
  | UseAfterFree
  | DoubleFree
  | BadLexicalCast
  | BadAlloc
  | Terminated        \<comment> \<open>\<open>std::terminate\<close>, an exception leaving a \<open>throw()\<close> function\<close>
  | SelfDeadlock      \<comment> \<open>an exclusive lock never granted, as a shared hold is not given back\<close>
  | Blocked           \<comment> \<open>a wait that nothing ends\<close>
  | SystemError       \<comment> \<open>\<open>boost::system::system_error\<close>, thrown by a socket operation\<close>
  | LockError         \<comment> \<open>a lock released by a thread that does not hold it\<close>
  | Indeterminate     \<comment> \<open>a variable read that nothing has set\<close>

type_synonym 'a outcome = "fault + 'a"

definition bind_outcome :: "'a outcome \<Rightarrow> ('a \<Rightarrow> 'b outcome) \<Rightarrow> 'b outcome" where
  "bind_outcome r f = (case r of Inl e \<Rightarrow> Inl e | Inr x \<Rightarrow> f x)"

lemma bind_outcome_simps [simp]:
  "bind_outcome (Inl e) f = Inl e"
  "bind_outcome (Inr x) f = f x"
  by (simp_all add: bind_outcome_def)

lemma bind_outcome_Inr_iff [simp]:
  "bind_outcome r f = Inr y \<longleftrightarrow> (\<exists>x. r = Inr x \<and> f x = Inr y)"
  by (cases r) auto

lemma bind_outcome_Inl_iff:
  "bind_outcome r f = Inl e \<longleftrightarrow> r = Inl e \<or> (\<exists>x. r = Inr x \<and> f x = Inl e)"
  by (cases r) auto

lemma bind_outcome_assoc:
  "bind_outcome (bind_outcome r f) g = bind_outcome r (\<lambda>x. bind_outcome (f x) g)"
  by (cases r) auto

lemma bind_outcome_cong [fundef_cong]:
  "r = r' \<Longrightarrow> (\<And>x. r' = Inr x \<Longrightarrow> f x = f' x) \<Longrightarrow> bind_outcome r f = bind_outcome r' f'"
  by (cases r') auto

definition check :: "fault \<Rightarrow> bool \<Rightarrow> unit outcome" where
  "check e b = (if b then Inr () else Inl e)"

lemma check_Inr_iff [simp]: "check e b = Inr u \<longleftrightarrow> b"
  by (simp add: check_def)

lemma check_True [simp]: "check e True = Inr ()"
  by (simp add: check_def)

lemma check_False [simp]: "check e False = Inl e"
  by (simp add: check_def)

text \<open>A loop over a list that stops at the first fault.\<close>

fun fold_outcome :: "('a \<Rightarrow> 's \<Rightarrow> 's outcome) \<Rightarrow> 'a list \<Rightarrow> 's \<Rightarrow> 's outcome" where
  "fold_outcome f [] s = Inr s"
| "fold_outcome f (x # xs) s = bind_outcome (f x s) (fold_outcome f xs)"

lemma fold_outcome_append:
  "fold_outcome f (xs @ ys) s = bind_outcome (fold_outcome f xs s) (fold_outcome f ys)"
  by (induction xs arbitrary: s) (simp_all add: bind_outcome_def split: sum.splits)

lemma fold_outcome_map: "fold_outcome f (map g xs) s = fold_outcome (\<lambda>x. f (g x)) xs s"
  by (induction xs arbitrary: s) (simp_all add: bind_outcome_def split: sum.splits)

text \<open>
  Threads that take turns: what every turn keeps, every run keeps; and when some turn always brings the work down, some run
  ends it.
\<close>

locale interleaved =
  fixes turn :: "'e \<Rightarrow> 's \<Rightarrow> 's outcome" and inv :: "'s \<Rightarrow> bool" and work :: "'s \<Rightarrow> nat"
  assumes turn_keeps: "inv s \<Longrightarrow> \<exists>s'. turn e s = Inr s' \<and> inv s'"
    and some_turn: "inv s \<Longrightarrow> work s \<noteq> 0 \<Longrightarrow> \<exists>e s'. turn e s = Inr s' \<and> work s' < work s"
begin

lemma run_keeps: "inv s \<Longrightarrow> \<exists>s'. fold_outcome turn es s = Inr s' \<and> inv s'"
proof (induction es arbitrary: s)
  case (Cons e es)
  then show ?case using turn_keeps [OF Cons.prems, of e] by auto
qed simp

lemma can_finish: "inv s \<Longrightarrow> \<exists>es s'. fold_outcome turn es s = Inr s' \<and> work s' = 0"
proof (induction "work s" arbitrary: s rule: less_induct)
  case less
  show ?case
  proof (cases "work s = 0")
    case True
    then show ?thesis by (intro exI [of _ "[]"] exI [of _ s]) simp
  next
    case False
    then obtain e s1 where s1: "turn e s = Inr s1" "work s1 < work s" using some_turn less.prems by blast
    moreover have "inv s1" using turn_keeps [OF less.prems, of e] s1(1) by auto
    ultimately obtain es s' where "fold_outcome turn es s1 = Inr s'" "work s' = 0" using less.hyps by blast
    then show ?thesis using s1(1) by (intro exI [of _ "e # es"] exI [of _ s']) simp
  qed
qed

end

section \<open>Machine integers\<close>

type_synonym u8 = "8 word"
type_synonym u32 = "32 word"
type_synonym u64 = "64 word"

definition INT_MAX :: int where "INT_MAX = 2147483647"
definition INT_MIN :: int where "INT_MIN = -2147483648"

definition in_i32 :: "int \<Rightarrow> bool" where
  "in_i32 x \<longleftrightarrow> INT_MIN \<le> x \<and> x \<le> INT_MAX"

definition i32 :: "int \<Rightarrow> int outcome" where
  "i32 x = (if in_i32 x then Inr x else Inl SignedOverflow)"

lemmas int_range_defs = in_i32_def INT_MAX_def INT_MIN_def

lemma i32_in_range [simp]: "in_i32 x \<Longrightarrow> i32 x = Inr x"
  by (simp add: i32_def)

lemma i32_Inr_iff: "i32 x = Inr y \<longleftrightarrow> in_i32 x \<and> y = x"
  by (auto simp: i32_def)

section \<open>Lists and multisets\<close>

lemma mset_drop_take: "mset (take n xs) + mset (drop n xs) = mset xs"
  by (metis append_take_drop_id mset_append)

lemma sum_fun_upd_mset:
  fixes f :: "'i \<Rightarrow> 'a multiset"
  assumes "finite I" and "i \<in> I"
  shows "(\<Sum>k\<in>I. (f(i := m)) k) + f i = (\<Sum>k\<in>I. f k) + m"
proof -
  have "(\<Sum>k\<in>I. (f(i := m)) k) = m + (\<Sum>k\<in>I - {i}. f k)"
    using assms by (subst sum.remove [of I i]) auto
  moreover have "(\<Sum>k\<in>I. f k) = f i + (\<Sum>k\<in>I - {i}. f k)"
    using assms by (rule sum.remove)
  ultimately show ?thesis by (simp add: ac_simps)
qed

section \<open>Heap strings\<close>

text \<open>
  A pointer to a \<open>const string\<close>: its address with the text there, which never changes.
  \<open>free_addr\<close> is \<open>delete\<close> on an address, over the set of the addresses already deleted.
\<close>

record cstr =
  cs_addr :: nat
  cs_text :: string

definition free_addr :: "nat \<Rightarrow> nat list \<Rightarrow> nat list outcome" where
  "free_addr a freed = (if a \<in> set freed then Inl DoubleFree else Inr (a # freed))"

definition free_all :: "nat list \<Rightarrow> nat list \<Rightarrow> nat list outcome" where
  "free_all = fold_outcome free_addr"

lemma free_all_Inr_iff:
  "(\<exists>f. free_all as freed = Inr f) \<longleftrightarrow> distinct as \<and> set as \<inter> set freed = {}"
  by (induction as arbitrary: freed) (auto simp: free_all_def free_addr_def)

lemma free_all_result: "free_all as freed = Inr f \<Longrightarrow> set f = set as \<union> set freed"
  by (induction as arbitrary: freed) (auto simp: free_all_def free_addr_def split: if_splits)

end
