(* ===== verification/Lookup8.thy ===== *)
theory Lookup8
  imports Tt_Prelude
begin

text \<open>
  \<open>src/core/lookup8.c\<close>: Bob Jenkins' 64-bit hash, which names methods and responses on
  the wire and indexes every \<open>hash_map\<close> keyed by a string (\<open>network/Hash.hpp\<close>).
  Buffers are byte lists: the pair of the pointer \<open>k\<close> and the length \<open>length\<close> is the
  list of the \<open>length\<close> bytes at \<open>k\<close>. All arithmetic is on 64-bit words and wraps.
\<close>

section \<open>The mixing step\<close>

type_synonym hash_state = "u64 \<times> u64 \<times> u64"

definition mix_a :: "nat \<Rightarrow> hash_state \<Rightarrow> hash_state" where
  "mix_a n = (\<lambda>(a, b, c). ((a - b - c) XOR drop_bit n c, b, c))"

definition mix_b :: "nat \<Rightarrow> hash_state \<Rightarrow> hash_state" where
  "mix_b n = (\<lambda>(a, b, c). (a, (b - c - a) XOR push_bit n a, c))"

definition mix_c :: "nat \<Rightarrow> hash_state \<Rightarrow> hash_state" where
  "mix_c n = (\<lambda>(a, b, c). (a, b, (c - a - b) XOR drop_bit n b))"

definition mix64 :: "hash_state \<Rightarrow> hash_state" where
  "mix64 s =
     mix_c 22 (mix_b 18 (mix_a 12
    (mix_c 11 (mix_b 49 (mix_a 35
    (mix_c 5 (mix_b 23 (mix_a 38
    (mix_c 8 (mix_b 9 (mix_a 43 s)))))))))))"

text \<open>The inverse the comment in the source promises (\<open>mix 3 64-bit values reversibly\<close>).\<close>

definition unmix_a :: "nat \<Rightarrow> hash_state \<Rightarrow> hash_state" where
  "unmix_a n = (\<lambda>(a, b, c). ((a XOR drop_bit n c) + c + b, b, c))"

definition unmix_b :: "nat \<Rightarrow> hash_state \<Rightarrow> hash_state" where
  "unmix_b n = (\<lambda>(a, b, c). (a, (b XOR push_bit n a) + a + c, c))"

definition unmix_c :: "nat \<Rightarrow> hash_state \<Rightarrow> hash_state" where
  "unmix_c n = (\<lambda>(a, b, c). (a, b, (c XOR drop_bit n b) + b + a))"

definition unmix64 :: "hash_state \<Rightarrow> hash_state" where
  "unmix64 s =
     unmix_a 43 (unmix_b 9 (unmix_c 8
    (unmix_a 38 (unmix_b 23 (unmix_c 5
    (unmix_a 35 (unmix_b 49 (unmix_c 11
    (unmix_a 12 (unmix_b 18 (unmix_c 22 s)))))))))))"

lemma xor_cancel_right [simp]: "((x :: 'a::len word) XOR y) XOR y = x"
  by (simp add: xor.assoc)

lemma unmix_mix [simp]:
  "unmix_a n (mix_a n s) = s" "unmix_b n (mix_b n s) = s" "unmix_c n (mix_c n s) = s"
  by (cases s, simp add: unmix_a_def mix_a_def unmix_b_def mix_b_def unmix_c_def mix_c_def)+

lemma mix_unmix [simp]:
  "mix_a n (unmix_a n s) = s" "mix_b n (unmix_b n s) = s" "mix_c n (unmix_c n s) = s"
  by (cases s, simp add: unmix_a_def mix_a_def unmix_b_def mix_b_def unmix_c_def mix_c_def)+

text \<open>
  The mixing step of the hash is reversible, as its comment claims: it is a bijection
  on triples of 64-bit words, with \<open>unmix64\<close> as its two-sided inverse, so no two
  internal states are ever merged by it (the hash has no funnel).
\<close>

theorem mix64_reversible:
  "unmix64 (mix64 s) = s \<and> mix64 (unmix64 s) = s \<and> bij mix64"
proof -
  have inv: "unmix64 (mix64 t) = t" "mix64 (unmix64 t) = t" for t
    by (simp_all add: mix64_def unmix64_def)
  then have "bij mix64"
    by (intro bij_betw_byWitness [where f' = unmix64]) auto
  with inv show ?thesis by blast
qed

section \<open>Reading the key\<close>

text \<open>
  \<open>k[i] + ((ub8)k[i+1] << 8) + ... + ((ub8)k[i+7] << 56)\<close>, the eight-byte little-endian
  sum that \<open>hash\<close> writes out for each of \<open>a\<close>, \<open>b\<close> and \<open>c\<close>.
\<close>

definition byte_at :: "u8 list \<Rightarrow> nat \<Rightarrow> nat \<Rightarrow> u64" where
  "byte_at k i sh = push_bit sh (ucast (k ! i))"

definition sum8 :: "u8 list \<Rightarrow> nat \<Rightarrow> u64" where
  "sum8 k i = byte_at k i 0 + byte_at k (i + 1) 8 + byte_at k (i + 2) 16 + byte_at k (i + 3) 24
            + byte_at k (i + 4) 32 + byte_at k (i + 5) 40 + byte_at k (i + 6) 48
            + byte_at k (i + 7) 56"

text \<open>
  The label \<open>case i\<close> of the final \<open>switch\<close>: labels 23 down to 17 add to \<open>c\<close>, whose
  lowest byte is reserved for the length, 16 down to 9 to \<open>b\<close>, 8 down to 1 to \<open>a\<close>.
  The cases fall through, so entering at \<open>len\<close> runs the labels \<open>len, \<dots>, 1\<close>.
\<close>

definition switch_label :: "u8 list \<Rightarrow> nat \<Rightarrow> hash_state \<Rightarrow> hash_state" where
  "switch_label k i = (\<lambda>(a, b, c).
     if 17 \<le> i then (a, b, c + byte_at k (i - 1) (8 * (i - 16)))
     else if 9 \<le> i then (a, b + byte_at k (i - 1) (8 * (i - 9)), c)
     else (a + byte_at k (i - 1) (8 * (i - 1)), b, c))"

fun switch_from :: "u8 list \<Rightarrow> nat \<Rightarrow> hash_state \<Rightarrow> hash_state" where
  "switch_from k 0 s = s"
| "switch_from k (Suc i) s = switch_from k i (switch_label k (Suc i) s)"

section \<open>hash and hash8\<close>

definition golden :: u64 where "golden = 0x9e3779b97f4a7c13"

text \<open>The body of the main loop and the loop, which returns the unread tail of the key.\<close>

definition absorb24 :: "u8 list \<Rightarrow> hash_state \<Rightarrow> hash_state" where
  "absorb24 k = (\<lambda>(a, b, c). mix64 (a + sum8 k 0, b + sum8 k 8, c + sum8 k 16))"

function hash_loop :: "u8 list \<Rightarrow> hash_state \<Rightarrow> u8 list \<times> hash_state" where
  "hash_loop k s = (if 24 \<le> length k then hash_loop (drop 24 k) (absorb24 k s) else (k, s))"
  by pat_completeness auto
termination
  by (relation "measure (\<lambda>(k, s). length k)") auto

declare hash_loop.simps [simp del]

definition hash_finish :: "nat \<Rightarrow> u8 list \<times> hash_state \<Rightarrow> u64" where
  "hash_finish len = (\<lambda>(k, (a, b, c)).
     snd (snd (mix64 (switch_from k (length k) (a, b, c + of_nat len)))))"

definition hash :: "u8 list \<Rightarrow> u64 \<Rightarrow> u64" where
  "hash k level = hash_finish (length k) (hash_loop k (level, level, golden))"

definition hash8 :: "u8 list \<Rightarrow> u64 \<Rightarrow> u64" where
  "hash8 k val = hash k val"

text \<open>\<open>hash8( const string & )\<close> of \<open>network/Hash.hpp\<close>, level \<open>0xbeef\<close>.\<close>

definition hash8_string :: "string \<Rightarrow> u64" where
  "hash8_string x = hash8 (map of_char x) 0xbeef"

text \<open>
  The functors of the hash tables, with a pointer as its address and a 64-bit \<open>size_t\<close>. Integers and pointers hash to themselves, so
  two keys of such a table have the same hash only when they are the same key.
\<close>

definition hash_void_ptr :: "u64 \<Rightarrow> u64" where "hash_void_ptr x = x"
definition hash_int64 :: "int \<Rightarrow> u64" where "hash_int64 x = word_of_int x"
definition hash_uint64 :: "u64 \<Rightarrow> u64" where "hash_uint64 x = x"
definition hash_text :: "string \<Rightarrow> u64" where "hash_text x = hash8_string x"
definition hash_ptr :: "u64 \<Rightarrow> u64" where "hash_ptr x = x"
definition hash_shared_ptr :: "u64 \<Rightarrow> u64" where "hash_shared_ptr x = x"

lemma hash_int64_inj: "inj_on hash_int64 {- (2 ^ 63) ..< 2 ^ 63}"
proof (rule inj_onI)
  fix x y :: int
  assume r: "x \<in> {- (2 ^ 63) ..< 2 ^ 63}" "y \<in> {- (2 ^ 63) ..< 2 ^ 63}" and "hash_int64 x = hash_int64 y"
  then have "x mod 2 ^ 64 = y mod 2 ^ 64" by (simp add: hash_int64_def word_of_int_eq_iff take_bit_eq_mod)
  then have "2 ^ 64 dvd x - y" by (simp only: mod_eq_dvd_iff)
  then obtain q where q: "x - y = 2 ^ 64 * q" by (elim dvdE)
  then have "q = 0" using r by auto
  then show "x = y" using q by simp
qed

section \<open>hash2 and hash3\<close>

definition absorb3 :: "u64 list \<Rightarrow> hash_state \<Rightarrow> hash_state" where
  "absorb3 k = (\<lambda>(a, b, c). mix64 (a + k ! 0, b + k ! 1, c + k ! 2))"

function hash2_loop :: "u64 list \<Rightarrow> hash_state \<Rightarrow> u64 list \<times> hash_state" where
  "hash2_loop k s = (if 3 \<le> length k then hash2_loop (drop 3 k) (absorb3 k s) else (k, s))"
  by pat_completeness auto
termination
  by (relation "measure (\<lambda>(k, s). length k)") auto

declare hash2_loop.simps [simp del]

definition hash2_switch :: "u64 list \<Rightarrow> hash_state \<Rightarrow> hash_state" where
  "hash2_switch k = (\<lambda>(a, b, c).
     (let b' = (if length k = 2 then b + k ! 1 else b);
          a' = (if length k = 2 \<or> length k = 1 then a + k ! 0 else a)
      in (a', b', c)))"

definition hash2_finish :: "nat \<Rightarrow> u64 list \<times> hash_state \<Rightarrow> u64" where
  "hash2_finish len = (\<lambda>(k, (a, b, c)).
     snd (snd (mix64 (hash2_switch k (a, b, c + push_bit 3 (of_nat len))))))"

definition hash2 :: "u64 list \<Rightarrow> u64 \<Rightarrow> u64" where
  "hash2 k level = hash2_finish (length k) (hash2_loop k (level, level, golden))"

text \<open>
  \<open>*(ub8 *)(k + i)\<close> on a little-endian machine: the eight bytes at \<open>k + i\<close>
  concatenated with the first byte lowest.
\<close>

definition load_le :: "u8 list \<Rightarrow> nat \<Rightarrow> u64" where
  "load_le k i = word_rcat (rev (take 8 (drop i k)))"

definition absorb24_aligned :: "u8 list \<Rightarrow> hash_state \<Rightarrow> hash_state" where
  "absorb24_aligned k = (\<lambda>(a, b, c). mix64 (a + load_le k 0, b + load_le k 8, c + load_le k 16))"

function hash3_loop :: "u8 list \<Rightarrow> hash_state \<Rightarrow> u8 list \<times> hash_state" where
  "hash3_loop k s =
     (if 24 \<le> length k then hash3_loop (drop 24 k) (absorb24_aligned k s) else (k, s))"
  by pat_completeness auto
termination
  by (relation "measure (\<lambda>(k, s). length k)") auto

declare hash3_loop.simps [simp del]

text \<open>The address of the key decides the branch: \<open>((size_t)k) & 7\<close>.\<close>

definition hash3 :: "u64 \<Rightarrow> u8 list \<Rightarrow> u64 \<Rightarrow> u64" where
  "hash3 addr k level =
     hash_finish (length k)
       (if addr AND 7 \<noteq> 0 then hash_loop k (level, level, golden)
        else hash3_loop k (level, level, golden))"


section \<open>The variants agree with hash\<close>

text \<open>The byte image of a word in the memory of a little-endian machine.\<close>

definition bytes_le :: "u64 \<Rightarrow> u8 list" where
  "bytes_le w = map (\<lambda>i. ucast (drop_bit (8 * i) w)) [0..<8]"

lemma length_bytes_le [simp]: "length (bytes_le w) = 8"
  by (simp add: bytes_le_def)

lemma byte_at_eq: "byte_at k i sh = word_of_int (uint (k ! i) * 2 ^ sh)"
  unfolding byte_at_def push_bit_eq_mult ucast_eq by simp

lemma base256_nest:
  fixes b0 b1 b2 b3 b4 b5 b6 b7 :: int
  shows "b0 * 2 ^ 0 + b1 * 2 ^ 8 + b2 * 2 ^ 16 + b3 * 2 ^ 24 + b4 * 2 ^ 32 + b5 * 2 ^ 40
       + b6 * 2 ^ 48 + b7 * 2 ^ 56
       = b0 + 256 * (b1 + 256 * (b2 + 256 * (b3 + 256 * (b4 + 256 * (b5 + 256 * (b6 + 256 * b7))))))"
  by simp

lemma sum8_eq:
  "sum8 k i = word_of_int (uint (k ! i) + 256 * (uint (k ! (i + 1)) + 256 * (uint (k ! (i + 2))
     + 256 * (uint (k ! (i + 3)) + 256 * (uint (k ! (i + 4)) + 256 * (uint (k ! (i + 5))
     + 256 * (uint (k ! (i + 6)) + 256 * uint (k ! (i + 7)))))))))"
  unfolding sum8_def byte_at_eq wi_hom_add base256_nest by (rule refl)

lemma take8_drop:
  "i + 8 \<le> length k \<Longrightarrow>
    take 8 (drop i k) = [k ! i, k ! (i + 1), k ! (i + 2), k ! (i + 3),
                         k ! (i + 4), k ! (i + 5), k ! (i + 6), k ! (i + 7)]"
  by (rule nth_equalityI) (auto simp: less_Suc_eq numeral_eq_Suc)

lemma load_le_eq_sum8: "i + 8 \<le> length k \<Longrightarrow> load_le k i = sum8 k i"
  by (simp add: load_le_def take8_drop sum8_eq word_rcat_def del: take_drop drop_drop)

lemma uint_drop_bit: "uint (drop_bit n (w :: u64)) = uint w div 2 ^ n"
proof -
  have "unat (drop_bit n w) = unat w div 2 ^ n"
    by (simp only: unat_drop_bit_eq) (simp only: drop_bit_eq_div)
  then show ?thesis by (simp only: uint_nat zdiv_int of_nat_power of_nat_numeral)
qed

lemma uint_ucast_u8: "uint (ucast (x :: u64) :: u8) = uint x mod 256"
  by transfer (simp add: take_bit_eq_mod)

lemma nth_bytes_le: "i < 8 \<Longrightarrow> uint (bytes_le w ! i) = uint w div 2 ^ (8 * i) mod 256"
  by (simp add: bytes_le_def uint_ucast_u8 uint_drop_bit del: upt_conv_Cons)

lemma base256_digits:
  fixes x :: int
  shows "x mod 256 + 256 * (x div 256 mod 256 + 256 * (x div 65536 mod 256
     + 256 * (x div 16777216 mod 256 + 256 * (x div 4294967296 mod 256
     + 256 * (x div 1099511627776 mod 256 + 256 * (x div 281474976710656 mod 256
     + 256 * (x div 72057594037927936))))))) = x"
proof -
  have step: "y mod 256 + 256 * (y div 256) = y" for y :: int
    by (rule mod_mult_div_eq)
  have nest: "x div 65536 = x div 256 div 256"
    "x div 16777216 = x div 65536 div 256"
    "x div 4294967296 = x div 16777216 div 256"
    "x div 1099511627776 = x div 4294967296 div 256"
    "x div 281474976710656 = x div 1099511627776 div 256"
    "x div 72057594037927936 = x div 281474976710656 div 256"
    by (simp_all flip: zdiv_zmult2_eq)
  show ?thesis
    by (simp only: nest step)
qed

lemma sum8_bytes_le: "sum8 (bytes_le w) 0 = w"
proof -
  have "uint w < 18446744073709551616" using uint_bounded [of w] by simp
  then have top: "uint w div 72057594037927936 mod 256 = uint w div 72057594037927936"
    by (intro mod_pos_pos_trivial) (simp_all add: pos_imp_zdiv_nonneg_iff)
  have "sum8 (bytes_le w) 0 = word_of_int (uint w)"
    unfolding sum8_eq
    by (rule arg_cong [where f = word_of_int])
       (use base256_digits [of "uint w"] top in \<open>simp add: nth_bytes_le\<close>)
  then show ?thesis by simp
qed

lemma hash3_loop_eq: "hash3_loop k s = hash_loop k s"
proof (induction k s rule: hash3_loop.induct)
  case (1 k s)
  have "absorb24_aligned k s = absorb24 k s" if "24 \<le> length k"
    using that by (cases s) (simp add: absorb24_aligned_def absorb24_def load_le_eq_sum8)
  with 1 show ?case
    by (simp add: hash3_loop.simps [of k s] hash_loop.simps [of k s])
qed

text \<open>
  On a little-endian machine \<open>hash3\<close>, which reads the key eight bytes at a time when
  its address is aligned, computes exactly \<open>hash\<close>, at every address and for every key and
  level: the claim of the comment above \<open>hash3\<close>.
\<close>

theorem hash3_eq_hash: "hash3 addr k level = hash k level"
  by (simp add: hash3_def hash_def hash3_loop_eq)

definition words_image :: "u64 list \<Rightarrow> u8 list" where
  "words_image ws = concat (map bytes_le ws)"

lemma words_image_simps [simp]:
  "words_image [] = []" "words_image (w # ws) = bytes_le w @ words_image ws"
  by (simp_all add: words_image_def)

lemma length_words_image [simp]: "length (words_image ws) = 8 * length ws"
  by (induction ws) auto

lemma drop_words_image: "drop (8 * n) (words_image ws) = words_image (drop n ws)"
proof (induction n arbitrary: ws)
  case (Suc n)
  then show ?case by (cases ws) (simp_all add: drop_eq_Nil)
qed simp

lemma sum8_drop: "i \<le> length k \<Longrightarrow> sum8 k i = sum8 (drop i k) 0"
  by (simp add: sum8_def byte_at_def)

lemma sum8_append: "8 \<le> length k \<Longrightarrow> sum8 (k @ r) 0 = sum8 k 0"
  by (auto simp: sum8_def byte_at_def nth_append)

lemma sum8_words_image: "i < length ws \<Longrightarrow> sum8 (words_image ws) (8 * i) = ws ! i"
  by (subst sum8_drop)
     (auto simp: drop_words_image Cons_nth_drop_Suc [symmetric] sum8_append sum8_bytes_le)

lemma absorb24_words_image:
  assumes "3 \<le> length ws" shows "absorb24 (words_image ws) s = absorb3 ws s"
proof -
  have "0 < length ws" "1 < length ws" "2 < length ws" using assms by linarith+
  from this [THEN sum8_words_image] show ?thesis
    by (cases s) (simp add: absorb24_def absorb3_def)
qed

lemma hash_loop_words_image:
  "hash_loop (words_image ws) s = map_prod words_image id (hash2_loop ws s)"
proof (induction ws s rule: hash2_loop.induct)
  case (1 ws s)
  then show ?case
    using drop_words_image [of 3 ws]
    by (simp add: hash2_loop.simps [of ws s] hash_loop.simps [of "words_image ws" s]
        absorb24_words_image)
qed

lemma hash2_loop_rest: "length (fst (hash2_loop ws s)) < 3"
  by (induction ws s rule: hash2_loop.induct) (subst hash2_loop.simps, simp)

lemma switch_from_8: "switch_from k 8 (a, b, c) = (a + sum8 k 0, b, c)"
  by (simp add: numeral_eq_Suc switch_label_def) (simp add: sum8_def numeral_eq_Suc ac_simps)

lemma switch_from_16: "switch_from k 16 (a, b, c) = (a + sum8 k 0, b + sum8 k 8, c)"
proof -
  have "switch_from k 16 (a, b, c) = switch_from k 8 (a, b + sum8 k 8, c)"
    by (simp add: numeral_eq_Suc switch_label_def) (simp add: sum8_def numeral_eq_Suc ac_simps)
  then show ?thesis by (simp add: switch_from_8)
qed

lemma switch_words_image:
  assumes "length ws < 3"
  shows "switch_from (words_image ws) (8 * length ws) s = hash2_switch ws s"
proof -
  consider "length ws = 0" | "length ws = 1" | "length ws = 2" using assms by linarith
  then show ?thesis
    using sum8_words_image [of 0 ws] sum8_words_image [of 1 ws]
    by cases (cases s, simp add: hash2_switch_def switch_from_8 switch_from_16)+
qed

text \<open>
  C36. \<open>hash2\<close>, which takes its key as an array of 64-bit words, computes exactly the hash
  of the bytes those words occupy in the memory of a little-endian machine, for every array
  and level: the claim of the comment above \<open>hash2\<close>.
\<close>

theorem hash2_eq_hash: "hash2 ws level = hash (words_image ws) level"
proof -
  obtain r a b c where l: "hash2_loop ws (level, level, golden) = (r, (a, b, c))"
    by (metis prod_cases3 surj_pair)
  have "length r < 3" using hash2_loop_rest [of ws "(level, level, golden)"] l by simp
  moreover have "push_bit 3 (of_nat (length ws)) = (of_nat (8 * length ws) :: u64)"
    by (simp add: push_bit_eq_mult)
  ultimately show ?thesis
    by (simp add: hash_def hash2_def hash_finish_def hash2_finish_def l hash_loop_words_image
        switch_words_image)
qed

section \<open>Evaluating a hash\<close>

text \<open>
  The steps in which the hash of a literal string is computed by rewriting: \<open>hash_start\<close>, then
  \<open>hash_loop_steps\<close>, \<open>read_eval\<close>, \<open>mix_eval\<close>, \<open>finish_eval\<close> and \<open>mix_eval\<close> again.
\<close>

lemma hash_loop_steps:
  "24 \<le> length k \<Longrightarrow> hash_loop k s = hash_loop (drop 24 k) (absorb24 k s)"
  "length k < 24 \<Longrightarrow> hash_loop k s = (k, s)"
  by (simp_all add: hash_loop.simps [of k])

lemmas hash_start = hash8_string_def hash8_def hash_def of_char_def
lemmas read_eval = absorb24_def sum8_def byte_at_def golden_def
lemmas finish_eval = hash_finish_def switch_label_def byte_at_def
lemmas mix_eval = mix64_def mix_a_def mix_b_def mix_c_def

end
