(* ===== verification/Lookup8_Selftest.thy ===== *)
theory Lookup8_Selftest
  imports Tt_Prelude Lookup8
begin

text \<open>
  The tests of \<open>src/core/lookup8.c\<close> that are compiled with \<open>SELF_TEST\<close>. A buffer is the list of its bytes, a key is read at an
  offset, and a read outside the buffer is a fault. What \<open>driver3\<close> and \<open>driver4\<close> print to be compared by eye is proved here: the hash of a
  key depends on nothing but the key, wherever it lies, and hashing empty keys in a chain gives different values. Of \<open>driver2\<close> it
  is proved what the line \<open>Mix success\<close> means, and that the test prints a variable that nothing has set.
\<close>

section \<open>Keys in a buffer\<close>

definition hash_at :: "u8 list \<Rightarrow> nat \<Rightarrow> nat \<Rightarrow> u64 \<Rightarrow> u64 outcome" where
  "hash_at buf k len level =
     (if k + len \<le> length buf then Inr (hash (take len (drop k buf)) level) else Inl OutOfBounds)"

definition store :: "nat \<Rightarrow> u8 \<Rightarrow> u8 list \<Rightarrow> u8 list outcome" where
  "store i v buf = (if i < length buf then Inr (buf[i := v]) else Inl OutOfBounds)"

section \<open>The drivers\<close>

definition driver1 :: "u8 list \<Rightarrow> u64 outcome" where
  "driver1 buf = fold_outcome (\<lambda>i h. hash_at buf 0 i h) [0..<256] 0"

text \<open>The text of \<open>q\<close> behind 0 to 7 bytes \<open>x\<close>, and the eight hashes that should be the same.\<close>

definition driver3_text :: "u8 list" where
  "driver3_text = map of_char ''This is the time for all good men to come to the aid of their country''"

definition driver3_hash :: "nat \<Rightarrow> u64 outcome" where
  "driver3_hash n = hash_at (replicate n (of_char CHR ''x'') @ driver3_text @ [0]) n (length driver3_text) 0"

text \<open>The check of one length at one offset; the list collects the alignment errors printed.\<close>

definition driver3_check :: "nat \<times> nat \<Rightarrow> u8 list \<times> (nat \<times> nat) list \<Rightarrow> (u8 list \<times> (nat \<times> nat) list) outcome" where
  "driver3_check = (\<lambda>(h, i) (buf, printed).
     let b = h + 1 in
     bind_outcome (fold_outcome (\<lambda>j. store (b + j) 0) [0..<i] buf) (\<lambda>buf.
     bind_outcome (hash_at buf b i 1) (\<lambda>ref.
     bind_outcome (store (b + i) (NOT 0) buf) (\<lambda>buf.
     bind_outcome (store (b - 1) (NOT 0) buf) (\<lambda>buf.
     bind_outcome (hash_at buf b i 1) (\<lambda>x.
     bind_outcome (hash_at buf b i 1) (\<lambda>y.
     Inr (buf, if ref \<noteq> x \<or> ref \<noteq> y then printed @ [(h, i)] else printed))))))))"

definition MAXLEN :: nat where "MAXLEN = 5"

definition driver3 :: "u8 list \<Rightarrow> (u8 list \<times> (nat \<times> nat) list) outcome" where
  "driver3 buf = fold_outcome driver3_check (List.product [0..<8] [0..<MAXLEN]) (buf, [])"

definition driver4 :: "u64 list" where
  "driver4 = map (\<lambda>n. ((\<lambda>h. hash [] h) ^^ Suc n) 0) [0..<8]"

section \<open>Nothing but the key\<close>

lemma driver1_returns: "256 \<le> length buf \<Longrightarrow> \<exists>h. driver1 buf = Inr h"
proof -
  assume len: "256 \<le> length buf"
  have "\<exists>h. fold_outcome (\<lambda>i h. hash_at buf 0 i h) is h0 = Inr h" if "\<forall>i \<in> set is. i \<le> 256" for "is" h0
    using that len by (induction "is" arbitrary: h0) (auto simp: hash_at_def)
  then show ?thesis by (auto simp: driver1_def)
qed

lemma driver3_hashes_agree: "driver3_hash n = Inr (hash driver3_text 0)"
  by (simp add: driver3_hash_def hash_at_def)

lemma fold_store_length:
  "\<forall>j \<in> set js. b + j < length buf \<Longrightarrow>
    \<exists>buf'. fold_outcome (\<lambda>j. store (b + j) v) js buf = Inr buf' \<and> length buf' = length buf"
proof (induction js arbitrary: buf)
  case (Cons j js)
  then show ?case using Cons.IH [of "buf[b + j := v]"] by (simp add: store_def)
qed simp

lemma driver3_check_silent:
  assumes "h + 1 + i < length buf"
  shows "\<exists>buf'. driver3_check (h, i) (buf, printed) = Inr (buf', printed) \<and> length buf' = length buf"
proof -
  obtain buf1 where 1: "fold_outcome (\<lambda>j. store (h + 1 + j) 0) [0..<i] buf = Inr buf1" "length buf1 = length buf"
    using fold_store_length [of "[0..<i]" "h + 1" buf 0] assms by auto
  let ?buf2 = "buf1[h + 1 + i := NOT 0, h := NOT 0]"
  have "take i (drop (h + 1) ?buf2) = take i (drop (h + 1) buf1)"
    by (rule nth_equalityI) (auto simp: nth_list_update)
  then show ?thesis
    using 1 assms by (simp add: driver3_check_def Let_def hash_at_def store_def)
qed

text \<open>
  \<open>driver3\<close> prints no alignment error, whatever its buffer held, and stays inside it; the eight hashes it prints
  before are the same.
\<close>

theorem driver3_silent:
  assumes "length buf = MAXLEN + 20"
  shows "(\<exists>buf'. driver3 buf = Inr (buf', [])) \<and> list_all (\<lambda>n. driver3_hash n = driver3_hash 0) [0..<8]"
proof -
  have "\<exists>buf'. fold_outcome driver3_check his (buf, []) = Inr (buf', []) \<and> length buf' = length buf"
    if "\<forall>(h, i) \<in> set his. h + 1 + i < length buf" for his buf
    using that
  proof (induction his arbitrary: buf)
    case (Cons hi his)
    obtain h i where hi: "hi = (h, i)" by (cases hi)
    with Cons.prems obtain buf1 where "driver3_check hi (buf, []) = Inr (buf1, [])" "length buf1 = length buf"
      using driver3_check_silent [of h i buf "[]"] by auto
    then show ?case using Cons.IH [of buf1] Cons.prems by auto
  qed simp
  from this [of "List.product [0..<8] [0..<MAXLEN]" buf] assms show ?thesis
    by (auto simp: driver3_def driver3_hashes_agree list_all_iff MAXLEN_def)
qed

section \<open>Chained empty keys\<close>

lemma hash_empty: "hash [] level = snd (snd (mix64 (level, level, golden)))"
  by (simp add: hash_def hash_loop_steps hash_finish_def)

lemma empty_chain:
  "hash [] 0 = 10211412111675192767"
  "hash [] 10211412111675192767 = 16700717914633816122"
  "hash [] 16700717914633816122 = 1422066844987778489"
  "hash [] 1422066844987778489 = 10261987491367370763"
  "hash [] 10261987491367370763 = 12273067623495227756"
  "hash [] 12273067623495227756 = 16645485090030107530"
  "hash [] 16645485090030107530 = 8832222693507987653"
  "hash [] 8832222693507987653 = 4611870314930339265"
  unfolding hash_empty by (simp add: golden_def, simp add: mix_eval)+

lemma funpow_8:
  fixes f :: "'a \<Rightarrow> 'a"
  shows "(f ^^ 2) x = f (f x)" "(f ^^ 3) x = f (f (f x))" "(f ^^ 4) x = f (f (f (f x)))"
    "(f ^^ 5) x = f (f (f (f (f x))))" "(f ^^ 6) x = f (f (f (f (f (f x)))))"
    "(f ^^ 7) x = f (f (f (f (f (f (f x))))))"
  by (simp_all add: numeral_eq_Suc)

text \<open>The values \<open>driver4\<close> prints are all different.\<close>

theorem driver4_distinct: "distinct driver4"
proof -
  have "[0..<8] = [0, 1, 2, 3, 4, 5, 6, 7 :: nat]" by (simp add: upt_rec)
  then have "driver4 = map (\<lambda>n. ((\<lambda>h. hash [] h) ^^ Suc n) 0) [0, 1, 2, 3, 4, 5, 6, 7]"
    by (simp only: driver4_def)
  then have literals: "driver4 = [10211412111675192767, 16700717914633816122, 1422066844987778489, 10261987491367370763,
      12273067623495227756, 16645485090030107530, 8832222693507987653, 4611870314930339265]"
    by (simp add: funpow_8 empty_chain)
  show ?thesis unfolding literals by simp
qed

section \<open>Every input bit\<close>

text \<open>
  \<open>driver2\<close>: for every bit of a key, pairs of keys that differ in that bit only. The six words collect, for every bit
  of the hash, whether it was always changed, never changed, always set, and never set.
\<close>

definition MAXPAIR :: nat where "MAXPAIR = 80"

record bit_tally =
  t_e :: u64
  t_f :: u64
  t_g :: u64
  t_h :: u64
  t_x :: u64
  t_y :: u64

definition tally_new :: bit_tally where
  "tally_new = \<lparr>t_e = NOT 0, t_f = NOT 0, t_g = NOT 0, t_h = NOT 0, t_x = NOT 0, t_y = NOT 0\<rparr>"

definition driver2_key :: "nat \<Rightarrow> nat \<Rightarrow> nat \<Rightarrow> u64 \<Rightarrow> u8 list" where
  "driver2_key hlen i j k =
     (let a = replicate (hlen + 1) (0 :: u8);
          a = a[i := a ! i XOR ucast (push_bit j k)]
      in a[i := a ! i XOR ucast (drop_bit (8 - j) k)])"

definition driver2_hash :: "nat \<Rightarrow> nat \<Rightarrow> nat \<Rightarrow> nat \<Rightarrow> u64 \<Rightarrow> u64" where
  "driver2_hash hlen i j m k = hash (take hlen (driver2_key hlen i j k)) (of_nat m)"

definition tally_pair :: "u64 \<Rightarrow> u64 \<Rightarrow> bit_tally \<Rightarrow> bit_tally" where
  "tally_pair c d s =
     \<lparr>t_e = t_e s AND (c XOR d), t_f = t_f s AND NOT (c XOR d), t_g = t_g s AND c, t_h = t_h s AND NOT c,
      t_x = t_x s AND d, t_y = t_y s AND NOT d\<rparr>"

definition tally_finished :: "bit_tally \<Rightarrow> bool" where
  "tally_finished s \<longleftrightarrow> t_e s OR t_f s OR t_g s OR t_h s OR t_x s OR t_y s = 0"

text \<open>The loop over \<open>k\<close>: the value \<open>k\<close> has when it ends, and the tally.\<close>

fun driver2_pairs :: "nat \<Rightarrow> nat \<Rightarrow> nat \<Rightarrow> nat \<Rightarrow> nat list \<Rightarrow> bit_tally \<Rightarrow> nat \<times> bit_tally" where
  "driver2_pairs hlen i j m [] s = (MAXPAIR, s)"
| "driver2_pairs hlen i j m (k # ks) s =
     (let s = tally_pair (driver2_hash hlen i j m (of_nat k)) (driver2_hash hlen i j m (of_nat k + 1)) s
      in if tally_finished s then (k, s) else driver2_pairs hlen i j m ks s)"

definition pair_numbers :: "nat list" where
  "pair_numbers = map (\<lambda>n. 2 * n) [0..<MAXPAIR div 2]"

datatype driver2_line =
    TrialsNeeded nat
  | BitUnchanged bit_tally nat nat nat nat
  | MixSuccess nat nat nat

text \<open>
  The loops over the byte \<open>i\<close>, its bit \<open>j\<close> and the level \<open>m\<close>, left at once when \<open>z\<close> is \<open>MAXPAIR\<close>; the result holds \<open>z\<close>, \<open>i\<close> and \<open>m\<close> as they
  are at the label \<open>done\<close>, where \<open>m\<close> is \<open>None\<close> while nothing has set it.
\<close>

fun driver2_search ::
  "nat \<Rightarrow> (nat \<times> nat \<times> nat) list \<Rightarrow> nat \<Rightarrow> nat option \<Rightarrow> driver2_line list \<Rightarrow> nat \<times> nat \<times> nat option \<times> driver2_line list"
where
  "driver2_search hlen [] z m0 printed = (z, hlen, m0, printed)"
| "driver2_search hlen ((i, j, m) # ijms) z m0 printed =
     (let (k, s) = driver2_pairs hlen i j m pair_numbers tally_new;
          z = (if k > z then k else z);
          printed = (if k = MAXPAIR then printed @ [BitUnchanged s i j m hlen] else printed)
      in if z = MAXPAIR then (z, i, Some m, printed) else driver2_search hlen ijms z (Some (m + 1)) printed)"

definition driver2_positions :: "nat \<Rightarrow> (nat \<times> nat \<times> nat) list" where
  "driver2_positions hlen = List.product [0..<hlen] (List.product [0..<8] [0..<8])"

definition driver2_length :: "nat \<Rightarrow> nat option \<times> driver2_line list \<Rightarrow> (nat option \<times> driver2_line list) outcome" where
  "driver2_length hlen = (\<lambda>(m, printed).
     let (z, i, m, printed) = driver2_search hlen (driver2_positions hlen) 0 m printed in
     if z < MAXPAIR
     then (case m of
             None \<Rightarrow> Inl Indeterminate
           | Some m' \<Rightarrow> Inr (m, printed @ [MixSuccess i m' (z div 2)]))
     else Inr (m, printed))"

definition driver2 :: "nat option \<Rightarrow> (nat option \<times> driver2_line list) outcome" where
  "driver2 m = fold_outcome driver2_length [0..<MAXLEN] (m, [TrialsNeeded (MAXPAIR div 2)])"

section \<open>What the statistic shows\<close>

lemma driver2_key_eq:
  assumes "i < hlen + 1"
  shows "driver2_key hlen i j k = (replicate (hlen + 1) 0)[i := ucast (push_bit j k) XOR ucast (drop_bit (8 - j) k)]"
proof -
  obtain n where n: "hlen + 1 = n" by simp
  show ?thesis using assms unfolding driver2_key_def Let_def n by simp
qed

text \<open>The two keys of a pair differ in bit \<open>j\<close> of byte \<open>i\<close> and nowhere else, as the comment says.\<close>

theorem pairs_differ_in_one_bit:
  assumes "even k" and "i < hlen" and "j < 8"
  shows "driver2_key hlen i j (k + 1) = (driver2_key hlen i j k)[i := driver2_key hlen i j k ! i XOR push_bit j 1]"
proof -
  have k: "k + 1 = k XOR 1" using assms(1) by (simp add: xor_one_eq)
  obtain n where n: "8 - j = Suc n" using assms(3) by (cases "8 - j") auto
  have "drop_bit (Suc n) (1 :: u64) = 0" by (simp add: drop_bit_Suc)
  moreover have "(ucast (push_bit j 1 :: u64) :: u8) = push_bit j 1"
    using assms(3) by (intro bit_eqI) (auto simp: bit_simps)
  ultimately have "(ucast (push_bit j (k + 1)) :: u8) XOR ucast (drop_bit (8 - j) (k + 1)) =
      (ucast (push_bit j k) XOR ucast (drop_bit (8 - j) k)) XOR push_bit j 1"
    unfolding k n push_bit_xor drop_bit_xor unsigned_xor_eq
    by (simp add: ac_simps)
  moreover have "i < hlen + 1" using assms(2) by simp
  ultimately show ?thesis
    by (simp add: driver2_key_eq xor.assoc del: replicate_Suc)
qed

text \<open>A pair that leaves a bit of a tally standing has that bit so in every pair.\<close>

lemma tally_fold_bits:
  assumes "n < 64"
  shows "bit (t_e (fold (\<lambda>k. tally_pair (c k) (d k)) ks s)) n \<longleftrightarrow> bit (t_e s) n \<and> (\<forall>k \<in> set ks. bit (c k) n \<noteq> bit (d k) n)"
    "bit (t_f (fold (\<lambda>k. tally_pair (c k) (d k)) ks s)) n \<longleftrightarrow> bit (t_f s) n \<and> (\<forall>k \<in> set ks. bit (c k) n = bit (d k) n)"
    "bit (t_g (fold (\<lambda>k. tally_pair (c k) (d k)) ks s)) n \<longleftrightarrow> bit (t_g s) n \<and> (\<forall>k \<in> set ks. bit (c k) n)"
    "bit (t_h (fold (\<lambda>k. tally_pair (c k) (d k)) ks s)) n \<longleftrightarrow> bit (t_h s) n \<and> (\<forall>k \<in> set ks. \<not> bit (c k) n)"
    "bit (t_x (fold (\<lambda>k. tally_pair (c k) (d k)) ks s)) n \<longleftrightarrow> bit (t_x s) n \<and> (\<forall>k \<in> set ks. bit (d k) n)"
    "bit (t_y (fold (\<lambda>k. tally_pair (c k) (d k)) ks s)) n \<longleftrightarrow> bit (t_y s) n \<and> (\<forall>k \<in> set ks. \<not> bit (d k) n)"
  using assms by (induction ks arbitrary: s) (simp_all add: tally_pair_def bit_simps)

lemma driver2_pairs_tally:
  "driver2_pairs hlen i j m ks s = (k, t) \<Longrightarrow> \<exists>vs. set vs \<subseteq> set ks \<and>
    t = fold (\<lambda>k. tally_pair (driver2_hash hlen i j m (of_nat k)) (driver2_hash hlen i j m (of_nat k + 1))) vs s \<and>
    (k \<noteq> MAXPAIR \<longrightarrow> tally_finished t)"
proof (induction ks arbitrary: s)
  case Nil
  then show ?case by auto
next
  case (Cons k' ks)
  let ?s = "tally_pair (driver2_hash hlen i j m (of_nat k')) (driver2_hash hlen i j m (of_nat k' + 1)) s"
  show ?case
  proof (cases "tally_finished ?s")
    case True
    then show ?thesis using Cons.prems by (intro exI [of _ "[k']"]) (auto simp: Let_def)
  next
    case False
    then have "driver2_pairs hlen i j m ks ?s = (k, t)" using Cons.prems by (simp add: Let_def)
    from Cons.IH [OF this] obtain vs where "set vs \<subseteq> set ks"
      "t = fold (\<lambda>k. tally_pair (driver2_hash hlen i j m (of_nat k)) (driver2_hash hlen i j m (of_nat k + 1))) vs ?s"
      "k \<noteq> MAXPAIR \<longrightarrow> tally_finished t" by blast
    then show ?thesis by (intro exI [of _ "k' # vs"]) auto
  qed
qed

lemma tally_finished_bits:
  assumes "tally_finished t"
  shows "\<not> bit (t_e t) n" "\<not> bit (t_f t) n" "\<not> bit (t_g t) n" "\<not> bit (t_h t) n" "\<not> bit (t_x t) n" "\<not> bit (t_y t) n"
proof -
  have "\<not> bit (t_e t OR t_f t OR t_g t OR t_h t OR t_x t OR t_y t) n"
    using assms by (simp add: tally_finished_def)
  then show "\<not> bit (t_e t) n" "\<not> bit (t_f t) n" "\<not> bit (t_g t) n" "\<not> bit (t_h t) n" "\<not> bit (t_x t) n" "\<not> bit (t_y t) n"
    by (simp_all add: bit_simps)
qed

text \<open>
  A search over the pairs that ends before \<open>MAXPAIR\<close> has seen, for every bit of the hash, a pair that changes it, one that does
  not, and keys with the bit set and not set.
\<close>

lemma pairs_all_seen:
  assumes "driver2_pairs hlen i j m pair_numbers tally_new = (k, t)" and "k \<noteq> MAXPAIR" and "n < 64"
  shows "(\<exists>k \<in> set pair_numbers. bit (driver2_hash hlen i j m (of_nat k)) n \<noteq> bit (driver2_hash hlen i j m (of_nat k + 1)) n) \<and>
    (\<exists>k \<in> set pair_numbers. bit (driver2_hash hlen i j m (of_nat k)) n = bit (driver2_hash hlen i j m (of_nat k + 1)) n) \<and>
    (\<exists>k \<in> set pair_numbers. bit (driver2_hash hlen i j m (of_nat k)) n) \<and>
    (\<exists>k \<in> set pair_numbers. \<not> bit (driver2_hash hlen i j m (of_nat k)) n) \<and>
    (\<exists>k \<in> set pair_numbers. bit (driver2_hash hlen i j m (of_nat k + 1)) n) \<and>
    (\<exists>k \<in> set pair_numbers. \<not> bit (driver2_hash hlen i j m (of_nat k + 1)) n)"
proof -
  have new: "bit (t_e tally_new) n" "bit (t_f tally_new) n" "bit (t_g tally_new) n" "bit (t_h tally_new) n"
    "bit (t_x tally_new) n" "bit (t_y tally_new) n"
    using assms(3) by (simp_all add: tally_new_def)
  obtain vs where vs: "set vs \<subseteq> set pair_numbers" and fin: "tally_finished t" and t:
    "t = fold (\<lambda>k. tally_pair (driver2_hash hlen i j m (of_nat k)) (driver2_hash hlen i j m (of_nat k + 1))) vs tally_new"
    using driver2_pairs_tally [OF assms(1)] assms(2) by blast
  note bits = tally_finished_bits [OF fin, of n, unfolded t tally_fold_bits [OF assms(3)], simplified new simp_thms]
  show ?thesis using vs bits by blast
qed

text \<open>
  When the driver prints \<open>Mix success\<close> for a length, every bit of the key reaches every bit of the hash, at every level tried:
  some pair that differs in that bit alone changes the bit of the hash, and some pair does not.
\<close>

lemma search_below:
  "driver2_search hlen ijms z0 m0 printed = (z, i, m, printed') \<Longrightarrow> z < MAXPAIR \<Longrightarrow>
    z0 \<le> z \<and> (\<forall>(i, j, m) \<in> set ijms. fst (driver2_pairs hlen i j m pair_numbers tally_new) \<noteq> MAXPAIR)"
proof (induction ijms arbitrary: z0 m0 printed)
  case (Cons ijm ijms)
  obtain i' j' m1 k t where ijm: "ijm = (i', j', m1)" and k: "driver2_pairs hlen i' j' m1 pair_numbers tally_new = (k, t)"
    by (cases ijm; cases "driver2_pairs hlen (fst ijm) (fst (snd ijm)) (snd (snd ijm)) pair_numbers tally_new") auto
  let ?z = "if k > z0 then k else z0"
  have "?z \<noteq> MAXPAIR" using Cons.prems by (auto simp: ijm k Let_def split: if_splits)
  then obtain m2 printed2 where "driver2_search hlen ijms ?z m2 printed2 = (z, i, m, printed')"
    using Cons.prems(1) by (auto simp: ijm k Let_def split: if_splits)
  from Cons.IH [OF this Cons.prems(2)] have "?z \<le> z"
    and "\<forall>(i, j, m) \<in> set ijms. fst (driver2_pairs hlen i j m pair_numbers tally_new) \<noteq> MAXPAIR" by auto
  then show ?case using Cons.prems(2) by (auto simp: ijm k split: if_splits)
qed simp

theorem mix_success_means:
  assumes "driver2_search hlen (driver2_positions hlen) 0 m0 printed = (z, i', m', printed')" and "z < MAXPAIR"
    and "i < hlen" and "j < 8" and "m < 8" and "n < 64"
  shows "\<exists>k \<in> set pair_numbers. \<exists>k' \<in> set pair_numbers.
    bit (driver2_hash hlen i j m (of_nat k)) n \<noteq> bit (driver2_hash hlen i j m (of_nat k + 1)) n \<and>
    bit (driver2_hash hlen i j m (of_nat k')) n = bit (driver2_hash hlen i j m (of_nat k' + 1)) n"
proof -
  have "(i, j, m) \<in> set (driver2_positions hlen)" using assms by (simp add: driver2_positions_def)
  then have "fst (driver2_pairs hlen i j m pair_numbers tally_new) \<noteq> MAXPAIR"
    using search_below [OF assms(1,2)] by blast
  then show ?thesis
    using pairs_all_seen [OF prod.collapse [symmetric] _ assms(6)] by blast
qed

text \<open>\<open>m\<close> is printed for the empty key although nothing has set it; with any value in it the driver ends.\<close>

lemma driver2_search_set: "m0 \<noteq> None \<Longrightarrow> driver2_search hlen ijms z m0 printed = (z', i, m, printed') \<Longrightarrow> m \<noteq> None"
  by (induction hlen ijms z m0 printed rule: driver2_search.induct) (auto simp: Let_def split: prod.splits if_splits)

theorem driver2_reads_unset: "driver2 None = Inl Indeterminate"
  by (simp add: driver2_def MAXLEN_def upt_rec driver2_length_def driver2_positions_def MAXPAIR_def)

theorem driver2_returns: "\<exists>m' printed. driver2 (Some m) = Inr (Some m', printed)"
proof -
  have "\<exists>m' printed'. fold_outcome driver2_length ls (Some m, printed) = Inr (Some m', printed')" for ls m printed
  proof (induction ls arbitrary: m printed)
    case (Cons l ls)
    obtain z i m1 printed1 where s: "driver2_search l (driver2_positions l) 0 (Some m) printed = (z, i, m1, printed1)"
      by (cases "driver2_search l (driver2_positions l) 0 (Some m) printed") auto
    with driver2_search_set obtain m' where "m1 = Some m'" by blast
    then show ?case using s Cons.IH by (auto simp: driver2_length_def)
  qed simp
  then show ?thesis by (simp add: driver2_def)
qed

section \<open>The self test\<close>

text \<open>\<open>main\<close> of the test, over what the buffers and the variable \<open>m\<close> hold at first.\<close>

definition selftest_main :: "u8 list \<Rightarrow> nat option \<Rightarrow> u8 list \<Rightarrow> (driver2_line list \<times> (nat \<times> nat) list \<times> u64 list \<times> int) outcome" where
  "selftest_main buf1 m buf3 =
     bind_outcome (driver1 buf1) (\<lambda>_.
     bind_outcome (driver2 m) (\<lambda>(_, statistic).
     bind_outcome (driver3 buf3) (\<lambda>(_, alignment_errors).
     Inr (statistic, alignment_errors, driver4, 1))))"

theorem selftest_result:
  assumes "length buf1 = 256" and "length buf3 = MAXLEN + 20"
  shows "selftest_main buf1 None buf3 = Inl Indeterminate"
    and "\<exists>statistic. selftest_main buf1 (Some m) buf3 = Inr (statistic, [], driver4, 1)"
proof -
  obtain h where "driver1 buf1 = Inr h" using driver1_returns [of buf1] assms by auto
  moreover obtain m' statistic where "driver2 (Some m) = Inr (Some m', statistic)" using driver2_returns [of m] by blast
  moreover obtain buf' where "driver3 buf3 = Inr (buf', [])" using driver3_silent [OF assms(2)] by blast
  ultimately show "selftest_main buf1 None buf3 = Inl Indeterminate"
    and "\<exists>statistic. selftest_main buf1 (Some m) buf3 = Inr (statistic, [], driver4, 1)"
    by (simp_all add: selftest_main_def driver2_reads_unset)
qed

end
