(* ===== verification/Timer_Master.thy ===== *)
theory Timer_Master
  imports Tt_Prelude
begin

text \<open>
  \<open>src/core/TimerMaster.cpp\<close>, \<open>TimerMaster.hpp\<close>, \<open>Timer.hpp\<close>: a hierarchical timing
  wheel of four levels of 256 lists. A timer due in fewer than 256 ticks sits on level 0, in
  the list of its deadline modulo 256; a later one sits on a higher level and is moved down
  (\<open>CascadeTimers\<close>) when the wheel reaches the block of ticks that holds its deadline.
  The theory models every operation on the wheel, states the agenda (a multiset of pending
  deadlines) that the wheel has to implement, and proves the refinement.

  A \<open>Timer\<close> is reached through a weak pointer \<open>'t\<close>; its virtual functions read and change a
  world \<open>'w\<close> and are the fields of \<open>timer_api\<close>. A slot is on exactly one list, so lists hold
  the slots themselves.
\<close>

section \<open>Data\<close>

record ('t, 'w) timer_api =
  api_alive :: "'t \<Rightarrow> 'w \<Rightarrow> bool"      \<comment> \<open>\<open>!weak_timer.expired()\<close>\<close>
  api_period :: "'t \<Rightarrow> 'w \<Rightarrow> bool"     \<comment> \<open>\<open>Period()\<close>\<close>
  api_timeout :: "'t \<Rightarrow> 'w \<Rightarrow> int"     \<comment> \<open>\<open>Timeout()\<close>\<close>
  api_expired :: "'t \<Rightarrow> 'w \<Rightarrow> 'w"      \<comment> \<open>\<open>Expired()\<close>\<close>

record 't timer_slot =
  weak_timer :: 't
  jiffies :: int

record 't timer_master =
  timer_jiffies :: int
  vecs :: "nat \<times> nat \<Rightarrow> 't timer_slot list"
  mbStop :: bool

definition kTVBits :: nat where "kTVBits = 8"
definition kTVSize :: int where "kTVSize = push_bit kTVBits 1"
definition kTVMask :: int where "kTVMask = kTVSize - 1"

definition new_timer_master :: "'t timer_master" where
  "new_timer_master = \<lparr>timer_jiffies = 1, vecs = (\<lambda>_. []), mbStop = True\<rparr>"

section \<open>InternalAddTimer and Register\<close>

text \<open>
  The loop over the levels. The comparison \<open>idx < upper\<close> converts the \<open>int\<close> to
  \<open>uint64\<close>; \<open>None\<close> is the null \<open>v\<close>.
\<close>

fun add_scan :: "nat list \<Rightarrow> u64 \<Rightarrow> int \<Rightarrow> int \<Rightarrow> (nat \<times> nat) option" where
  "add_scan [] upper expires idx = None"
| "add_scan (i # is) upper expires idx =
     (let upper' = push_bit kTVBits upper
      in if of_int idx < upper' then Some (i, nat (expires AND kTVMask))
         else add_scan is upper' (drop_bit kTVBits expires) idx)"

definition internal_add_timer ::
    "'t \<Rightarrow> int \<Rightarrow> 't timer_master \<Rightarrow> 't timer_master outcome" where
  "internal_add_timer t d s =
     bind_outcome (i32 (d - timer_jiffies s)) (\<lambda>idx.
       case add_scan [0, 1, 2, 3] 1 d idx of
         None \<Rightarrow> Inl CheckFailed
       | Some p \<Rightarrow>
           Inr (s\<lparr>vecs := (vecs s)(p := vecs s p @ [\<lparr>weak_timer = t, jiffies = d\<rparr>])\<rparr>))"

definition tm_register ::
    "('t, 'w) timer_api \<Rightarrow> 't \<Rightarrow> 'w \<Rightarrow> 't timer_master \<Rightarrow> 't timer_master outcome" where
  "tm_register api t w s =
     (if \<not> api_alive api t w then Inr s
      else bind_outcome (i32 (api_timeout api t w + timer_jiffies s))
             (\<lambda>d. internal_add_timer t d s))"

section \<open>CascadeTimers\<close>

text \<open>
  The loop unlinks the first slot, adds it again, and goes on while the iterator, advanced
  before the unlinking, is not the end. \<open>n\<close> bounds the rounds; the caller gives the
  length of the list, and a list that is not empty after that fails the \<open>CHECK\<close>.
\<close>

fun cascade_loop ::
    "nat \<Rightarrow> nat \<times> nat \<Rightarrow> 't timer_master \<Rightarrow> 't timer_master outcome" where
  "cascade_loop 0 p s = Inr s"
| "cascade_loop (Suc n) p s =
     (case vecs s p of
        [] \<Rightarrow> Inr s
      | x # xs \<Rightarrow>
          bind_outcome
            (internal_add_timer (weak_timer x) (jiffies x) (s\<lparr>vecs := (vecs s)(p := xs)\<rparr>))
            (\<lambda>s'. if xs = [] then Inr s' else cascade_loop n p s'))"

definition cascade_timers ::
    "nat \<Rightarrow> int \<Rightarrow> 't timer_master \<Rightarrow> 't timer_master outcome" where
  "cascade_timers i index s =
     (let p = (i, nat index)
      in bind_outcome (cascade_loop (length (vecs s p)) p s)
           (\<lambda>s'. bind_outcome (check CheckFailed (vecs s' p = [])) (\<lambda>_. Inr s')))"

definition INDEX :: "nat \<Rightarrow> 't timer_master \<Rightarrow> int" where
  "INDEX n s = drop_bit (n * kTVBits) (timer_jiffies s) AND kTVMask"

section \<open>Update\<close>

definition cascade_all :: "'t timer_master \<Rightarrow> 't timer_master outcome" where
  "cascade_all s =
     (if timer_jiffies s AND kTVMask \<noteq> 0 then Inr s
      else bind_outcome (cascade_timers 1 (INDEX 1 s) s) (\<lambda>s1.
        if INDEX 1 s \<noteq> 0 then Inr s1
        else bind_outcome (cascade_timers 2 (INDEX 2 s1) s1) (\<lambda>s2.
          if INDEX 2 s1 \<noteq> 0 then Inr s2
          else cascade_timers 3 (INDEX 3 s2) s2)))"

definition expire_all :: "('t, 'w) timer_api \<Rightarrow> 't timer_slot list \<Rightarrow> 'w \<Rightarrow> 'w" where
  "expire_all api ts w = fold (\<lambda>x. api_expired api (weak_timer x)) ts w"

fun rearm ::
    "('t, 'w) timer_api \<Rightarrow> 'w \<Rightarrow> int \<Rightarrow> 't timer_slot list \<Rightarrow>
     't timer_master \<Rightarrow> 't timer_master outcome" where
  "rearm api w old [] s = Inr s"
| "rearm api w old (x # xs) s =
     (if api_period api (weak_timer x) w
      then bind_outcome (i32 (api_timeout api (weak_timer x) w + old)) (\<lambda>d.
             bind_outcome (internal_add_timer (weak_timer x) d s) (rearm api w old xs))
      else rearm api w old xs s)"

text \<open>One round of the loop of \<open>Update\<close>.\<close>

definition update_tick ::
    "('t, 'w) timer_api \<Rightarrow> 'w \<times> 't timer_master \<Rightarrow> ('w \<times> 't timer_master) outcome" where
  "update_tick api ws = (case ws of (w, s) \<Rightarrow>
     bind_outcome (cascade_all s) (\<lambda>s1.
       let p = (0, nat (timer_jiffies s AND kTVMask));
           timers = filter (\<lambda>x. api_alive api (weak_timer x) w) (vecs s1 p);
           s2 = s1\<lparr>vecs := (vecs s1)(p := [])\<rparr>;
           old = timer_jiffies s2
       in bind_outcome (i32 (timer_jiffies s2 + 1)) (\<lambda>next.
            let s3 = s2\<lparr>timer_jiffies := next\<rparr>;
                w' = expire_all api timers w
            in bind_outcome (rearm api w' old timers s3) (\<lambda>s4. Inr (w', s4)))))"

fun update_loop ::
    "nat \<Rightarrow> ('t, 'w) timer_api \<Rightarrow> int \<Rightarrow> 'w \<times> 't timer_master \<Rightarrow>
     ('w \<times> 't timer_master) outcome" where
  "update_loop 0 api j ws = Inr ws"
| "update_loop (Suc n) api j ws =
     bind_outcome (i32 (j - timer_jiffies (snd ws))) (\<lambda>diff.
       if 0 \<le> diff then bind_outcome (update_tick api ws) (update_loop n api j) else Inr ws)"

text \<open>
  Every round advances the clock by one, so \<open>j - timer_jiffies_ + 2\<close> evaluations of the
  guard end the loop (lemma \<open>update_loop_done\<close>).
\<close>

definition tm_update ::
    "('t, 'w) timer_api \<Rightarrow> int \<Rightarrow> 'w \<times> 't timer_master \<Rightarrow> ('w \<times> 't timer_master) outcome" where
  "tm_update api j ws =
     bind_outcome (check CheckFailed (timer_jiffies (snd ws) \<le> j)) (\<lambda>_.
       update_loop (nat (j - timer_jiffies (snd ws) + 2)) api j ws)"

section \<open>Start, Stop, the thread and the destructor\<close>

definition tm_start :: "'t timer_master \<Rightarrow> 't timer_master" where
  "tm_start s = (if \<not> mbStop s then s else s\<lparr>mbStop := False, timer_jiffies := 1\<rparr>)"

definition tm_stop :: "'t timer_master \<Rightarrow> 't timer_master" where
  "tm_stop s = (if mbStop s then s else s\<lparr>mbStop := True\<rparr>)"

definition tm_is_running :: "'t timer_master \<Rightarrow> bool" where
  "tm_is_running s \<longleftrightarrow> \<not> mbStop s"

text \<open>
  \<open>InternalRun\<close>: \<open>n\<close> rounds of the thread's loop, started with the local counter at
  \<open>k\<close>, while \<open>mbStop\<close> is false.
\<close>

fun internal_run ::
    "nat \<Rightarrow> int \<Rightarrow> ('t, 'w) timer_api \<Rightarrow> 'w \<times> 't timer_master \<Rightarrow>
     ('w \<times> 't timer_master) outcome" where
  "internal_run 0 k api ws = Inr ws"
| "internal_run (Suc n) k api ws =
     (if mbStop (snd ws) then Inr ws
      else bind_outcome (i32 (k + 1)) (\<lambda>k'.
             bind_outcome (tm_update api k' ws) (internal_run n k' api)))"

definition destroy_all_timers :: "'t timer_master \<Rightarrow> 't timer_master" where
  "destroy_all_timers s =
     s\<lparr>vecs := (\<lambda>(i, j). if i < 4 \<and> int j < kTVSize then [] else vecs s (i, j))\<rparr>"

definition delete_timer_master :: "'t timer_master \<Rightarrow> 't timer_master" where
  "delete_timer_master s = destroy_all_timers (if \<not> mbStop s then tm_stop s else s)"

section \<open>The wheel invariant\<close>

text \<open>The first block of \<open>256 ^ i\<close> ticks that level \<open>i\<close> has still to bring down.\<close>

definition boundary :: "int \<Rightarrow> nat \<Rightarrow> int" where
  "boundary n i = (n + (256 ^ i - 1)) div 256 ^ i"

definition slot_ok :: "int \<Rightarrow> nat \<times> nat \<Rightarrow> int \<Rightarrow> bool" where
  "slot_ok n p d \<longleftrightarrow>
     d \<le> INT_MAX \<and> d div 256 ^ fst p mod 256 = int (snd p) \<and>
     boundary n (fst p) \<le> d div 256 ^ fst p \<and> d div 256 ^ fst p < boundary n (fst p) + 256"

definition wheel_slots :: "(nat \<times> nat) set" where
  "wheel_slots = {..<4} \<times> {..<256}"

definition wheel_inv :: "'t timer_master \<Rightarrow> bool" where
  "wheel_inv s \<longleftrightarrow>
     1 \<le> timer_jiffies s \<and> timer_jiffies s \<le> INT_MAX \<and>
     (\<forall>p \<in> wheel_slots. \<forall>x \<in> set (vecs s p). slot_ok (timer_jiffies s) p (jiffies x))"

definition pending :: "'t timer_master \<Rightarrow> 't timer_slot multiset" where
  "pending s = (\<Sum>p \<in> wheel_slots. mset (vecs s p))"


section \<open>Arithmetic of the levels\<close>

lemma kTV_values: "kTVSize = 256" "kTVMask = 255" "kTVBits = 8"
  by (simp_all add: kTVSize_def kTVMask_def kTVBits_def)

lemma and_kTVMask: "x AND kTVMask = x mod 256"
proof -
  have "kTVMask = mask 8" by (simp add: kTV_values mask_eq_exp_minus_1)
  then have "x AND kTVMask = take_bit 8 x" by (simp only: take_bit_eq_mask)
  then show ?thesis by (simp add: take_bit_eq_mod)
qed

lemma INDEX_eq: "INDEX n s = timer_jiffies s div 256 ^ n mod 256"
proof -
  have "(2::int) ^ (n * 8) = 256 ^ n" by (subst mult.commute) (simp add: power_mult)
  then show ?thesis by (simp add: INDEX_def and_kTVMask kTV_values(3) drop_bit_eq_div)
qed

definition level_of :: "int \<Rightarrow> nat" where
  "level_of idx =
     (if idx < 256 then 0 else if idx < 256 ^ 2 then 1 else if idx < 256 ^ 3 then 2 else 3)"

lemma level_of_less [simp]: "level_of idx < 4"
  by (simp add: level_of_def)

lemma of_int_less_u64:
  assumes "0 \<le> idx" "idx \<le> INT_MAX" "0 \<le> u" "u < 2 ^ 64"
  shows "(of_int idx :: u64) < of_int u \<longleftrightarrow> idx < u"
proof -
  have "uint (of_int idx :: u64) = idx" "uint (of_int u :: u64) = u"
    using assms by (simp_all add: uint_word_of_int INT_MAX_def)
  then show ?thesis by (simp only: word_less_def)
qed

lemma add_scan_eq:
  assumes "0 \<le> idx" "idx \<le> INT_MAX"
  shows "add_scan [0, 1, 2, 3] 1 d idx =
           Some (level_of idx, nat (d div 256 ^ level_of idx mod 256))"
proof -
  have up: "push_bit 8 1 = (256 :: u64)" "push_bit 8 256 = (65536 :: u64)"
    "push_bit 8 65536 = (16777216 :: u64)" "push_bit 8 16777216 = (4294967296 :: u64)"
    by simp_all
  have less: "(of_int idx :: u64) < 256 \<longleftrightarrow> idx < 256"
    "(of_int idx :: u64) < 65536 \<longleftrightarrow> idx < 65536"
    "(of_int idx :: u64) < 16777216 \<longleftrightarrow> idx < 16777216"
    "(of_int idx :: u64) < 4294967296"
    using of_int_less_u64 [OF assms, of 256] of_int_less_u64 [OF assms, of 65536]
      of_int_less_u64 [OF assms, of 16777216] of_int_less_u64 [OF assms, of 4294967296] assms
    by (simp_all add: INT_MAX_def)
  have nest: "d div 65536 = d div 256 div 256" "d div 16777216 = d div 256 div 256 div 256"
    by (simp_all flip: zdiv_zmult2_eq)
  show ?thesis
    by (simp add: Let_def kTV_values(3) up less level_of_def and_kTVMask drop_bit_eq_div nest)
qed

lemma level_of_bounds:
  assumes "0 \<le> idx" "idx \<le> INT_MAX"
  shows "idx < 256 * 256 ^ level_of idx" "0 < level_of idx \<Longrightarrow> 256 ^ level_of idx \<le> idx"
  using assms by (auto simp: level_of_def INT_MAX_def split: if_splits)

lemma pow256_pos [simp]: "0 < (256 :: int) ^ k"
  by simp

text \<open>Rounding up to a multiple of the block size \<open>K\<close>, on and off the start of a block.\<close>

lemma div_eqI: "a = b * q + r \<Longrightarrow> 0 \<le> r \<Longrightarrow> r < b \<Longrightarrow> a div b = q" for a b q r :: int
  by (rule int_div_pos_eq)

lemma block_split:
  fixes n K :: int assumes "0 < K"
  obtains q r where "n = K * q + r" "0 \<le> r" "r < K" "n div K = q" "n mod K = r"
  using assms by (metis mult_div_mod_eq pos_mod_bound pos_mod_sign)

lemma up_div:
  fixes n K :: int assumes "0 < K"
  shows "K dvd n \<Longrightarrow> (n + (K - 1)) div K = n div K"
    and "\<not> K dvd n \<Longrightarrow> (n + (K - 1)) div K = n div K + 1"
    and "(n + 1 + (K - 1)) div K = n div K + 1"
proof -
  obtain q r where n: "n = K * q + r" "0 \<le> r" "r < K" "n div K = q" "n mod K = r"
    using block_split [OF assms] by metis
  show "K dvd n \<Longrightarrow> (n + (K - 1)) div K = n div K"
    using n by (intro div_eqI [where r = "K - 1"]) (auto simp: dvd_eq_mod_eq_0)
  show "\<not> K dvd n \<Longrightarrow> (n + (K - 1)) div K = n div K + 1"
    using n by (intro div_eqI [where r = "r - 1"]) (auto simp: dvd_eq_mod_eq_0 algebra_simps)
  show "(n + 1 + (K - 1)) div K = n div K + 1"
    using n by (intro div_eqI [where r = r]) (auto simp: algebra_simps)
qed

lemma boundary_simps:
  "256 ^ k dvd n \<Longrightarrow> boundary n k = n div 256 ^ k"
  "\<not> 256 ^ k dvd n \<Longrightarrow> boundary n k = n div 256 ^ k + 1"
  "boundary (n + 1) k = n div 256 ^ k + 1"
  unfolding boundary_def using up_div [of "256 ^ k" n] by simp_all

lemma block_le:
  fixes n d K :: int assumes "0 < K" "(n + (K - 1)) div K \<le> d div K"
  shows "n \<le> d"
proof -
  obtain q r where d: "d = K * q + r" "0 \<le> r" "r < K" "d div K = q"
    using block_split [OF assms(1)] by metis
  obtain q' r' where n: "n + (K - 1) = K * q' + r'" "0 \<le> r'" "r' < K" "(n + (K - 1)) div K = q'"
    using block_split [OF assms(1)] by metis
  have "K * q' \<le> K * q" using assms d n by (intro mult_left_mono) auto
  with d n show ?thesis by linarith
qed

lemma slot_ok_ge: "slot_ok n p d \<Longrightarrow> n \<le> d"
  unfolding slot_ok_def boundary_def by (elim conjE) (rule block_le [OF pow256_pos])

lemma mod256_eq:
  fixes x q :: int
  assumes "q \<le> x" "x < q + 256" "x mod 256 = q mod 256"
  shows "x = q"
proof -
  have "256 dvd x - q" using assms(3) by (simp add: mod_eq_dvd_iff)
  then show ?thesis using assms zdvd_imp_le [of 256 "x - q"] by force
qed

text \<open>Where \<open>InternalAddTimer\<close> puts a deadline that is not past.\<close>

definition place :: "int \<Rightarrow> int \<Rightarrow> nat \<times> nat" where
  "place n d = (level_of (d - n), nat (d div 256 ^ level_of (d - n) mod 256))"

lemma place_in_wheel [simp]: "place n d \<in> wheel_slots"
  by (simp add: place_def wheel_slots_def nat_less_iff)

lemma place_slot_ok:
  assumes "1 \<le> n" "n \<le> d" "d \<le> INT_MAX"
  shows "slot_ok n (place n d) d"
proof -
  define l where "l = level_of (d - n)"
  define K :: int where "K = 256 ^ l"
  have K: "0 < K" by (simp add: K_def)
  have up: "d - n < 256 * K" and lo: "0 < l \<Longrightarrow> K \<le> d - n"
    using level_of_bounds [of "d - n"] assms by (auto simp: K_def l_def)
  have "n + (K - 1) \<le> d" using lo assms by (cases "l = 0") (auto simp: K_def)
  then have low: "(n + (K - 1)) div K \<le> d div K" using K by (rule zdiv_mono1)
  have "d \<le> (n + (K - 1)) + 255 * K" using up by simp
  then have "d div K \<le> ((n + (K - 1)) + 255 * K) div K" using K by (rule zdiv_mono1)
  also have "\<dots> = 255 + (n + (K - 1)) div K" using K by (intro div_mult_self1) simp
  finally have high: "d div K < (n + (K - 1)) div K + 256" by simp
  from low high assms(3) show ?thesis
    by (simp add: slot_ok_def place_def boundary_def flip: l_def K_def)
qed

lemma place_not_current:
  assumes "n \<le> d" "d \<le> INT_MAX" "1 \<le> n" "1 \<le> k" "256 ^ k dvd n"
  shows "place n d \<noteq> (k, nat (n div 256 ^ k mod 256))"
proof
  assume eq: "place n d = (k, nat (n div 256 ^ k mod 256))"
  define K :: int where "K = 256 ^ k"
  have K: "0 < K" by (simp add: K_def)
  from eq have k: "level_of (d - n) = k" by (simp add: place_def)
  then have up: "d - n < 256 * K" and lo: "K \<le> d - n"
    using level_of_bounds [of "d - n"] assms by (auto simp: K_def)
  obtain q where q: "n = K * q" using assms(5) unfolding K_def by (elim dvdE)
  obtain e r where e: "d - n = K * e + r" "0 \<le> r" "r < K" "(d - n) div K = e"
    using block_split [OF K] by metis
  have "K * 1 < K * (e + 1)" "K * e < K * 256"
    using e(1-3) up lo by (simp_all only: distrib_left mult_1_right)
  then have "1 < e + 1" "e < 256" using K by (simp_all only: mult_less_cancel_left_pos)
  moreover have "d div K = q + e"
    using e q by (intro div_eqI [where r = r]) (auto simp: algebra_simps)
  moreover have "n div K = q" using q K by simp
  moreover have "d div K mod 256 = n div K mod 256"
    using eq k by (simp add: place_def K_def eq_nat_nat_iff)
  ultimately have "q + e = q" using mod256_eq [of q "q + e"] by simp
  with \<open>1 < e + 1\<close> show False by simp
qed

lemma current_due:
  assumes "slot_ok n (k, nat (n div 256 ^ k mod 256)) d" "256 ^ k dvd n"
  shows "n \<le> d" "d < n + 256 ^ k"
proof -
  define K :: int where "K = 256 ^ k"
  have K: "0 < K" by (simp add: K_def)
  obtain q where q: "n = K * q" using assms(2) unfolding K_def by (elim dvdE)
  have "n div K = q" using q K by simp
  then have "q \<le> d div K" "d div K < q + 256" "d div K mod 256 = q mod 256"
    using assms by (auto simp: slot_ok_def boundary_simps simp flip: K_def)
  then have "d div K = q" by (rule mod256_eq)
  then obtain r where "d = K * q + r" "0 \<le> r" "r < K"
    using block_split [OF K, of d] by metis
  then show "n \<le> d" "d < n + 256 ^ k"
    using q by (simp_all flip: K_def)
qed

lemma slot_ok_advance:
  assumes "slot_ok n (k, j) d" "\<not> (256 ^ k dvd n \<and> j = nat (n div 256 ^ k mod 256))"
  shows "slot_ok (n + 1) (k, j) d"
proof (cases "256 ^ k dvd n")
  case True
  then have "int j \<noteq> n div 256 ^ k mod 256" using assms by auto
  then have "n div 256 ^ k \<noteq> d div 256 ^ k" using assms by (auto simp: slot_ok_def)
  with True assms show ?thesis by (auto simp: slot_ok_def boundary_simps)
next
  case False
  with assms show ?thesis by (simp add: slot_ok_def boundary_simps)
qed

section \<open>Adding a slot\<close>

lemma finite_wheel_slots [simp]: "finite wheel_slots"
  by (simp add: wheel_slots_def)

lemma pending_upd:
  assumes "p \<in> wheel_slots"
  shows "pending (s\<lparr>vecs := (vecs s)(p := l)\<rparr>) + mset (vecs s p) = pending s + mset l"
proof -
  have "pending (s\<lparr>vecs := (vecs s)(p := l)\<rparr>) =
      (\<Sum>q\<in>wheel_slots. ((\<lambda>q. mset (vecs s q))(p := mset l)) q)"
    unfolding pending_def by (rule sum.cong) auto
  with sum_fun_upd_mset [OF finite_wheel_slots assms, of "\<lambda>q. mset (vecs s q)" "mset l"]
  show ?thesis by (simp only: pending_def)
qed

lemma slot_eta [simp]: "\<lparr>weak_timer = weak_timer x, jiffies = jiffies x\<rparr> = x"
  by (cases x) simp

lemma pending_clock [simp]: "pending (s\<lparr>timer_jiffies := n\<rparr>) = pending s"
  "pending (s\<lparr>mbStop := b\<rparr>) = pending s"
  by (simp_all add: pending_def)

definition put_slot :: "'t \<Rightarrow> int \<Rightarrow> 't timer_master \<Rightarrow> 't timer_master" where
  "put_slot t d s =
     (let p = place (timer_jiffies s) d
      in s\<lparr>vecs := (vecs s)(p := vecs s p @ [\<lparr>weak_timer = t, jiffies = d\<rparr>])\<rparr>)"

lemma put_slot_frame [simp]:
  "timer_jiffies (put_slot t d s) = timer_jiffies s" "mbStop (put_slot t d s) = mbStop s"
  by (simp_all add: put_slot_def Let_def)

lemma pending_put_slot [simp]:
  "pending (put_slot t d s) = add_mset \<lparr>weak_timer = t, jiffies = d\<rparr> (pending s)"
  using pending_upd [of "place (timer_jiffies s) d" s
      "vecs s (place (timer_jiffies s) d) @ [\<lparr>weak_timer = t, jiffies = d\<rparr>]"]
  by (simp add: put_slot_def Let_def)

lemma put_slot_empty:
  "vecs s q = [] \<Longrightarrow> place (timer_jiffies s) d \<noteq> q \<Longrightarrow> vecs (put_slot t d s) q = []"
  by (simp add: put_slot_def Let_def)

lemma wheel_invD:
  assumes "wheel_inv s"
  shows "1 \<le> timer_jiffies s" "timer_jiffies s \<le> INT_MAX"
    "p \<in> wheel_slots \<Longrightarrow> x \<in> set (vecs s p) \<Longrightarrow> slot_ok (timer_jiffies s) p (jiffies x)"
  using assms by (auto simp: wheel_inv_def)

lemma wheel_inv_put_slot:
  assumes "wheel_inv s" "timer_jiffies s \<le> d" "d \<le> INT_MAX"
  shows "wheel_inv (put_slot t d s)"
  using assms place_slot_ok [of "timer_jiffies s" d]
  by (auto simp: wheel_inv_def put_slot_def Let_def)

lemma internal_add_timer_any:
  assumes "1 \<le> timer_jiffies s" "timer_jiffies s \<le> d" "d \<le> INT_MAX"
  shows "internal_add_timer t d s = Inr (put_slot t d s)"
proof -
  have idx: "0 \<le> d - timer_jiffies s" "d - timer_jiffies s \<le> INT_MAX"
    using assms by auto
  then have "in_i32 (d - timer_jiffies s)" by (simp add: int_range_defs)
  then show ?thesis
    by (simp add: internal_add_timer_def add_scan_eq [OF idx] put_slot_def place_def Let_def
        del: add_scan.simps One_nat_def)
qed

lemma internal_add_timer_ok:
  assumes "wheel_inv s" "timer_jiffies s \<le> d" "d \<le> INT_MAX"
  shows "internal_add_timer t d s = Inr (put_slot t d s)"
  using wheel_invD(1) [OF assms(1)] assms(2,3) by (rule internal_add_timer_any)

text \<open>
  A deadline before the clock becomes a huge unsigned number in the comparison, so no level
  takes it and the \<open>CHECK\<close> stops the process.
\<close>

lemma internal_add_timer_past:
  assumes "1 \<le> timer_jiffies s" "timer_jiffies s \<le> INT_MAX" "0 \<le> d" "d < timer_jiffies s"
  shows "internal_add_timer t d s = Inl CheckFailed"
proof -
  define i where "i = d - timer_jiffies s"
  have r: "- INT_MAX \<le> i" "i < 0" using assms by (auto simp: i_def INT_MAX_def)
  have "uint (of_int i :: u64) = (i + 2 ^ 64) mod 2 ^ 64" by (simp add: uint_word_of_int)
  also have "\<dots> = i + 2 ^ 64" using r by (intro mod_pos_pos_trivial) (auto simp: INT_MAX_def)
  finally have u: "uint (of_int i :: u64) = i + 2 ^ 64" .
  have big: "\<not> (of_int i :: u64) < 256" "\<not> (of_int i :: u64) < 65536"
    "\<not> (of_int i :: u64) < 16777216" "\<not> (of_int i :: u64) < 4294967296"
    using r u by (simp_all add: word_less_def INT_MAX_def)
  have up: "push_bit 8 1 = (256 :: u64)" "push_bit 8 256 = (65536 :: u64)"
    "push_bit 8 65536 = (16777216 :: u64)" "push_bit 8 16777216 = (4294967296 :: u64)"
    by simp_all
  have "in_i32 i" using r by (simp add: int_range_defs)
  then show ?thesis
    by (simp add: internal_add_timer_def Let_def kTV_values(3) up big flip: i_def)
qed

section \<open>Cascading\<close>

text \<open>The list of level \<open>k\<close> that the clock points at.\<close>

definition current :: "int \<Rightarrow> nat \<Rightarrow> nat \<times> nat" where
  "current n k = (k, nat (n div 256 ^ k mod 256))"

lemma current_in_wheel [simp]: "k < 4 \<Longrightarrow> current n k \<in> wheel_slots"
  by (simp add: current_def wheel_slots_def nat_less_iff)

definition keeps :: "'t timer_master \<Rightarrow> 't timer_master \<Rightarrow> bool" where
  "keeps s s' \<longleftrightarrow>
     wheel_inv s' \<and> pending s' = pending s \<and>
     timer_jiffies s' = timer_jiffies s \<and> mbStop s' = mbStop s \<and>
     (\<forall>k. 1 \<le> k \<longrightarrow> 256 ^ k dvd timer_jiffies s \<longrightarrow>
        vecs s (current (timer_jiffies s) k) = [] \<longrightarrow>
        vecs s' (current (timer_jiffies s) k) = [])"

lemma keeps_refl: "wheel_inv s \<Longrightarrow> keeps s s"
  by (simp add: keeps_def)

lemma keeps_trans: "keeps s s' \<Longrightarrow> keeps s' s'' \<Longrightarrow> keeps s s''"
  by (simp add: keeps_def)

text \<open>Moving the first slot of the current list of level \<open>k\<close> to its new place.\<close>

lemma move_slot:
  assumes inv: "wheel_inv s" and k: "1 \<le> k" "k < 4" and dvd: "256 ^ k dvd timer_jiffies s"
    and l: "vecs s (current (timer_jiffies s) k) = x # xs"
  defines "s0 \<equiv> s\<lparr>vecs := (vecs s)(current (timer_jiffies s) k := xs)\<rparr>"
  shows "internal_add_timer (weak_timer x) (jiffies x) s0 =
           Inr (put_slot (weak_timer x) (jiffies x) s0)"
    and "keeps s (put_slot (weak_timer x) (jiffies x) s0)"
    and "vecs (put_slot (weak_timer x) (jiffies x) s0) (current (timer_jiffies s) k) = xs"
proof -
  let ?n = "timer_jiffies s"
  let ?p = "current ?n k"
  have ok: "slot_ok ?n ?p (jiffies x)"
    using wheel_invD(3) [OF inv, of ?p x] k l by simp
  then have due: "?n \<le> jiffies x" "jiffies x \<le> INT_MAX"
    using current_due(1) [of ?n k "jiffies x"] dvd by (auto simp: current_def slot_ok_def)
  have inv0: "wheel_inv s0"
    using inv l by (auto simp: wheel_inv_def s0_def)
  have n0: "timer_jiffies s0 = ?n" by (simp add: s0_def)
  show "internal_add_timer (weak_timer x) (jiffies x) s0 =
          Inr (put_slot (weak_timer x) (jiffies x) s0)"
    using internal_add_timer_ok [OF inv0] due n0 by simp
  have other: "place ?n (jiffies x) \<noteq> current ?n j" if "1 \<le> j" "256 ^ j dvd ?n" for j
    using place_not_current [of ?n "jiffies x" j] due that wheel_invD(1) [OF inv]
    by (simp add: current_def)
  have "pending s0 + mset (x # xs) = pending s + mset xs"
    using pending_upd [of ?p s xs] k l by (simp add: s0_def)
  moreover have "vecs s0 q = []" if "vecs s q = []" for q
    using that l by (auto simp: s0_def)
  ultimately show "keeps s (put_slot (weak_timer x) (jiffies x) s0)"
    using wheel_inv_put_slot [OF inv0, of "jiffies x" "weak_timer x"] due n0 other
    by (auto simp: keeps_def s0_def l intro!: put_slot_empty)
  show "vecs (put_slot (weak_timer x) (jiffies x) s0) ?p = xs"
    using other [OF k(1) dvd] by (simp add: put_slot_def Let_def s0_def)
qed

lemma cascade_loop_ok:
  assumes "wheel_inv s" "1 \<le> k" "k < 4" "256 ^ k dvd timer_jiffies s"
    and "length (vecs s (current (timer_jiffies s) k)) \<le> m"
  shows "\<exists>s'. cascade_loop m (current (timer_jiffies s) k) s = Inr s' \<and> keeps s s' \<and>
              vecs s' (current (timer_jiffies s) k) = []"
  using assms
proof (induction m arbitrary: s)
  case 0
  then show ?case by (auto intro: keeps_refl)
next
  case (Suc m)
  let ?p = "current (timer_jiffies s) k"
  show ?case
  proof (cases "vecs s ?p")
    case Nil
    then show ?thesis using Suc.prems by (auto intro: keeps_refl)
  next
    case (Cons x xs)
    let ?s1 = "put_slot (weak_timer x) (jiffies x) (s\<lparr>vecs := (vecs s)(?p := xs)\<rparr>)"
    note mv = move_slot [OF Suc.prems(1-4) Cons]
    have n1: "timer_jiffies ?s1 = timer_jiffies s" by simp
    show ?thesis
    proof (cases "xs = []")
      case True
      then show ?thesis using Cons mv by simp
    next
      case False
      have "\<exists>s'. cascade_loop m ?p ?s1 = Inr s' \<and> keeps ?s1 s' \<and> vecs s' ?p = []"
        using Suc.IH [of ?s1] Suc.prems mv Cons by (auto simp: keeps_def)
      then show ?thesis using False Cons mv keeps_trans by auto
    qed
  qed
qed

lemma cascade_timers_ok:
  assumes "wheel_inv s" "1 \<le> k" "k < 4" "256 ^ k dvd timer_jiffies s"
  shows "\<exists>s'. cascade_timers k (INDEX k s) s = Inr s' \<and> keeps s s' \<and>
              vecs s' (current (timer_jiffies s) k) = []"
  using cascade_loop_ok [OF assms order_refl]
  by (auto simp: cascade_timers_def Let_def INDEX_eq current_def)

text \<open>After the cascade no list the clock points at, above level 0, holds a slot.\<close>

lemma dvd_256_step:
  "256 ^ k dvd n \<Longrightarrow> n div 256 ^ k mod 256 = 0 \<longleftrightarrow> 256 ^ Suc k dvd n" for n :: int
  by (auto elim!: dvdE simp: mod_eq_0_iff_dvd)

lemma dvd_256_mono: "256 ^ Suc k dvd n \<Longrightarrow> 256 ^ k dvd n" for n :: int
  by (metis dvd_mult_right power_Suc)

definition cascaded :: "'t timer_master \<Rightarrow> bool" where
  "cascaded s \<longleftrightarrow>
     (\<forall>k. 1 \<le> k \<longrightarrow> k < 4 \<longrightarrow> 256 ^ k dvd timer_jiffies s \<longrightarrow>
        vecs s (current (timer_jiffies s) k) = [])"

lemma cascadedI:
  assumes "\<And>k. k \<in> {1, 2, 3} \<Longrightarrow> 256 ^ k dvd timer_jiffies s \<Longrightarrow>
    vecs s (current (timer_jiffies s) k) = []"
  shows "cascaded s"
proof (unfold cascaded_def, intro allI impI)
  fix k :: nat
  assume "1 \<le> k" "k < 4" "256 ^ k dvd timer_jiffies s"
  moreover from this(1,2) have "k \<in> {1, 2, 3}" by auto
  ultimately show "vecs s (current (timer_jiffies s) k) = []" using assms by blast
qed

lemma keepsD:
  assumes "keeps s s'"
  shows "wheel_inv s'" "pending s' = pending s" "timer_jiffies s' = timer_jiffies s"
    "mbStop s' = mbStop s"
    "1 \<le> k \<Longrightarrow> 256 ^ k dvd timer_jiffies s \<Longrightarrow> vecs s (current (timer_jiffies s) k) = [] \<Longrightarrow>
      vecs s' (current (timer_jiffies s) k) = []"
  using assms by (auto simp: keeps_def)

lemma cascade_all_ok:
  assumes inv: "wheel_inv s"
  shows "\<exists>s'. cascade_all s = Inr s' \<and> keeps s s' \<and> cascaded s'"
proof -
  let ?n = "timer_jiffies s"
  have dvd: "INDEX k t = 0 \<longleftrightarrow> 256 ^ Suc k dvd ?n"
    if "256 ^ k dvd ?n" "timer_jiffies t = ?n" for k and t :: "'a timer_master"
    using that by (simp add: INDEX_eq dvd_256_step)
  have n0: "?n AND kTVMask = 0 \<longleftrightarrow> 256 ^ 1 dvd ?n"
    by (simp add: and_kTVMask mod_eq_0_iff_dvd)
  show ?thesis
  proof (cases "256 ^ 1 dvd ?n")
    case False
    then have "\<not> 256 ^ 2 dvd ?n" "\<not> 256 ^ 3 dvd ?n"
      using dvd_256_mono [of 1 ?n] dvd_256_mono [of 2 ?n] by (auto simp: numeral_eq_Suc)
    then have "cascaded s" using False by (intro cascadedI) auto
    then show ?thesis using False n0 inv by (auto simp: cascade_all_def keeps_refl)
  next
    case d1: True
    obtain s1 where s1: "cascade_timers 1 (INDEX 1 s) s = Inr s1" "keeps s s1"
      "vecs s1 (current ?n 1) = []"
      using cascade_timers_ok [OF inv, of 1] d1 by auto
    note k1 = keepsD [OF s1(2)]
    show ?thesis
    proof (cases "256 ^ 2 dvd ?n")
      case False
      then have "\<not> 256 ^ 3 dvd ?n" using dvd_256_mono [of 2 ?n] by (auto simp: numeral_eq_Suc)
      then have "cascaded s1" using False s1 k1 by (intro cascadedI) auto
      moreover have "INDEX 1 s \<noteq> 0" using False dvd [OF d1] by (simp add: numeral_eq_Suc)
      ultimately show ?thesis using n0 d1 s1 by (auto simp: cascade_all_def)
    next
      case d2: True
      then have i1: "INDEX 1 s = 0" using dvd [OF d1] by (simp add: numeral_eq_Suc)
      obtain s2 where s2: "cascade_timers 2 (INDEX 2 s1) s1 = Inr s2" "keeps s1 s2"
        "vecs s2 (current ?n 2) = []"
        using cascade_timers_ok [OF k1(1), of 2] d2 k1(3) by auto
      note k2 = keepsD [OF s2(2)]
      have e1: "vecs s2 (current ?n 1) = []" using k2(5) [of 1] d1 k1(3) s1(3) by simp
      have i2: "INDEX 2 s1 = 0 \<longleftrightarrow> 256 ^ 3 dvd ?n"
        using dvd [OF d2 k1(3)] by (simp add: numeral_eq_Suc)
      show ?thesis
      proof (cases "256 ^ 3 dvd ?n")
        case False
        then have "cascaded s2" using s2 k2 k1 e1 by (intro cascadedI) auto
        then show ?thesis
          using n0 d1 s1 i1 s2 i2 False keeps_trans [OF s1(2) s2(2)]
          by (auto simp: cascade_all_def)
      next
        case d3: True
        obtain s3 where s3: "cascade_timers 3 (INDEX 3 s2) s2 = Inr s3" "keeps s2 s3"
          "vecs s3 (current ?n 3) = []"
          using cascade_timers_ok [OF k2(1), of 3] d3 k1(3) k2(3) by auto
        note k3 = keepsD [OF s3(2)]
        have "vecs s3 (current ?n 1) = []" "vecs s3 (current ?n 2) = []"
          using k3(5) [of 1] k3(5) [of 2] d1 d2 k1(3) k2(3) e1 s2(3) by simp_all
        then have "cascaded s3" using s3(3) k1(3) k2(3) k3(3) by (intro cascadedI) auto
        then show ?thesis
          using n0 d1 s1 i1 s2 i2 d3 s3 keeps_trans [OF keeps_trans [OF s1(2) s2(2)] s3(2)]
          by (auto simp: cascade_all_def)
      qed
    qed
  qed
qed

section \<open>One tick\<close>

text \<open>
  Taking the list of level 0 off a cascaded wheel and advancing the clock keeps the
  invariant; the list holds exactly the slots that are due now.
\<close>

definition take_due :: "'t timer_master \<Rightarrow> 't timer_master" where
  "take_due s = s\<lparr>vecs := (vecs s)(current (timer_jiffies s) 0 := []),
                   timer_jiffies := timer_jiffies s + 1\<rparr>"

lemma current_0: "current n 0 = (0, nat (n AND kTVMask))"
  by (simp add: current_def and_kTVMask)

lemma take_due_ok:
  assumes inv: "wheel_inv s" and casc: "cascaded s" and n: "timer_jiffies s < INT_MAX"
  shows "wheel_inv (take_due s)"
    and "pending s = mset (vecs s (current (timer_jiffies s) 0)) + pending (take_due s)"
    and "\<And>x. x \<in> set (vecs s (current (timer_jiffies s) 0)) \<Longrightarrow> jiffies x = timer_jiffies s"
proof -
  let ?n = "timer_jiffies s"
  show "wheel_inv (take_due s)"
  proof (unfold wheel_inv_def, intro conjI ballI)
    fix p x
    assume p: "p \<in> wheel_slots" and "x \<in> set (vecs (take_due s) p)"
    then have x: "x \<in> set (vecs s p)" "p \<noteq> current ?n 0"
      by (auto simp: take_due_def split: if_splits)
    obtain k j where kj: "p = (k, j)" by (cases p)
    have "\<not> (256 ^ k dvd ?n \<and> j = nat (?n div 256 ^ k mod 256))"
    proof
      assume c: "256 ^ k dvd ?n \<and> j = nat (?n div 256 ^ k mod 256)"
      then have "p = current ?n k" by (simp add: current_def kj)
      moreover from this x(2) have "1 \<le> k" by (cases k) auto
      moreover have "k < 4" using p kj by (simp add: wheel_slots_def)
      ultimately show False using c casc x(1) by (auto simp: cascaded_def)
    qed
    then show "slot_ok (timer_jiffies (take_due s)) p (jiffies x)"
      using slot_ok_advance [of ?n k j] wheel_invD(3) [OF inv p x(1)]
      by (simp add: take_due_def kj)
  qed (use wheel_invD [OF inv] n in \<open>auto simp: take_due_def\<close>)
  show "pending s = mset (vecs s (current ?n 0)) + pending (take_due s)"
    using pending_upd [of "current ?n 0" s "[]"] by (simp add: take_due_def add.commute)
  fix x
  assume "x \<in> set (vecs s (current ?n 0))"
  then have "slot_ok ?n (0, nat (?n div 256 ^ 0 mod 256)) (jiffies x)"
    using wheel_invD(3) [OF inv current_in_wheel [of 0 ?n], of x] by (simp add: current_def)
  from current_due [OF this] show "jiffies x = ?n" by simp
qed

lemma pending_future:
  assumes "wheel_inv s" "x \<in># pending s"
  shows "timer_jiffies s \<le> jiffies x" "jiffies x \<le> INT_MAX"
proof -
  have "set_mset (pending s) = (\<Union>p\<in>wheel_slots. set (vecs s p))"
    by (simp add: pending_def set_mset_sum)
  with assms(2) have "x \<in> (\<Union>p\<in>wheel_slots. set (vecs s p))" by simp
  then obtain p where p: "p \<in> wheel_slots" "x \<in> set (vecs s p)" by (rule UN_E)
  have "slot_ok (timer_jiffies s) p (jiffies x)" by (rule wheel_invD(3) [OF assms(1) p])
  then show "timer_jiffies s \<le> jiffies x" "jiffies x \<le> INT_MAX"
    by (simp_all add: slot_ok_ge) (simp add: slot_ok_def)
qed

section \<open>The agenda\<close>

text \<open>
  What the wheel has to implement: a clock and a multiset of deadlines. A tick fires, in some
  order, the live timers due at the clock, forgets the dead ones, and arms again those that
  are periodic after the callbacks.
\<close>

definition due :: "int \<Rightarrow> 't timer_slot multiset \<Rightarrow> 't timer_slot multiset" where
  "due n P = {#x \<in># P. jiffies x = n#}"

definition rearmed ::
    "('t, 'w) timer_api \<Rightarrow> 'w \<Rightarrow> int \<Rightarrow> 't timer_slot list \<Rightarrow> 't timer_slot list" where
  "rearmed api w n ts =
     map (\<lambda>x. \<lparr>weak_timer = weak_timer x, jiffies = api_timeout api (weak_timer x) w + n\<rparr>)
       (filter (\<lambda>x. api_period api (weak_timer x) w) ts)"

inductive agenda_tick ::
    "('t, 'w) timer_api \<Rightarrow> 'w \<times> int \<times> 't timer_slot multiset \<Rightarrow>
     'w \<times> int \<times> 't timer_slot multiset \<Rightarrow> bool"
  for api where
  agenda_tick:
    "mset ts = {#x \<in># due n P. api_alive api (weak_timer x) w#} \<Longrightarrow>
     w' = expire_all api ts w \<Longrightarrow>
     agenda_tick api (w, n, P)
       (w', n + 1, {#x \<in># P. jiffies x \<noteq> n#} + mset (rearmed api w' n ts))"

inductive_cases agenda_tickE: "agenda_tick api (w, n, P) c"

text \<open>
  What the wheel asks of the timers: a periodic timer waits at least one tick, and no
  deadline passes the largest \<open>int\<close>.
\<close>

definition timeouts_fit :: "('t, 'w) timer_api \<Rightarrow> int \<Rightarrow> bool" where
  "timeouts_fit api n \<longleftrightarrow>
     (\<forall>t w. api_period api t w \<longrightarrow> 1 \<le> api_timeout api t w \<and> api_timeout api t w + n \<le> INT_MAX)"

definition agenda_view :: "'w \<times> 't timer_master \<Rightarrow> 'w \<times> int \<times> 't timer_slot multiset" where
  "agenda_view ws = (fst ws, timer_jiffies (snd ws), pending (snd ws))"

lemma rearm_ok:
  assumes "wheel_inv s" "timeouts_fit api old" "0 \<le> old" "timer_jiffies s = old + 1"
  shows "\<exists>s'. rearm api w old ts s = Inr s' \<and> wheel_inv s' \<and>
              timer_jiffies s' = timer_jiffies s \<and> mbStop s' = mbStop s \<and>
              pending s' = pending s + mset (rearmed api w old ts)"
  using assms(1,4)
proof (induction ts arbitrary: s)
  case Nil
  then show ?case by (simp add: rearmed_def)
next
  case (Cons x xs)
  show ?case
  proof (cases "api_period api (weak_timer x) w")
    case True
    let ?d = "api_timeout api (weak_timer x) w + old"
    have d: "old + 1 \<le> ?d" "?d \<le> INT_MAX"
      using assms(2) True by (auto simp: timeouts_fit_def)
    then have "in_i32 ?d" using assms(3) by (simp add: int_range_defs)
    moreover have "internal_add_timer (weak_timer x) ?d s = Inr (put_slot (weak_timer x) ?d s)"
      using internal_add_timer_ok [OF Cons.prems(1)] d Cons.prems(2) by simp
    moreover have "wheel_inv (put_slot (weak_timer x) ?d s)"
      using wheel_inv_put_slot [OF Cons.prems(1)] d Cons.prems(2) by simp
    ultimately show ?thesis
      using True Cons.IH [of "put_slot (weak_timer x) ?d s"] Cons.prems(2)
      by (auto simp: rearmed_def)
  next
    case False
    then show ?thesis using Cons by (simp add: rearmed_def)
  qed
qed

lemma filter_due_split:
  assumes "P = mset l + Q" "\<And>x. x \<in> set l \<Longrightarrow> jiffies x = n" "\<And>x. x \<in># Q \<Longrightarrow> n < jiffies x"
  shows "due n P = mset l" "{#x \<in># P. jiffies x \<noteq> n#} = Q"
proof -
  have l: "filter_mset (\<lambda>x. jiffies x = n) (mset l) = mset l"
    "filter_mset (\<lambda>x. jiffies x \<noteq> n) (mset l) = {#}"
    using assms(2) by (auto intro: filter_mset_cong simp: filter_mset_eq_conv)
  have q: "filter_mset (\<lambda>x. jiffies x = n) Q = {#}" "filter_mset (\<lambda>x. jiffies x \<noteq> n) Q = Q"
    using assms(3) by (force simp: filter_mset_eq_conv)+
  show "due n P = mset l" "{#x \<in># P. jiffies x \<noteq> n#} = Q"
    by (simp_all add: due_def assms(1) l q)
qed

text \<open>
  C10. One round of the loop in \<open>TimerMaster::Update\<close> implements one tick of the agenda: on
  a well-formed wheel whose clock can still advance it never trips a \<open>CHECK\<close>, it fires
  exactly the live timers whose deadline is the current tick, arms the periodic ones again
  at their timeout after that tick, keeps every other deadline, moves the clock by one and
  keeps the wheel well-formed.
\<close>

theorem update_tick_refines:
  assumes inv: "wheel_inv s" and n: "timer_jiffies s < INT_MAX"
    and fit: "timeouts_fit api (timer_jiffies s)"
  shows "\<exists>w' s'. update_tick api (w, s) = Inr (w', s') \<and> wheel_inv s' \<and>
           agenda_tick api (agenda_view (w, s)) (agenda_view (w', s')) \<and>
           timer_jiffies s' = timer_jiffies s + 1 \<and> mbStop s' = mbStop s"
proof -
  let ?n = "timer_jiffies s"
  obtain s1 where s1: "cascade_all s = Inr s1" "keeps s s1" "cascaded s1"
    using cascade_all_ok [OF inv] by blast
  note k = keepsD [OF s1(2)]
  have n1: "timer_jiffies s1 < INT_MAX" using n k(3) by simp
  note td = take_due_ok [OF k(1) s1(3) n1]
  let ?l = "vecs s1 (current ?n 0)"
  let ?ts = "filter (\<lambda>x. api_alive api (weak_timer x) w) ?l"
  let ?w' = "expire_all api ?ts w"
  have pend: "pending s = mset ?l + pending (take_due s1)" using td(2) k by simp
  have "n < jiffies x" if "x \<in># pending (take_due s1)" "n = ?n" for x n
    using pending_future(1) [OF td(1) that(1)] that(2) k(3) by (simp add: take_due_def)
  then have split: "due ?n (pending s) = mset ?l"
    "{#x \<in># pending s. jiffies x \<noteq> ?n#} = pending (take_due s1)"
    using filter_due_split [OF pend, of ?n] td(3) k(3) by auto
  obtain s4 where s4: "rearm api ?w' ?n ?ts (take_due s1) = Inr s4" "wheel_inv s4"
    "timer_jiffies s4 = ?n + 1" "mbStop s4 = mbStop s"
    "pending s4 = pending (take_due s1) + mset (rearmed api ?w' ?n ?ts)"
    using rearm_ok [OF td(1) fit, of ?w' ?ts] wheel_invD(1) [OF inv] k by (auto simp: take_due_def)
  have "in_i32 (?n + 1)" using n wheel_invD(1) [OF inv] by (simp add: int_range_defs)
  then have "update_tick api (w, s) = Inr (?w', s4)"
    using s1(1) s4(1) k(3) by (simp add: update_tick_def Let_def take_due_def current_0)
  moreover have "agenda_tick api (w, ?n, pending s) (?w', ?n + 1, pending s4)"
    unfolding s4(5) split(2) [symmetric]
    by (rule agenda_tick.agenda_tick) (simp_all add: split(1))
  ultimately show ?thesis using s4 by (auto simp: agenda_view_def)
qed

section \<open>Update\<close>

lemma timeouts_fit_mono: "timeouts_fit api j \<Longrightarrow> n \<le> j \<Longrightarrow> timeouts_fit api n"
  by (force simp: timeouts_fit_def)

lemma update_loop_done:
  assumes "wheel_inv s" "timer_jiffies s \<le> j + 1" "j < INT_MAX" "timeouts_fit api j"
    and "nat (j - timer_jiffies s + 2) \<le> m"
  shows "\<exists>w' s'. update_loop m api j (w, s) = Inr (w', s') \<and> wheel_inv s' \<and>
           timer_jiffies s' = j + 1 \<and> mbStop s' = mbStop s \<and>
           (agenda_tick api ^^ nat (j + 1 - timer_jiffies s))
             (agenda_view (w, s)) (agenda_view (w', s'))"
  using assms
proof (induction m arbitrary: w s)
  case 0
  then show ?case by simp
next
  case (Suc m)
  let ?n = "timer_jiffies s"
  have "in_i32 (j - ?n)"
    using Suc.prems wheel_invD(1) [OF Suc.prems(1)] by (simp add: int_range_defs)
  note guard = i32_in_range [OF this]
  show ?case
  proof (cases "?n \<le> j")
    case False
    then have "?n = j + 1" using Suc.prems(2) by simp
    then show ?thesis using guard Suc.prems(1) by (simp add: int_range_defs i32_def)
  next
    case True
    obtain w1 s1 where t: "update_tick api (w, s) = Inr (w1, s1)" "wheel_inv s1"
      "agenda_tick api (agenda_view (w, s)) (agenda_view (w1, s1))"
      "timer_jiffies s1 = ?n + 1" "mbStop s1 = mbStop s"
      using update_tick_refines [OF Suc.prems(1), of api w] Suc.prems(3,4) True
        timeouts_fit_mono [OF Suc.prems(4) True] by fastforce
    have "nat (j - timer_jiffies s1 + 2) \<le> m" using Suc.prems(5) t(4) by linarith
    then obtain w2 s2 where r: "update_loop m api j (w1, s1) = Inr (w2, s2)" "wheel_inv s2"
      "timer_jiffies s2 = j + 1" "mbStop s2 = mbStop s1"
      "(agenda_tick api ^^ nat (j + 1 - timer_jiffies s1))
         (agenda_view (w1, s1)) (agenda_view (w2, s2))"
      using Suc.IH [of s1 w1] Suc.prems(3,4) t True by auto
    have "nat (j + 1 - ?n) = Suc (nat (j + 1 - timer_jiffies s1))" using True t(4) by simp
    then show ?thesis using guard True t r relpowp_Suc_I2 [OF t(3) r(5)] by auto
  qed
qed

text \<open>
  \<open>TimerMaster::Update( j )\<close> on a well-formed wheel whose clock is not past \<open>j\<close>
  terminates normally with the clock at \<open>j + 1\<close>, and what it did is exactly one agenda tick
  for each of the \<open>j - timer_jiffies_ + 1\<close> jiffies it caught up with; the wheel stays
  well-formed.
\<close>

theorem tm_update_refines:
  assumes "wheel_inv s" "timer_jiffies s \<le> j" "j < INT_MAX" "timeouts_fit api j"
  shows "\<exists>w' s'. tm_update api j (w, s) = Inr (w', s') \<and> wheel_inv s' \<and>
           timer_jiffies s' = j + 1 \<and> mbStop s' = mbStop s \<and>
           (agenda_tick api ^^ nat (j + 1 - timer_jiffies s))
             (agenda_view (w, s)) (agenda_view (w', s'))"
proof -
  have "nat (j - timer_jiffies s + 2) \<le> nat (j - timer_jiffies s + 2)" ..
  from update_loop_done [OF assms(1) _ assms(3,4) this] assms(2)
  show ?thesis by (auto simp: tm_update_def)
qed

lemma wheel_inv_new [simp]: "wheel_inv new_timer_master"
  by (simp add: wheel_inv_def new_timer_master_def INT_MAX_def)

lemma pending_new [simp]: "pending new_timer_master = {#}"
  by (simp add: pending_def new_timer_master_def)

lemma register_clock:
  assumes "1 \<le> timer_jiffies s" "0 \<le> api_timeout api t w" "api_timeout api t w + timer_jiffies s \<le> INT_MAX"
  shows "\<exists>s'. tm_register api t w s = Inr s' \<and> timer_jiffies s' = timer_jiffies s"
proof -
  have "in_i32 (api_timeout api t w + timer_jiffies s)" using assms by (simp add: int_range_defs)
  then show ?thesis using assms internal_add_timer_any [OF assms(1)] by (simp add: tm_register_def)
qed

lemma register_result:
  assumes "wheel_inv s" "0 \<le> api_timeout api t w"
    "api_timeout api t w + timer_jiffies s \<le> INT_MAX"
  shows "\<exists>s'. tm_register api t w s = Inr s' \<and> wheel_inv s' \<and>
           timer_jiffies s' = timer_jiffies s \<and>
           pending s' = (if api_alive api t w
             then add_mset \<lparr>weak_timer = t, jiffies = api_timeout api t w + timer_jiffies s\<rparr>
                    (pending s)
             else pending s)"
proof -
  have "in_i32 (api_timeout api t w + timer_jiffies s)"
    using assms wheel_invD(1) [OF assms(1)] by (simp add: int_range_defs)
  then show ?thesis
    using assms internal_add_timer_ok [OF assms(1)] wheel_inv_put_slot [OF assms(1)]
    by (simp add: tm_register_def)
qed

text \<open>
  \<open>TimerMaster::Register\<close> of a live timer whose timeout is not negative and whose
  deadline fits in an \<open>int\<close> adds exactly that deadline to the agenda and keeps the wheel
  well-formed; a timer that is already destroyed is ignored.
\<close>

theorem tm_register_refines:
  assumes "wheel_inv s" "0 \<le> api_timeout api t w"
    "api_timeout api t w + timer_jiffies s \<le> INT_MAX"
  shows "\<exists>s'. tm_register api t w s = Inr s' \<and> wheel_inv s' \<and>
           timer_jiffies s' = timer_jiffies s \<and>
           pending s' = (if api_alive api t w
             then add_mset \<lparr>weak_timer = t, jiffies = api_timeout api t w + timer_jiffies s\<rparr>
                    (pending s)
             else pending s)"
  using assms by (rule register_result)

text \<open>
  \<open>InternalAddTimer\<close> never accepts a deadline before the clock: the signed difference
  is converted to an unsigned number in the comparison, no level takes it, and the process
  stops at \<open>CHECK( v != NULL )\<close>; so a periodic timer with timeout 0 brings the server
  down after its first expiry.
\<close>

theorem past_deadline_aborts:
  assumes "1 \<le> timer_jiffies s" "timer_jiffies s \<le> INT_MAX" "0 \<le> d" "d < timer_jiffies s"
  shows "internal_add_timer t d s = Inl CheckFailed"
  using assms by (rule internal_add_timer_past)

section \<open>The service the rest of the server uses\<close>

lemma agenda_clock: "(agenda_tick api ^^ k) c c' \<Longrightarrow> fst (snd c') = fst (snd c) + int k"
  by (induction k arbitrary: c') (auto elim!: agenda_tick.cases)

text \<open>
  The interface of the timer service: \<open>advance\<close> brings the clock up to a jiffy and is
  a run of agenda ticks. Its clients' facts about when timers fire are proved once from it.
\<close>

locale timer_service =
  fixes advance :: "('t, 'w) timer_api \<Rightarrow> int \<Rightarrow> 'w \<times> 's \<Rightarrow> ('w \<times> 's) outcome"
    and view :: "'w \<times> 's \<Rightarrow> 'w \<times> int \<times> 't timer_slot multiset"
    and inv :: "'s \<Rightarrow> bool"
  assumes advance_runs:
    "inv s \<Longrightarrow> view (w, s) = (w, n, P) \<Longrightarrow> n \<le> j \<Longrightarrow> j < INT_MAX \<Longrightarrow> timeouts_fit api j \<Longrightarrow>
     \<exists>w' s'. advance api j (w, s) = Inr (w', s') \<and> inv s' \<and>
       (agenda_tick api ^^ nat (j + 1 - n)) (w, n, P) (view (w', s'))"
begin

text \<open>A property of the agenda that every tick keeps holds after the clock is advanced.\<close>

lemma advance_invariant:
  assumes "inv s" "view (w, s) = (w, n, P)" "n \<le> j" "j < INT_MAX" "timeouts_fit api j"
    and "I (w, n, P)"
    and step: "\<And>c c'. I c \<Longrightarrow> agenda_tick api c c' \<Longrightarrow> I c'"
  shows "\<exists>w' s'. advance api j (w, s) = Inr (w', s') \<and> inv s' \<and>
           I (view (w', s')) \<and> fst (snd (view (w', s'))) = j + 1"
proof -
  obtain w' s' where r: "advance api j (w, s) = Inr (w', s')" "inv s'"
    "(agenda_tick api ^^ nat (j + 1 - n)) (w, n, P) (view (w', s'))"
    using advance_runs [OF assms(1-5)] by blast
  have "I c'" if "(agenda_tick api ^^ k) c c'" "I c" for k c c'
    using that by (induction k arbitrary: c') (auto dest: step)
  with r(3) assms(6) have "I (view (w', s'))" by blast
  with r agenda_clock [OF r(3)] assms(3) show ?thesis by auto
qed

end

interpretation wheel: timer_service tm_update agenda_view wheel_inv
proof
  fix s :: "'t timer_master" and w :: 'w and n P j and api :: "('t, 'w) timer_api"
  assume a: "wheel_inv s" "agenda_view (w, s) = (w, n, P)" "n \<le> j" "j < INT_MAX"
    "timeouts_fit api j"
  then have n: "n = timer_jiffies s" by (simp add: agenda_view_def)
  have "nat (j - timer_jiffies s + 2) \<le> nat (j - timer_jiffies s + 2)" ..
  from update_loop_done [OF a(1) _ a(4,5) this, of w] a(2,3) n
  show "\<exists>w' s'. tm_update api j (w, s) = Inr (w', s') \<and> wheel_inv s' \<and>
          (agenda_tick api ^^ nat (j + 1 - n)) (w, n, P) (agenda_view (w', s'))"
    by (auto simp: tm_update_def)
qed

section \<open>When timers fire\<close>

text \<open>
  Timers whose callback appends their name to a log: \<open>TestTimer\<close> of
  \<open>src/test/TestTimerMaster.cpp\<close> with the expiries counted.
\<close>

definition log_api :: "('t \<Rightarrow> bool) \<Rightarrow> ('t \<Rightarrow> int) \<Rightarrow> ('t, 't list) timer_api" where
  "log_api per tmo =
     \<lparr>api_alive = (\<lambda>t w. True), api_period = (\<lambda>t w. per t), api_timeout = (\<lambda>t w. tmo t),
      api_expired = (\<lambda>t w. w @ [t])\<rparr>"

lemma expire_all_log: "expire_all (log_api per tmo) ts w = w @ map weak_timer ts"
  by (induction ts arbitrary: w) (simp_all add: expire_all_def log_api_def)

lemma log_api_simps [simp]:
  "api_alive (log_api per tmo) t w" "api_period (log_api per tmo) t w = per t"
  "api_timeout (log_api per tmo) t w = tmo t"
  by (simp_all add: log_api_def)

subsection \<open>Periodic timers\<close>

definition next_fire :: "int \<Rightarrow> ('t \<Rightarrow> int) \<Rightarrow> 't list \<Rightarrow> 't \<Rightarrow> 't timer_slot" where
  "next_fire b tmo w t =
     \<lparr>weak_timer = t, jiffies = b + tmo t * (int (count_list w t) + 1)\<rparr>"

definition periodic_inv ::
    "int \<Rightarrow> ('t \<Rightarrow> int) \<Rightarrow> 't list \<Rightarrow> 't list \<times> int \<times> 't timer_slot multiset \<Rightarrow> bool" where
  "periodic_inv b tmo ts = (\<lambda>(w, n, P).
     P = image_mset (next_fire b tmo w) (mset ts) \<and>
     (\<forall>t \<in> set ts. n \<le> b + tmo t * (int (count_list w t) + 1) \<and>
        (count_list w t = 0 \<or> b + tmo t * int (count_list w t) < n)))"

lemma count_list_mset: "count_list xs x = count (mset xs) x"
  by (induction xs) auto

lemma periodic_inv_tick:
  assumes I: "periodic_inv b tmo ts c" and tick: "agenda_tick (log_api (\<lambda>_. True) tmo) c c'"
    and d: "distinct ts" and pos: "\<forall>t \<in> set ts. 1 \<le> tmo t"
  shows "periodic_inv b tmo ts c'"
proof -
  let ?api = "log_api (\<lambda>_. True) tmo"
  obtain w n P where c: "c = (w, n, P)" by (cases c) auto
  obtain fs where fs: "mset fs = due n P"
    and c': "c' = (w @ map weak_timer fs, n + 1,
       {#x \<in># P. jiffies x \<noteq> n#} + mset (rearmed ?api (w @ map weak_timer fs) n fs))"
    using tick unfolding c by (auto elim!: agenda_tickE simp: expire_all_log)
  define D where "D = (\<lambda>t. jiffies (next_fire b tmo w t) = n)"
  let ?w' = "w @ map weak_timer fs"
  have P: "P = image_mset (next_fire b tmo w) (mset ts)" using I by (simp add: periodic_inv_def c)
  have fsD: "mset fs = image_mset (next_fire b tmo w) (filter_mset D (mset ts))"
    by (simp add: fs due_def P D_def filter_mset_image_mset)
  have names: "mset (map weak_timer fs) = filter_mset D (mset ts)"
    by (simp add: fsD multiset.map_comp comp_def next_fire_def)
  have cnt: "count_list ?w' t = count_list w t + (if D t then 1 else 0)" if "t \<in> set ts" for t
  proof -
    have "count (mset ts) t = 1" using that distinct_count_atmost_1 [THEN iffD1, OF d] by simp
    then have "count_list (map weak_timer fs) t = (if D t then 1 else 0)"
      by (simp only: count_list_mset names count_filter_mset)
    then show ?thesis by (simp add: count_list_append)
  qed
  have old: "{#x \<in># P. jiffies x \<noteq> n#} =
      image_mset (next_fire b tmo ?w') (filter_mset (\<lambda>t. \<not> D t) (mset ts))"
  proof -
    have "{#x \<in># P. jiffies x \<noteq> n#} =
        image_mset (next_fire b tmo w) (filter_mset (\<lambda>t. \<not> D t) (mset ts))"
      by (simp add: P filter_mset_image_mset D_def)
    also have "\<dots> = image_mset (next_fire b tmo ?w') (filter_mset (\<lambda>t. \<not> D t) (mset ts))"
      by (rule image_mset_cong) (auto simp: next_fire_def cnt simp del: count_list_append)
    finally show ?thesis .
  qed
  have new: "mset (rearmed ?api ?w' n fs) =
      image_mset (next_fire b tmo ?w') (filter_mset D (mset ts))"
    by (auto simp: rearmed_def fsD multiset.map_comp comp_def next_fire_def cnt D_def
        algebra_simps simp del: count_list_append intro!: image_mset_cong)
  have "P' = image_mset (next_fire b tmo ?w') (mset ts)"
    if "P' = {#x \<in># P. jiffies x \<noteq> n#} + mset (rearmed ?api ?w' n fs)" for P'
    unfolding that old new by (metis image_mset_union multiset_partition add.commute)
  moreover have "n + 1 \<le> b + tmo t * (int (count_list ?w' t) + 1) \<and>
      (count_list ?w' t = 0 \<or> b + tmo t * int (count_list ?w' t) < n + 1)" if t: "t \<in> set ts" for t
  proof -
    have "n \<le> b + tmo t * (int (count_list w t) + 1)"
      "count_list w t = 0 \<or> b + tmo t * int (count_list w t) < n" "1 \<le> tmo t"
      using I t pos by (auto simp: periodic_inv_def c)
    then show ?thesis
      by (cases "D t") (auto simp: cnt [OF t] D_def next_fire_def algebra_simps simp del: count_list_append)
  qed
  ultimately show ?thesis by (simp add: c' periodic_inv_def)
qed

definition register_all ::
    "('t, 'w) timer_api \<Rightarrow> 'w \<Rightarrow> 't list \<Rightarrow> 't timer_master \<Rightarrow> 't timer_master outcome" where
  "register_all api w ts = fold_outcome (\<lambda>t. tm_register api t w) ts"

lemma register_all_ok:
  assumes "wheel_inv s" "\<forall>t. 1 \<le> tmo t \<and> tmo t + timer_jiffies s \<le> INT_MAX"
  shows "\<exists>s'. register_all (log_api per tmo) w ts s = Inr s' \<and> wheel_inv s' \<and>
           timer_jiffies s' = timer_jiffies s \<and>
           pending s' = pending s +
             image_mset (\<lambda>t. \<lparr>weak_timer = t, jiffies = tmo t + timer_jiffies s\<rparr>) (mset ts)"
  using assms
proof (induction ts arbitrary: s)
  case Nil
  then show ?case by (simp add: register_all_def)
next
  case (Cons t ts)
  have "0 \<le> tmo t" "tmo t + timer_jiffies s \<le> INT_MAX"
    using Cons.prems(2) by (auto intro: order_trans [of 0 1])
  then obtain s1 where s1: "tm_register (log_api per tmo) t w s = Inr s1" "wheel_inv s1"
    "timer_jiffies s1 = timer_jiffies s"
    "pending s1 = add_mset \<lparr>weak_timer = t, jiffies = tmo t + timer_jiffies s\<rparr> (pending s)"
    using tm_register_refines [OF Cons.prems(1), of "log_api per tmo" t w] by auto
  then show ?case using Cons.IH [of s1] Cons.prems by (auto simp: register_all_def)
qed

text \<open>
  C37. Periodic timers keep their schedule, whatever their number, however many share a
  deadline and however far apart the calls of \<open>Update\<close> are: after registering timers with
  positive timeouts on a fresh \<open>TimerMaster\<close> and one \<open>Update( j )\<close>, a timer with timeout
  \<open>p\<close> has expired exactly \<open>(j - 1) div p\<close> times (the statement \<open>Test0\<close>, \<open>Test1\<close> and
  \<open>Test5\<close> of \<open>TestTimerMaster.cpp\<close> sample).
\<close>

theorem periodic_timers_on_schedule:
  assumes "distinct ts" "\<forall>t. 1 \<le> tmo t \<and> tmo t + j \<le> INT_MAX" "1 \<le> j" "j < INT_MAX"
  shows "\<exists>s log s'. register_all (log_api (\<lambda>_. True) tmo) [] ts new_timer_master = Inr s \<and>
           tm_update (log_api (\<lambda>_. True) tmo) j ([], s) = Inr (log, s') \<and>
           (\<forall>t \<in> set ts. int (count_list log t) = (j - 1) div tmo t)"
proof -
  let ?api = "log_api (\<lambda>_. True) tmo"
  have clock_new: "timer_jiffies (new_timer_master :: 'a timer_master) = 1"
    by (simp add: new_timer_master_def)
  have fit1: "\<forall>t. 1 \<le> tmo t \<and> tmo t + timer_jiffies new_timer_master \<le> INT_MAX"
  proof
    fix t show "1 \<le> tmo t \<and> tmo t + timer_jiffies new_timer_master \<le> INT_MAX"
      using assms(2) [rule_format, of t] assms(3) by (simp add: new_timer_master_def)
  qed
  obtain s where s: "register_all ?api [] ts new_timer_master = Inr s" "wheel_inv s"
    "timer_jiffies s = 1"
    "pending s = image_mset (\<lambda>t. \<lparr>weak_timer = t, jiffies = tmo t + 1\<rparr>) (mset ts)"
    using register_all_ok [OF wheel_inv_new fit1, of "\<lambda>_. True" "[]" ts] clock_new pending_new
    by auto
  have "1 \<le> 1 + tmo t" for t using assms(2) [rule_format, of t] by linarith
  then have I: "periodic_inv 1 tmo ts ([], 1, pending s)"
    by (auto simp: periodic_inv_def s(4) next_fire_def add.commute intro!: image_mset_cong)
  have fit: "timeouts_fit ?api j" using assms(2) by (simp add: timeouts_fit_def)
  have "agenda_view ([] :: 'a list, s) = ([], 1, pending s)"
    by (simp add: agenda_view_def s(3))
  from wheel.advance_invariant [where I = "periodic_inv 1 tmo ts", OF s(2) this assms(3,4) fit I]
  obtain log s' where r: "tm_update ?api j ([], s) = Inr (log, s')"
    "periodic_inv 1 tmo ts (agenda_view (log, s'))" "timer_jiffies s' = j + 1"
    using periodic_inv_tick [of 1 tmo ts] assms(1,2)
    by (auto simp: agenda_view_def)
  have "int (count_list log t) = (j - 1) div tmo t" if t: "t \<in> set ts" for t
  proof -
    let ?c = "int (count_list log t)"
    have b: "j + 1 \<le> 1 + tmo t * (?c + 1)" "?c = 0 \<or> 1 + tmo t * ?c < j + 1" "1 \<le> tmo t"
      using r(2,3) t assms(2) by (auto simp: periodic_inv_def agenda_view_def)
    then have "tmo t * ?c \<le> j - 1" using assms(3) by auto
    moreover have "j - 1 - tmo t * ?c < tmo t" using b(1) by (simp add: algebra_simps)
    ultimately show ?thesis
      by (intro div_eqI [symmetric, where r = "j - 1 - tmo t * ?c"]) auto
  qed
  with s(1) r(1) show ?thesis by blast
qed

subsection \<open>One-shot timers\<close>

definition oneshot_inv ::
    "'t timer_slot multiset \<Rightarrow> 't list \<times> int \<times> 't timer_slot multiset \<Rightarrow> bool" where
  "oneshot_inv P0 = (\<lambda>(w, n, P).
     \<exists>fs. w = map weak_timer fs \<and> sorted (map jiffies fs) \<and> (\<forall>x \<in> set fs. jiffies x < n) \<and>
       mset fs + P = P0 \<and> (\<forall>x \<in># P. n \<le> jiffies x))"

lemma oneshot_inv_tick:
  assumes "oneshot_inv P0 c" "agenda_tick (log_api (\<lambda>_. False) tmo) c c'"
  shows "oneshot_inv P0 c'"
proof -
  obtain w n P where c: "c = (w, n, P)" by (cases c) auto
  obtain fs where fs: "w = map weak_timer fs" "sorted (map jiffies fs)"
    "\<forall>x \<in> set fs. jiffies x < n" "mset fs + P = P0" "\<forall>x \<in># P. n \<le> jiffies x"
    using assms(1) by (auto simp: oneshot_inv_def c)
  obtain ts where ts: "mset ts = due n P"
    and c': "c' = (w @ map weak_timer ts, n + 1, {#x \<in># P. jiffies x \<noteq> n#})"
    using assms(2) unfolding c
    by (auto elim!: agenda_tickE simp: expire_all_log rearmed_def)
  have now: "jiffies x = n" if "x \<in> set ts" for x
  proof -
    have "x \<in># due n P" using that ts by (metis set_mset_mset)
    then show ?thesis by (simp add: due_def)
  qed
  have "sorted (map jiffies (fs @ ts))"
  proof -
    have "map jiffies ts = replicate (length ts) n" using now by (intro replicate_eqI) auto
    then show ?thesis using fs(2,3) by (auto simp: sorted_append)
  qed
  moreover have "mset (fs @ ts) + {#x \<in># P. jiffies x \<noteq> n#} = P0"
    using fs(4) multiset_partition [of P "\<lambda>x. jiffies x = n"] by (metis add.assoc due_def mset_append ts)
  ultimately show ?thesis
    using fs(1,3,5) now by (fastforce simp: oneshot_inv_def c' intro!: exI [of _ "fs @ ts"])
qed

text \<open>
  One-shot timers fire once, at their deadline: \<open>Update( j )\<close> on a well-formed wheel
  runs the callbacks of exactly the pending timers whose deadline is at most \<open>j\<close>, in the
  order of their deadlines, and leaves exactly the others pending.
\<close>

theorem oneshot_timers_fire_once:
  assumes "wheel_inv s" "timer_jiffies s \<le> j" "j < INT_MAX"
  shows "\<exists>fs s'. tm_update (log_api (\<lambda>_. False) tmo) j ([], s) = Inr (map weak_timer fs, s') \<and>
           mset fs = {#x \<in># pending s. jiffies x \<le> j#} \<and> sorted (map jiffies fs) \<and>
           pending s' = {#x \<in># pending s. j < jiffies x#} \<and> wheel_inv s'"
proof -
  have fit: "timeouts_fit (log_api (\<lambda>_. False) tmo) j" by (simp add: timeouts_fit_def)
  have I: "oneshot_inv (pending s) ([], timer_jiffies s, pending s)"
    using pending_future(1) [OF assms(1)] by (simp add: oneshot_inv_def)
  have v: "agenda_view ([] :: 'a list, s) = ([], timer_jiffies s, pending s)"
    by (simp add: agenda_view_def)
  have "\<exists>w' s'. tm_update (log_api (\<lambda>_. False) tmo) j ([], s) = Inr (w', s') \<and> wheel_inv s' \<and>
      oneshot_inv (pending s) (agenda_view (w', s')) \<and> fst (snd (agenda_view (w', s'))) = j + 1"
    by (rule wheel.advance_invariant [where I = "oneshot_inv (pending s)",
          OF assms(1) v assms(2,3) fit I])
       (rule oneshot_inv_tick)
  then obtain w' s' where r: "tm_update (log_api (\<lambda>_. False) tmo) j ([], s) = Inr (w', s')"
    "wheel_inv s'" "oneshot_inv (pending s) (w', j + 1, pending s')"
    by (auto simp: agenda_view_def)
  then obtain fs where fs: "w' = map weak_timer fs" "sorted (map jiffies fs)"
    "\<forall>x \<in> set fs. jiffies x < j + 1" "mset fs + pending s' = pending s"
    "\<forall>x \<in># pending s'. j + 1 \<le> jiffies x"
    by (auto simp: oneshot_inv_def)
  have "{#x \<in># mset fs. jiffies x \<le> j#} = mset fs" "{#x \<in># pending s'. jiffies x \<le> j#} = {#}"
    "{#x \<in># mset fs. j < jiffies x#} = {#}" "{#x \<in># pending s'. j < jiffies x#} = pending s'"
    using fs(3,5) by (force simp: filter_mset_eq_conv)+
  then have "mset fs = {#x \<in># pending s. jiffies x \<le> j#}"
    "pending s' = {#x \<in># pending s. j < jiffies x#}"
    unfolding fs(4) [symmetric] filter_union_mset by simp_all
  with r(1,2) fs(1,2) show ?thesis by blast
qed

section \<open>The thread, and restarting it\<close>

text \<open>
  The timer thread never trips \<open>CHECK_GE( jiffies, timer_jiffies_ )\<close>: started in step
  with the wheel (as \<open>Start\<close> leaves them, counter 0 and clock 1), \<open>n\<close> seconds of
  \<open>InternalRun\<close> succeed and advance both by \<open>n\<close>.
\<close>

theorem internal_run_in_step:
  assumes "wheel_inv s" "\<not> mbStop s" "timer_jiffies s = k + 1" "k + int n < INT_MAX"
    "timeouts_fit api (k + int n)"
  shows "\<exists>w' s'. internal_run n k api (w, s) = Inr (w', s') \<and> wheel_inv s' \<and>
           timer_jiffies s' = k + int n + 1 \<and> \<not> mbStop s'"
  using assms
proof (induction n arbitrary: k w s)
  case 0
  then show ?case by simp
next
  case (Suc n)
  have k: "in_i32 (k + 1)" using Suc.prems wheel_invD(1) [OF Suc.prems(1)] by (simp add: int_range_defs)
  have k1: "timer_jiffies s \<le> k + 1" "k + 1 < INT_MAX" "timeouts_fit api (k + 1)"
    using Suc.prems timeouts_fit_mono [OF Suc.prems(5), of "k + 1"] by auto
  have "nat (k + 1 - timer_jiffies s + 2) \<le> nat (k + 1 - timer_jiffies s + 2)" ..
  from update_loop_done [OF Suc.prems(1) _ k1(2,3) this, of w] k1(1)
  obtain w1 s1 where u: "tm_update api (k + 1) (w, s) = Inr (w1, s1)" "wheel_inv s1"
    "timer_jiffies s1 = k + 1 + 1" "\<not> mbStop s1"
    using Suc.prems(2) by (auto simp: tm_update_def)
  have "\<exists>w' s'. internal_run n (k + 1) api (w1, s1) = Inr (w', s') \<and> wheel_inv s' \<and>
      timer_jiffies s' = k + 1 + int n + 1 \<and> \<not> mbStop s'"
    using Suc.IH [OF u(2,4,3), of w1] Suc.prems(4,5) by (simp add: algebra_simps)
  then show ?case using Suc.prems(2) k u(1) by (auto simp: algebra_simps)
qed

text \<open>
  Stopping the timer thread and starting it again moves the clock back to 1 but leaves
  every pending deadline where it was: a timer that had \<open>d - n\<close> ticks to wait has
  \<open>d - 1\<close> to wait after the restart, where \<open>n\<close> is the clock at the stop.
\<close>

theorem restart_keeps_old_deadlines:
  assumes "\<not> mbStop s"
  shows "timer_jiffies (tm_start (tm_stop s)) = 1 \<and> pending (tm_start (tm_stop s)) = pending s \<and>
         \<not> mbStop (tm_start (tm_stop s))"
  using assms by (simp add: tm_start_def tm_stop_def)

text \<open>
  A running manager with an empty wheel whose clock is 251; a one-shot timer of 30 seconds is
  registered, the manager is stopped and started, and \<open>n\<close> seconds pass: the expiries.
\<close>

definition clock_251 :: "nat timer_master" where
  "clock_251 = \<lparr>timer_jiffies = 251, vecs = (\<lambda>_. []), mbStop = False\<rparr>"

definition expiries_after_restart :: "nat \<Rightarrow> nat list outcome" where
  "expiries_after_restart n =
     (let api = log_api (\<lambda>_. False) (\<lambda>_. 30)
      in bind_outcome (tm_register api 7 [] clock_251) (\<lambda>s.
         bind_outcome (internal_run n 0 api ([], tm_start (tm_stop s))) (\<lambda>ws. Inr (fst ws))))"

text \<open>
  So a restart can make a timer fire early: the timer of 30 seconds is silent for 24
  seconds of the new run and expires in the 25th, because its list on level 0 is its old
  deadline 281 modulo 256.
\<close>

theorem restart_fires_early:
  "expiries_after_restart 24 = Inr [] \<and> expiries_after_restart 25 = Inr [7]"
  by code_simp

section \<open>Witnesses\<close>

text \<open>The timers of the witnesses: natural numbers, periodic, of two ticks each.\<close>

definition api2 :: "(nat, nat list) timer_api" where
  "api2 = log_api (\<lambda>_. True) (\<lambda>_. 2)"

lemma api2_fits: "n < INT_MAX - 2 \<Longrightarrow> timeouts_fit api2 n"
  by (simp add: timeouts_fit_def api2_def)

lemma clock_new [simp]: "timer_jiffies new_timer_master = 1" "mbStop new_timer_master = True"
  by (simp_all add: new_timer_master_def)

theorem update_tick_refines_witness:
  "\<exists>w' s'. update_tick api2 ([], new_timer_master) = Inr (w', s') \<and> wheel_inv s' \<and>
     agenda_tick api2 (agenda_view ([], new_timer_master)) (agenda_view (w', s')) \<and>
     timer_jiffies s' = 2 \<and> mbStop s' = True"
  using update_tick_refines [OF wheel_inv_new, of api2 "[]"] api2_fits [of 1]
  by (simp add: INT_MAX_def)

theorem tm_update_refines_witness:
  "\<exists>w' s'. tm_update api2 5 ([], new_timer_master) = Inr (w', s') \<and> wheel_inv s' \<and>
     timer_jiffies s' = 6 \<and> mbStop s' = True \<and>
     (agenda_tick api2 ^^ 5) (agenda_view ([], new_timer_master)) (agenda_view (w', s'))"
  using tm_update_refines [OF wheel_inv_new, of 5 api2 "[]"] api2_fits [of 5]
  by (simp add: INT_MAX_def)

theorem tm_register_refines_witness:
  "\<exists>s'. tm_register api2 4 [] new_timer_master = Inr s' \<and> wheel_inv s' \<and>
     timer_jiffies s' = 1 \<and> pending s' = {#\<lparr>weak_timer = 4, jiffies = 3\<rparr>#}"
  using tm_register_refines [OF wheel_inv_new, of api2 4 "[]"]
  by (simp add: INT_MAX_def api2_def)

theorem past_deadline_aborts_witness:
  "internal_add_timer (4 :: nat) 0 new_timer_master = Inl CheckFailed"
  using past_deadline_aborts [of "new_timer_master :: nat timer_master" 0 4]
  by (simp add: INT_MAX_def)

theorem periodic_timers_on_schedule_witness:
  "\<exists>s log s'. register_all api2 [] [4, 5] new_timer_master = Inr s \<and>
     tm_update api2 9 ([], s) = Inr (log, s') \<and>
     (\<forall>t \<in> {4, 5}. int (count_list log t) = 4)"
  using periodic_timers_on_schedule [of "[4, 5 :: nat]" "\<lambda>_. 2" 9]
  by (simp add: INT_MAX_def api2_def)

theorem oneshot_timers_fire_once_witness:
  "\<exists>fs s'. tm_update (log_api (\<lambda>_. False) (\<lambda>_. 2)) 5 ([], new_timer_master) =
       Inr (map weak_timer (fs :: nat timer_slot list), s') \<and>
     mset fs = {#} \<and> sorted (map jiffies fs) \<and> pending s' = {#} \<and> wheel_inv s'"
  using oneshot_timers_fire_once [OF wheel_inv_new [where 'a = nat], of 5 "\<lambda>_. 2"]
  by (simp add: INT_MAX_def)

theorem internal_run_in_step_witness:
  "\<exists>w' s'. internal_run 3 0 api2 ([], tm_start new_timer_master) = Inr (w', s') \<and> wheel_inv s' \<and>
     timer_jiffies s' = 4 \<and> \<not> mbStop s'"
proof -
  have "wheel_inv (tm_start new_timer_master :: nat timer_master)"
    by (simp add: tm_start_def wheel_inv_def new_timer_master_def INT_MAX_def)
  from internal_run_in_step [OF this, of 0 3 api2 "[]"] api2_fits [of 3]
  show ?thesis by (simp add: tm_start_def INT_MAX_def)
qed

theorem restart_keeps_old_deadlines_witness:
  "timer_jiffies (tm_start (tm_stop clock_251)) = 1 \<and>
   pending (tm_start (tm_stop clock_251)) = pending clock_251 \<and>
   \<not> mbStop (tm_start (tm_stop clock_251))"
  by (rule restart_keeps_old_deadlines) (simp add: clock_251_def)

end
