(* ===== verification/Timer_Threads.thy ===== *)
theory Timer_Threads
  imports Timer_Master
begin

text \<open>
  \<open>src/core/TimerMaster.cpp\<close> with its threads. \<open>InternalRun\<close> updates the wheel on a thread of its own, while any other thread may
  call \<open>Register\<close>, change what the timers answer, or call \<open>Stop\<close>. \<open>Timer_Master\<close> runs every \<open>Update\<close> to its end;
  here a turn of the thread is one statement, one callback, or one of the blocks that hold the mutex, and the other threads
  act between any two turns. All accesses to the lists of the wheel are inside such blocks; the clock is read and
  advanced outside.

  The lemmas: whatever happens in between, nothing faults, every slot put on the wheel leaves it exactly when its deadline is the clock,
  and after the flag of \<open>Stop\<close> the thread ends. A timer with the timeout 0 is the exception: registered
  between the block that empties its list and the statement that advances the clock, it waits for the next turn of the wheel.
\<close>

section \<open>The thread and the events\<close>

datatype 't tick_place =
    RunCheck                                             \<comment> \<open>\<open>while ( !mbStop )\<close>\<close>
  | UpdateCheck                                          \<comment> \<open>\<open>CHECK_GE\<close> of \<open>Update\<close>\<close>
  | Guard                                                \<comment> \<open>\<open>while ( jiffies - timer_jiffies_ >= 0 )\<close>\<close>
  | Collect                                              \<comment> \<open>the block that cascades and empties a list\<close>
  | Advance "'t timer_slot list"                         \<comment> \<open>\<open>++timer_jiffies_\<close>\<close>
  | Expire int "'t timer_slot list" "'t timer_slot list" \<comment> \<open>all timers collected, and those still to be called\<close>
  | Period int "'t timer_slot list"
  | Arm int "'t timer_slot" "'t timer_slot list"         \<comment> \<open>the block around \<open>InternalAddTimer\<close>\<close>
  | RunEnded

record ('t, 'w) timer_run =
  tr_world :: 'w
  tr_wheel :: "'t timer_master"
  tr_jiffiers :: int                            \<comment> \<open>the local of \<open>InternalRun\<close>\<close>
  tr_place :: "'t tick_place"
  tr_armed :: "'t timer_slot list"              \<comment> \<open>all slots ever put on the wheel by \<open>Register\<close> or for a new period\<close>
  tr_expired :: "(int \<times> 't timer_slot) list"    \<comment> \<open>the calls of \<open>Expired\<close>, with the jiffy they are for\<close>
  tr_dead :: "(int \<times> 't timer_slot) list"       \<comment> \<open>the slots deleted because their timer is gone\<close>

definition timer_run_start :: "'w \<Rightarrow> ('t, 'w) timer_run" where
  "timer_run_start w =
     \<lparr>tr_world = w, tr_wheel = tm_start new_timer_master, tr_jiffiers = 0, tr_place = RunCheck,
      tr_armed = [], tr_expired = [], tr_dead = []\<rparr>"

text \<open>The loop of \<open>InternalRun\<close>; how long a round sleeps is left to the schedule.\<close>

definition run_loop_turn :: "('t, 'w) timer_run \<Rightarrow> ('t, 'w) timer_run outcome" where
  [simp]: "run_loop_turn s =
     (if mbStop (tr_wheel s) then Inr (s\<lparr>tr_place := RunEnded\<rparr>)
      else bind_outcome (i32 (tr_jiffiers s + 1)) (\<lambda>k. Inr (s\<lparr>tr_jiffiers := k, tr_place := UpdateCheck\<rparr>)))"

definition collect_due ::
  "('t, 'w) timer_api \<Rightarrow> ('t, 'w) timer_run \<Rightarrow> ('t, 'w) timer_run outcome"
where
  "collect_due api s =
     bind_outcome (cascade_all (tr_wheel s)) (\<lambda>m.
       let n = timer_jiffies m;
           p = (0, nat (n AND kTVMask));
           alive = (\<lambda>x. api_alive api (weak_timer x) (tr_world s))
       in Inr (s\<lparr>tr_wheel := m\<lparr>vecs := (vecs m)(p := [])\<rparr>, tr_place := Advance (filter alive (vecs m p)),
                 tr_dead := tr_dead s @ map (Pair n) (filter (\<lambda>x. \<not> alive x) (vecs m p))\<rparr>))"

fun timer_turn ::
  "('t, 'w) timer_api \<Rightarrow> 't tick_place \<Rightarrow> ('t, 'w) timer_run \<Rightarrow> ('t, 'w) timer_run outcome"
where
  "timer_turn api RunCheck s = run_loop_turn s"
| "timer_turn api UpdateCheck s =
     bind_outcome (check CheckFailed (timer_jiffies (tr_wheel s) \<le> tr_jiffiers s)) (\<lambda>_. Inr (s\<lparr>tr_place := Guard\<rparr>))"
| "timer_turn api Guard s =
     bind_outcome (i32 (tr_jiffiers s - timer_jiffies (tr_wheel s))) (\<lambda>diff.
       Inr (s\<lparr>tr_place := if 0 \<le> diff then Collect else RunCheck\<rparr>))"
| "timer_turn api Collect s = collect_due api s"
| "timer_turn api (Advance ts) s =
     (let old = timer_jiffies (tr_wheel s) in
      bind_outcome (i32 (old + 1)) (\<lambda>n. Inr (s\<lparr>tr_wheel := (tr_wheel s)\<lparr>timer_jiffies := n\<rparr>, tr_place := Expire old ts ts\<rparr>)))"
| "timer_turn api (Expire old ts []) s = Inr (s\<lparr>tr_place := Period old ts\<rparr>)"
| "timer_turn api (Expire old ts (x # xs)) s =
     Inr (s\<lparr>tr_world := api_expired api (weak_timer x) (tr_world s), tr_place := Expire old ts xs,
            tr_expired := tr_expired s @ [(old, x)]\<rparr>)"
| "timer_turn api (Period old []) s = Inr (s\<lparr>tr_place := Guard\<rparr>)"
| "timer_turn api (Period old (x # xs)) s =
     Inr (s\<lparr>tr_place := if api_period api (weak_timer x) (tr_world s) then Arm old x xs else Period old xs\<rparr>)"
| "timer_turn api (Arm old x xs) s =
     bind_outcome (i32 (api_timeout api (weak_timer x) (tr_world s) + old)) (\<lambda>d.
     bind_outcome (internal_add_timer (weak_timer x) d (tr_wheel s)) (\<lambda>m.
       Inr (s\<lparr>tr_wheel := m, tr_place := Period old xs, tr_armed := tr_armed s @ [\<lparr>weak_timer = weak_timer x, jiffies = d\<rparr>]\<rparr>)))"
| "timer_turn api RunEnded s = Inr s"

text \<open>\<open>Happens f\<close>: other threads change the timers, or destroy some.\<close>

datatype ('t, 'w) timer_event = Turn | Registers 't | Happens "'w \<Rightarrow> 'w" | Stops

fun timer_step ::
  "('t, 'w) timer_api \<Rightarrow> ('t, 'w) timer_event \<Rightarrow> ('t, 'w) timer_run \<Rightarrow> ('t, 'w) timer_run outcome"
where
  "timer_step api Turn s = timer_turn api (tr_place s) s"
| "timer_step api (Registers t) s =
     bind_outcome (tm_register api t (tr_world s) (tr_wheel s)) (\<lambda>m.
       Inr (s\<lparr>tr_wheel := m,
              tr_armed := tr_armed s @ (if api_alive api t (tr_world s)
                then [\<lparr>weak_timer = t, jiffies = api_timeout api t (tr_world s) + timer_jiffies (tr_wheel s)\<rparr>] else [])\<rparr>))"
| "timer_step api (Happens f) s = Inr (s\<lparr>tr_world := f (tr_world s)\<rparr>)"
| "timer_step api Stops s = Inr (s\<lparr>tr_wheel := tm_stop (tr_wheel s)\<rparr>)"

definition timer_history ::
  "('t, 'w) timer_api \<Rightarrow> ('t, 'w) timer_event list \<Rightarrow> ('t, 'w) timer_run \<Rightarrow> ('t, 'w) timer_run outcome"
where
  "timer_history api = fold_outcome (timer_step api)"

section \<open>Invariant\<close>

text \<open>The slots that have left the wheel and whose timers are still to be called.\<close>

fun in_hand :: "'t tick_place \<Rightarrow> 't timer_slot list" where
  "in_hand (Advance ts) = ts"
| "in_hand (Expire old ts xs) = xs"
| "in_hand _ = []"

text \<open>What the place says of the clock, the counter of the thread and the slots in hand.\<close>

fun place_ok :: "'t tick_place \<Rightarrow> int \<Rightarrow> 't timer_master \<Rightarrow> bool" where
  "place_ok RunCheck k m \<longleftrightarrow> timer_jiffies m = k + 1"
| "place_ok UpdateCheck k m \<longleftrightarrow> timer_jiffies m = k"
| "place_ok Guard k m \<longleftrightarrow> timer_jiffies m \<le> k + 1"
| "place_ok Collect k m \<longleftrightarrow> timer_jiffies m \<le> k"
| "place_ok (Advance ts) k m \<longleftrightarrow> timer_jiffies m \<le> k \<and> cascaded m \<and> vecs m (current (timer_jiffies m) 0) = [] \<and>
     list_all (\<lambda>x. jiffies x = timer_jiffies m) ts"
| "place_ok (Expire old ts xs) k m \<longleftrightarrow> timer_jiffies m = old + 1 \<and> old \<le> k \<and> k \<le> old \<and> list_all (\<lambda>x. jiffies x = old) xs"
| "place_ok (Period old ts) k m \<longleftrightarrow> timer_jiffies m = old + 1 \<and> old \<le> k \<and> k \<le> old"
| "place_ok (Arm old x ts) k m \<longleftrightarrow> timer_jiffies m = old + 1 \<and> old \<le> k \<and> k \<le> old"
| "place_ok RunEnded k m \<longleftrightarrow> True"

definition timer_run_inv :: "('t, 'w) timer_run \<Rightarrow> bool" where
  "timer_run_inv s \<longleftrightarrow> wheel_inv (tr_wheel s) \<and> place_ok (tr_place s) (tr_jiffiers s) (tr_wheel s) \<and> 0 \<le> tr_jiffiers s \<and>
     tr_jiffiers s \<le> timer_jiffies (tr_wheel s) \<and>
     mset (tr_armed s) = pending (tr_wheel s) + mset (in_hand (tr_place s)) + mset (map snd (tr_expired s)) + mset (map snd (tr_dead s)) \<and>
     list_all (\<lambda>(n, x). jiffies x = n) (tr_expired s) \<and> list_all (\<lambda>(n, x). jiffies x = n) (tr_dead s)"

text \<open>Every timer waits at least one jiffy and no deadline up to the clock \<open>N\<close> passes the largest \<open>int\<close>.\<close>

definition timers_wait :: "('t, 'w) timer_api \<Rightarrow> int \<Rightarrow> bool" where
  "timers_wait api N \<longleftrightarrow> (\<forall>t w. 1 \<le> api_timeout api t w \<and> api_timeout api t w + N \<le> INT_MAX)"

section \<open>The window before the clock advances\<close>

lemma place_not_now:
  assumes "n < d" "d \<le> INT_MAX" "1 \<le> n"
  shows "place n d \<noteq> current n 0"
proof
  assume eq: "place n d = current n 0"
  then have "level_of (d - n) = 0" by (simp add: place_def current_def)
  then have near: "d < n + 256" by (auto simp: level_of_def split: if_splits)
  have "nat (d mod 256) = nat (n mod 256)" using eq \<open>level_of (d - n) = 0\<close> by (simp add: place_def current_def)
  then have "d mod 256 = n mod 256" by (simp only: eq_nat_nat_iff pos_mod_sign zero_less_numeral)
  from mod256_eq [OF less_imp_le [OF assms(1)] near this] have "d = n" .
  with assms(1) show False by simp
qed

lemma put_slot_window:
  assumes "cascaded m" "timer_jiffies m < d" "d \<le> INT_MAX" "1 \<le> timer_jiffies m"
  shows "cascaded (put_slot t d m)"
    and "vecs m (current (timer_jiffies m) 0) = [] \<Longrightarrow> vecs (put_slot t d m) (current (timer_jiffies m) 0) = []"
proof -
  have "place (timer_jiffies m) d \<noteq> current (timer_jiffies m) k" if "1 \<le> k" "256 ^ k dvd timer_jiffies m" for k
    using place_not_current [of "timer_jiffies m" d k] assms that by (simp add: current_def)
  then show "cascaded (put_slot t d m)"
    using assms(1) by (auto simp: cascaded_def intro: put_slot_empty)
  show "vecs (put_slot t d m) (current (timer_jiffies m) 0) = []" if "vecs m (current (timer_jiffies m) 0) = []"
    using that place_not_now [OF assms(2-4)] by (rule put_slot_empty)
qed

lemma put_slot_place_ok:
  assumes "place_ok p k m" "wheel_inv m" "timer_jiffies m < d" "d \<le> INT_MAX"
  shows "place_ok p k (put_slot t d m)"
  using assms put_slot_window [of m d t] wheel_invD(1) [OF assms(2)] by (cases p) auto

text \<open>Emptying the list of level 0 without advancing the clock.\<close>

lemma collect_ok:
  assumes inv: "wheel_inv m" and casc: "cascaded m"
  defines "m' \<equiv> m\<lparr>vecs := (vecs m)(current (timer_jiffies m) 0 := [])\<rparr>"
  shows "wheel_inv m'" and "cascaded m'" and "vecs m' (current (timer_jiffies m) 0) = []"
    and "pending m = mset (vecs m (current (timer_jiffies m) 0)) + pending m'"
    and "x \<in> set (vecs m (current (timer_jiffies m) 0)) \<Longrightarrow> jiffies x = timer_jiffies m"
proof -
  show "wheel_inv m'" using inv by (auto simp: wheel_inv_def m'_def)
  show "cascaded m'" using casc by (auto simp: cascaded_def m'_def)
  show "vecs m' (current (timer_jiffies m) 0) = []" by (simp add: m'_def)
  show "pending m = mset (vecs m (current (timer_jiffies m) 0)) + pending m'"
    using pending_upd [of "current (timer_jiffies m) 0" m "[]"] by (simp add: m'_def add.commute)
  assume "x \<in> set (vecs m (current (timer_jiffies m) 0))"
  then have "slot_ok (timer_jiffies m) (0, nat (timer_jiffies m div 256 ^ 0 mod 256)) (jiffies x)"
    using wheel_invD(3) [OF inv current_in_wheel [of 0 "timer_jiffies m"], of x] by (simp add: current_def)
  from current_due [OF this] show "jiffies x = timer_jiffies m" by simp
qed

text \<open>Advancing the clock of a wheel whose lists of now are empty.\<close>

lemma advance_ok:
  assumes "wheel_inv m" "cascaded m" "vecs m (current (timer_jiffies m) 0) = []" "timer_jiffies m < INT_MAX"
  shows "wheel_inv (m\<lparr>timer_jiffies := timer_jiffies m + 1\<rparr>)"
proof -
  have "take_due m = m\<lparr>timer_jiffies := timer_jiffies m + 1\<rparr>"
    using assms(3) by (simp add: take_due_def fun_upd_idem)
  then show ?thesis using take_due_ok(1) [OF assms(1,2,4)] by simp
qed

section \<open>Every event keeps the invariant\<close>

lemma timers_waitD:
  assumes "timers_wait api N"
  shows "1 \<le> api_timeout api t w" "api_timeout api t w + N \<le> INT_MAX"
  using assms by (auto simp: timers_wait_def)

lemma timers_wait_mono: "timers_wait api N \<Longrightarrow> n \<le> N \<Longrightarrow> timers_wait api n"
  unfolding timers_wait_def by (metis add_le_cancel_left order_trans)

lemma put_slot_at:
  assumes "wheel_inv m" "timers_wait api n" "timer_jiffies m \<le> n + 1" "n \<le> timer_jiffies m" "0 \<le> n"
  shows "i32 (api_timeout api t w + n) = Inr (api_timeout api t w + n)"
    and "internal_add_timer t (api_timeout api t w + n) m = Inr (put_slot t (api_timeout api t w + n) m)"
    and "wheel_inv (put_slot t (api_timeout api t w + n) m)"
  using assms timers_waitD [OF assms(2), of t w] internal_add_timer_ok [OF assms(1)] wheel_inv_put_slot [OF assms(1)]
  by (auto simp: int_range_defs)

lemma register_keeps:
  assumes inv: "timer_run_inv s" and wait: "timers_wait api (timer_jiffies (tr_wheel s))"
  shows "\<exists>s'. timer_step api (Registers t) s = Inr s' \<and> timer_run_inv s' \<and> timer_jiffies (tr_wheel s') = timer_jiffies (tr_wheel s)"
proof (cases "api_alive api t (tr_world s)")
  case False
  then show ?thesis using inv by (auto simp: tm_register_def)
next
  case True
  let ?m = "tr_wheel s"
  let ?d = "api_timeout api t (tr_world s) + timer_jiffies ?m"
  have m: "wheel_inv ?m" using inv by (simp add: timer_run_inv_def)
  have d: "timer_jiffies ?m < ?d" "?d \<le> INT_MAX"
    using timers_waitD [OF wait, of t "tr_world s"] by auto
  note put = put_slot_at [OF m wait _ _ order_trans [OF zero_le_one wheel_invD(1) [OF m]], of t "tr_world s"]
  have "tm_register api t (tr_world s) ?m = Inr (put_slot t ?d ?m)"
    using True put(1,2) by (simp add: tm_register_def)
  moreover have "place_ok (tr_place s) (tr_jiffiers s) (put_slot t ?d ?m)"
    using put_slot_place_ok [OF _ m d] inv by (simp add: timer_run_inv_def)
  ultimately show ?thesis
    using inv put(3) True by (simp add: timer_run_inv_def)
qed

lemma collect_keeps:
  assumes inv: "timer_run_inv s" and p: "tr_place s = Collect"
  shows "\<exists>s'. collect_due api s = Inr s' \<and> timer_run_inv s' \<and> timer_jiffies (tr_wheel s') = timer_jiffies (tr_wheel s)"
proof -
  let ?n = "timer_jiffies (tr_wheel s)"
  obtain m where m: "cascade_all (tr_wheel s) = Inr m" "keeps (tr_wheel s) m" "cascaded m"
    using cascade_all_ok inv by (auto simp: timer_run_inv_def)
  note k = keepsD [OF m(2)]
  note c = collect_ok [OF k(1) m(3), unfolded k(3)]
  let ?l = "vecs m (current ?n 0)"
  let ?alive = "\<lambda>x. api_alive api (weak_timer x) (tr_world s)"
  let ?m = "m\<lparr>vecs := (vecs m)(current ?n 0 := [])\<rparr>"
  let ?s = "s\<lparr>tr_wheel := ?m, tr_place := Advance (filter ?alive ?l),
    tr_dead := tr_dead s @ map (Pair ?n) (filter (\<lambda>x. \<not> ?alive x) ?l)\<rparr>"
  have "collect_due api s = Inr ?s"
    using m(1) k(3) by (simp add: collect_due_def Let_def current_0)
  moreover have "timer_run_inv ?s"
  proof -
    have "mset (filter ?alive ?l) + mset (filter (\<lambda>x. \<not> ?alive x) ?l) = mset ?l"
      by (metis mset_filter multiset_partition)
    then have parts: "pending (tr_wheel s) = mset (filter ?alive ?l) + mset (filter (\<lambda>x. \<not> ?alive x) ?l) + pending ?m"
      using c(4) k(2) by (simp only:)
    have "place_ok (Advance (filter ?alive ?l)) (tr_jiffiers s) ?m"
      using inv p c(2,3,5) k(3) by (auto simp: timer_run_inv_def list_all_iff)
    moreover have "mset (map snd (map (Pair ?n) (filter (\<lambda>x. \<not> ?alive x) ?l))) = mset (filter (\<lambda>x. \<not> ?alive x) ?l)"
      by (simp add: o_def)
    moreover have "list_all (\<lambda>(n, x). jiffies x = n) (map (Pair ?n) (filter (\<lambda>x. \<not> ?alive x) ?l))"
      using c(5) by (simp add: list_all_iff)
    ultimately show ?thesis
      using inv p c(1) k(3) parts by (simp add: timer_run_inv_def del: mset_filter)
  qed
  ultimately show ?thesis using k(3) by simp
qed

lemma timer_turn_keeps:
  assumes inv: "timer_run_inv s" and wait: "timers_wait api (timer_jiffies (tr_wheel s))"
  shows "\<exists>s'. timer_step api Turn s = Inr s' \<and> timer_run_inv s' \<and> timer_jiffies (tr_wheel s') \<le> timer_jiffies (tr_wheel s) + 1"
proof -
  let ?n = "timer_jiffies (tr_wheel s)"
  have m: "wheel_inv (tr_wheel s)" and k: "place_ok (tr_place s) (tr_jiffiers s) (tr_wheel s)" "0 \<le> tr_jiffiers s" "tr_jiffiers s \<le> ?n"
    using inv by (auto simp: timer_run_inv_def)
  have n: "1 \<le> ?n" "?n < INT_MAX"
    using wheel_invD(1) [OF m] timers_waitD [OF wait, of undefined undefined] by auto
  have small: "in_i32 d" if "0 \<le> d + 1" "d \<le> ?n + 1" for d
    using that n by (simp add: int_range_defs)
  show ?thesis
  proof (cases "tr_place s")
    case RunCheck
    then show ?thesis using inv k small [of "tr_jiffiers s + 1"] by (simp add: timer_run_inv_def)
  next
    case UpdateCheck
    then show ?thesis using inv by (simp add: timer_run_inv_def)
  next
    case Guard
    then have "in_i32 (tr_jiffiers s - ?n)" using k n by (intro small) auto
    then show ?thesis using inv k Guard by (simp add: timer_run_inv_def)
  next
    case Collect
    then show ?thesis using collect_keeps [OF inv Collect, of api] by auto
  next
    case (Advance ts)
    then show ?thesis
      using inv k n small [of "?n + 1"] advance_ok [OF m] by (simp add: timer_run_inv_def Let_def)
  next
    case (Expire old ts xs)
    then show ?thesis using inv by (cases xs) (simp_all add: timer_run_inv_def)
  next
    case (Period old ts)
    then show ?thesis using inv by (cases ts) (simp_all add: timer_run_inv_def)
  next
    case (Arm old x ts)
    then have old: "old = ?n - 1" using k(1) by simp
    have "timers_wait api old" using timers_wait_mono [OF wait] old by simp
    note put = put_slot_at [OF m this, of "weak_timer x" "tr_world s"]
    show ?thesis using inv Arm old n put by (simp add: timer_run_inv_def)
  next
    case RunEnded
    then show ?thesis using inv by simp
  qed
qed

lemma timer_step_keeps:
  assumes inv: "timer_run_inv s" and wait: "timers_wait api (timer_jiffies (tr_wheel s))"
  shows "\<exists>s'. timer_step api e s = Inr s' \<and> timer_run_inv s' \<and> timer_jiffies (tr_wheel s') \<le> timer_jiffies (tr_wheel s) + 1"
proof (cases e)
  case Turn
  then show ?thesis using timer_turn_keeps [OF assms] by simp
next
  case (Registers t)
  then show ?thesis using register_keeps [OF assms] by force
next
  case (Happens f)
  then show ?thesis using inv by (simp add: timer_run_inv_def)
next
  case Stops
  have "place_ok p k (m\<lparr>mbStop := b\<rparr>) \<longleftrightarrow> place_ok p k m" for p :: "'a tick_place" and k m b
    by (cases p) (auto simp: cascaded_def)
  then show ?thesis using inv Stops by (simp add: timer_run_inv_def tm_stop_def wheel_inv_def)
qed

lemma timer_history_keeps:
  "timer_run_inv s \<Longrightarrow> timers_wait api (timer_jiffies (tr_wheel s) + int (length es)) \<Longrightarrow>
    \<exists>s'. timer_history api es s = Inr s' \<and> timer_run_inv s' \<and>
      timer_jiffies (tr_wheel s') \<le> timer_jiffies (tr_wheel s) + int (length es)"
proof (induction es arbitrary: s)
  case Nil
  then show ?case by (simp add: timer_history_def)
next
  case (Cons e es)
  have "timers_wait api (timer_jiffies (tr_wheel s))" by (rule timers_wait_mono [OF Cons.prems(2)]) simp
  then obtain s1 where s1: "timer_step api e s = Inr s1" "timer_run_inv s1" "timer_jiffies (tr_wheel s1) \<le> timer_jiffies (tr_wheel s) + 1"
    using timer_step_keeps [OF Cons.prems(1)] by blast
  have "timers_wait api (timer_jiffies (tr_wheel s1) + int (length es))"
    by (rule timers_wait_mono [OF Cons.prems(2)]) (use s1(3) in simp)
  then show ?case using Cons.IH [OF s1(2)] s1(1,3) by (fastforce simp: timer_history_def)
qed

lemma timer_run_start_inv: "timer_run_inv (timer_run_start w)"
  by (simp add: timer_run_inv_def timer_run_start_def tm_start_def new_timer_master_def wheel_inv_def INT_MAX_def pending_def)

section \<open>The thread ends after Stop\<close>

fun turns_phase :: "'t tick_place \<Rightarrow> int \<Rightarrow> int \<Rightarrow> nat" where
  "turns_phase UpdateCheck k n = 1"
| "turns_phase Guard k n = of_bool (n \<le> k)"
| "turns_phase Collect k n = 1"
| "turns_phase _ k n = 0"

fun turns_count :: "'t tick_place \<Rightarrow> nat" where
  "turns_count RunEnded = 0"
| "turns_count RunCheck = 1"
| "turns_count Guard = 2"
| "turns_count UpdateCheck = 3"
| "turns_count Collect = 0"
| "turns_count (Advance ts) = 3 * length ts + 5"
| "turns_count (Expire old ts xs) = 2 * length ts + length xs + 4"
| "turns_count (Period old ts) = 2 * length ts + 3"
| "turns_count (Arm old x ts) = 2 * length ts + 4"

definition turn_rank :: "('t, 'w) timer_run \<Rightarrow> nat \<times> nat" where
  "turn_rank s = (turns_phase (tr_place s) (tr_jiffiers s) (timer_jiffies (tr_wheel s)), turns_count (tr_place s))"

lemma turn_keeps_stop:
  assumes "timer_run_inv s" "timer_step api Turn s = Inr s'"
  shows "mbStop (tr_wheel s') = mbStop (tr_wheel s)"
proof (cases "tr_place s")
  case Collect
  obtain m where "cascade_all (tr_wheel s) = Inr m" "mbStop m = mbStop (tr_wheel s)"
    using cascade_all_ok [of "tr_wheel s"] assms(1) by (auto simp: timer_run_inv_def keeps_def)
  then show ?thesis using assms(2) Collect by (auto simp: collect_due_def Let_def)
next
  case (Expire old ts xs)
  then show ?thesis using assms(2) by (cases xs) auto
next
  case (Period old ts)
  then show ?thesis using assms(2) by (cases ts) auto
next
  case (Arm old x ts)
  then show ?thesis using assms(2) by (auto simp: internal_add_timer_def split: option.splits)
qed (use assms(2) in \<open>auto simp: Let_def split: if_splits\<close>)

lemma stopped_turn_counter:
  assumes "timer_step api Turn s = Inr s'" "mbStop (tr_wheel s)"
  shows "tr_jiffiers s' = tr_jiffiers s"
proof (cases "tr_place s")
  case (Expire old ts xs)
  then show ?thesis using assms(1) by (cases xs) auto
next
  case (Period old ts)
  then show ?thesis using assms(1) by (cases ts) auto
qed (use assms in \<open>auto simp: Let_def collect_due_def split: if_splits\<close>)

lemma turn_rank_falls:
  assumes "timer_run_inv s" "mbStop (tr_wheel s)" "tr_place s \<noteq> RunEnded" "timer_step api Turn s = Inr s'"
  shows "(turn_rank s', turn_rank s) \<in> less_than <*lex*> less_than"
proof -
  have k: "place_ok (tr_place s) (tr_jiffiers s) (tr_wheel s)" "tr_jiffiers s \<le> timer_jiffies (tr_wheel s)"
    using assms(1) by (auto simp: timer_run_inv_def)
  show ?thesis
  proof (cases "tr_place s")
    case (Expire old ts xs)
    then show ?thesis using assms(4) by (cases xs) (auto simp: turn_rank_def)
  next
    case (Period old ts)
    then show ?thesis using assms(4) k by (cases ts) (auto simp: turn_rank_def)
  next
    case Collect
    then show ?thesis using assms(4) by (auto simp: turn_rank_def collect_due_def Let_def)
  qed (use assms(2-4) k in \<open>auto simp: turn_rank_def Let_def i32_Inr_iff split: if_splits\<close>)
qed

lemma stopped_thread_ends:
  assumes "timer_run_inv s" "mbStop (tr_wheel s)" "timers_wait api (tr_jiffiers s + 1)"
  shows "\<exists>m s'. timer_history api (replicate m Turn) s = Inr s' \<and> tr_place s' = RunEnded"
proof -
  have "wf (inv_image (less_than <*lex*> less_than) turn_rank)" by auto
  then show ?thesis using assms
  proof (induction s)
    case (less s)
    show ?case
    proof (cases "tr_place s = RunEnded")
      case True
      then show ?thesis by (intro exI [of _ 0] exI [of _ s]) (simp add: timer_history_def)
    next
      case False
      then have "timer_jiffies (tr_wheel s) \<le> tr_jiffiers s + 1"
        using less.prems(1) by (cases "tr_place s") (auto simp: timer_run_inv_def)
      then obtain s1 where s1: "timer_step api Turn s = Inr s1" "timer_run_inv s1"
        using timer_turn_keeps [OF less.prems(1) timers_wait_mono [OF less.prems(3)]] by blast
      have "tr_jiffiers s1 = tr_jiffiers s"
        using s1(1) less.prems(2) by (rule stopped_turn_counter)
      then obtain m s' where "timer_history api (replicate m Turn) s1 = Inr s'" "tr_place s' = RunEnded"
        using less.IH [of s1] turn_rank_falls [OF less.prems(1,2) False s1(1)] turn_keeps_stop [OF less.prems(1) s1(1)] s1(2) less.prems(2,3)
        by auto
      then show ?thesis using s1(1) by (intro exI [of _ "Suc m"] exI [of _ s']) (simp add: timer_history_def)
    qed
  qed
qed

section \<open>Timers are on time\<close>

lemma pending_at_check:
  assumes "timer_run_inv s" "tr_place s = RunCheck" "x \<in> set (tr_armed s)" "jiffies x \<le> tr_jiffiers s"
  shows "(jiffies x, x) \<in> set (tr_expired s) \<union> set (tr_dead s)"
proof -
  have "x \<notin># pending (tr_wheel s)"
    using pending_future(1) [of "tr_wheel s" x] assms(1,2,4) by (auto simp: timer_run_inv_def)
  moreover have "mset (tr_armed s) = pending (tr_wheel s) + mset (map snd (tr_expired s)) + mset (map snd (tr_dead s))"
    using assms(1,2) by (simp add: timer_run_inv_def)
  from arg_cong [OF this, of set_mset]
  have "set (tr_armed s) = set_mset (pending (tr_wheel s)) \<union> snd ` set (tr_expired s) \<union> snd ` set (tr_dead s)" by simp
  ultimately have "x \<in> snd ` set (tr_expired s) \<union> snd ` set (tr_dead s)" using assms(3) by auto
  then show ?thesis using assms(1) by (auto simp: timer_run_inv_def list_all_iff)
qed

text \<open>
  C11. The timer thread, from its start, with any other threads that register timers, change what timers answer, destroy timers, or call
  \<open>Stop\<close>, at any moments between its statements. If every timeout is at least 1 and no deadline passes the largest \<open>int\<close>:
  nothing faults; every slot ever put on the wheel is on it, in the hands of the thread, expired or deleted because its timer has gone, each once;
  timers expire, and dead ones are deleted, exactly at the jiffy of their deadline; whenever an update is over, no deadline up to it has
  been missed; and once \<open>Stop\<close> has set its flag the thread comes to its end, so the \<open>join\<close> returns.
\<close>

theorem timers_on_time:
  assumes "timers_wait api (int (length es) + 2)"
  shows "\<exists>s. timer_history api es (timer_run_start w) = Inr s \<and>
    mset (tr_armed s) = pending (tr_wheel s) + mset (in_hand (tr_place s)) + mset (map snd (tr_expired s)) + mset (map snd (tr_dead s)) \<and>
    list_all (\<lambda>(n, x). jiffies x = n) (tr_expired s @ tr_dead s) \<and>
    (tr_place s = RunCheck \<longrightarrow> (\<forall>x \<in> set (tr_armed s). jiffies x \<le> tr_jiffiers s \<longrightarrow>
       (jiffies x, x) \<in> set (tr_expired s) \<union> set (tr_dead s))) \<and>
    (mbStop (tr_wheel s) \<longrightarrow>
       (\<exists>m s'. timer_history api (replicate m Turn) s = Inr s' \<and> tr_place s' = RunEnded))"
proof -
  have start: "timer_jiffies (tr_wheel (timer_run_start w)) = 1"
    by (simp add: timer_run_start_def tm_start_def new_timer_master_def)
  have "timers_wait api (timer_jiffies (tr_wheel (timer_run_start w)) + int (length es))"
    by (rule timers_wait_mono [OF assms]) (simp add: start)
  then obtain s where s: "timer_history api es (timer_run_start w) = Inr s" "timer_run_inv s"
    "timer_jiffies (tr_wheel s) \<le> 1 + int (length es)"
    using timer_history_keeps [OF timer_run_start_inv] start by metis
  have "timers_wait api (tr_jiffiers s + 1)"
    by (rule timers_wait_mono [OF assms]) (use s(2,3) in \<open>simp add: timer_run_inv_def\<close>)
  then show ?thesis
    using s(1,2) stopped_thread_ends [OF s(2)] pending_at_check [OF s(2)]
    by (intro exI [of _ s]) (simp add: timer_run_inv_def)
qed

text \<open>
  A timer of timeout 1 registered in the window of the first jiffy, and another destroyed before it is due: the first
  expires at jiffy 2, the slot of the second is deleted then.
\<close>

definition pair_api :: "(string, string list) timer_api" where
  "pair_api = \<lparr>api_alive = (\<lambda>t w. t \<in> set w), api_period = (\<lambda>t w. False), api_timeout = (\<lambda>t w. 1), api_expired = (\<lambda>t w. w)\<rparr>"

definition pair_events :: "(string, string list) timer_event list" where
  "pair_events = [Turn, Turn, Turn, Turn, Registers ''a'', Registers ''b'', Happens (\<lambda>w. [''a'']),
     Turn, Turn, Turn, Turn, Turn, Turn, Turn, Turn, Turn, Turn]"

lemma timers_on_time_witness:
  "timers_wait pair_api (int (length pair_events) + 2) \<and>
    (\<exists>s. timer_history pair_api pair_events (timer_run_start [''a'', ''b'']) = Inr s \<and>
      tr_expired s = [(2, \<lparr>weak_timer = ''a'', jiffies = 2\<rparr>)] \<and> tr_dead s = [(2, \<lparr>weak_timer = ''b'', jiffies = 2\<rparr>)] \<and>
      pending (tr_wheel s) = {#})"
proof -
  have wait: "timers_wait pair_api (int (length pair_events) + 2)"
    by (simp add: timers_wait_def pair_api_def pair_events_def INT_MAX_def)
  obtain s where s: "timer_history pair_api pair_events (timer_run_start [''a'', ''b'']) = Inr s"
    "mset (tr_armed s) = pending (tr_wheel s) + mset (in_hand (tr_place s)) + mset (map snd (tr_expired s)) + mset (map snd (tr_dead s))"
    using timers_on_time [OF wait, of "[''a'', ''b'']"] by blast
  have "map_sum id (\<lambda>s. (tr_armed s, in_hand (tr_place s), tr_expired s, tr_dead s))
      (timer_history pair_api pair_events (timer_run_start [''a'', ''b''])) =
    Inr ([\<lparr>weak_timer = ''a'', jiffies = 2\<rparr>, \<lparr>weak_timer = ''b'', jiffies = 2\<rparr>], [],
         [(2, \<lparr>weak_timer = ''a'', jiffies = 2\<rparr>)], [(2, \<lparr>weak_timer = ''b'', jiffies = 2\<rparr>)])"
    by code_simp
  then show ?thesis using wait s by auto
qed

section \<open>A timeout of zero in the window\<close>

lemma timer_history_append:
  "timer_history api (es @ fs) s = bind_outcome (timer_history api es s) (timer_history api fs)"
  by (simp add: timer_history_def fold_outcome_append)

definition upper_empty :: "'t timer_master \<Rightarrow> bool" where
  "upper_empty m \<longleftrightarrow> (\<forall>i j. 1 \<le> i \<longrightarrow> vecs m (i, j) = [])"

lemma cascade_empty: "upper_empty m \<Longrightarrow> cascade_all m = Inr m"
  by (simp add: cascade_all_def cascade_timers_def upper_empty_def Let_def)

text \<open>A round of the thread in which no timer is due: eight turns.\<close>

lemma idle_round:
  assumes "tr_place s = RunCheck" "tr_jiffiers s = k" "timer_jiffies (tr_wheel s) = k + 1" "\<not> mbStop (tr_wheel s)"
    and "upper_empty (tr_wheel s)" "vecs (tr_wheel s) (0, nat ((k + 1) AND kTVMask)) = []" and k: "0 \<le> k" "k + 1 < INT_MAX"
  shows "timer_history api (replicate 8 Turn) s =
    Inr (s\<lparr>tr_jiffiers := k + 1, tr_wheel := (tr_wheel s)\<lparr>timer_jiffies := k + 2\<rparr>, tr_place := RunCheck\<rparr>)"
proof -
  have "in_i32 (k + 1)" "in_i32 (2 + k)" "in_i32 0" "in_i32 (- 1)" using k by (simp_all add: int_range_defs)
  moreover have "vecs (tr_wheel s) = (vecs (tr_wheel s))((0, nat ((k + 1) AND kTVMask)) := [])"
    using assms(6) by (simp add: fun_upd_idem)
  ultimately show ?thesis
    using assms by (simp add: timer_history_def numeral_eq_Suc collect_due_def cascade_empty Let_def add.commute)
qed

lemma idle_rounds:
  assumes "tr_place s = RunCheck" "tr_jiffiers s = k" "timer_jiffies (tr_wheel s) = k + 1" "\<not> mbStop (tr_wheel s)"
    and "upper_empty (tr_wheel s)" "0 \<le> k" "k + int j < INT_MAX"
    and "\<forall>i < j. vecs (tr_wheel s) (0, nat ((k + 1 + int i) AND kTVMask)) = []"
  shows "timer_history api (replicate (8 * j) Turn) s =
    Inr (s\<lparr>tr_jiffiers := k + int j, tr_wheel := (tr_wheel s)\<lparr>timer_jiffies := k + int j + 1\<rparr>, tr_place := RunCheck\<rparr>)"
  using assms(7,8)
proof (induction j)
  case 0
  have "s = s\<lparr>tr_jiffiers := k, tr_wheel := (tr_wheel s)\<lparr>timer_jiffies := k + 1\<rparr>, tr_place := RunCheck\<rparr>"
    using assms(1-3) by simp
  then show ?case by (simp add: timer_history_def)
next
  case (Suc j)
  let ?s = "s\<lparr>tr_jiffiers := k + int j, tr_wheel := (tr_wheel s)\<lparr>timer_jiffies := k + int j + 1\<rparr>, tr_place := RunCheck\<rparr>"
  have "timer_history api (replicate (8 * Suc j) Turn) s =
      bind_outcome (timer_history api (replicate (8 * j) Turn) s) (timer_history api (replicate 8 Turn))"
    by (simp add: add.commute flip: timer_history_append replicate_add)
  moreover have "timer_history api (replicate (8 * j) Turn) s = Inr ?s"
    using Suc by simp
  moreover have "timer_history api (replicate 8 Turn) ?s =
      Inr (?s\<lparr>tr_jiffiers := k + int j + 1, tr_wheel := (tr_wheel ?s)\<lparr>timer_jiffies := k + int j + 2\<rparr>, tr_place := RunCheck\<rparr>)"
    using assms Suc.prems by (intro idle_round) (auto simp: upper_empty_def algebra_simps)
  ultimately have "timer_history api (replicate (8 * Suc j) Turn) s =
      Inr (?s\<lparr>tr_jiffiers := k + int j + 1, tr_wheel := (tr_wheel ?s)\<lparr>timer_jiffies := k + int j + 2\<rparr>, tr_place := RunCheck\<rparr>)"
    by (simp only: bind_outcome_simps)
  then show ?case by (simp add: algebra_simps)
qed

text \<open>
  C34. A live timer with timeout 0, registered by another thread after the list of the jiffy \<open>n\<close> has been emptied and before the clock is
  advanced, on a wheel that holds nothing else: it is not called with the jiffy \<open>n\<close>, nor at the next; the thread makes 255 more rounds first
  and calls it for the jiffy \<open>n + 256\<close>.
\<close>

theorem zero_timeout_waits_a_turn:
  assumes s: "tr_place s = Advance []" "tr_jiffiers s = n" "tr_wheel s = \<lparr>timer_jiffies = n, vecs = (\<lambda>_. []), mbStop = False\<rparr>"
    and n: "1 \<le> n" "n + 256 < INT_MAX" and t: "api_alive api t (tr_world s)" "api_timeout api t (tr_world s) = 0"
  shows "map_sum id tr_expired (timer_history api (Registers t # replicate 2050 Turn) s) =
    Inr (tr_expired s @ [(n + 256, \<lparr>weak_timer = t, jiffies = n\<rparr>)])"
proof -
  let ?x = "\<lparr>weak_timer = t, jiffies = n\<rparr>"
  let ?V = "(\<lambda>_. [])((0, nat (n mod 256)) := [?x])"
  let ?s = "s\<lparr>tr_wheel := \<lparr>timer_jiffies = n + 1, vecs = ?V, mbStop = False\<rparr>, tr_place := RunCheck, tr_armed := tr_armed s @ [?x]\<rparr>"
  have ints: "in_i32 n" "in_i32 (n + 1)" "in_i32 (- 1)" "in_i32 (256 + n)" "in_i32 (257 + n)" "in_i32 0"
    using n by (simp_all add: int_range_defs)
  have "put_slot t n (tr_wheel s) = \<lparr>timer_jiffies = n, vecs = ?V, mbStop = False\<rparr>"
    using s(3) by (simp add: put_slot_def place_def level_of_def)
  then have "tm_register api t (tr_world s) (tr_wheel s) = Inr \<lparr>timer_jiffies = n, vecs = ?V, mbStop = False\<rparr>"
    using internal_add_timer_any [of "tr_wheel s" n t] s(3) n t ints by (simp add: tm_register_def)
  then have "timer_history api (Registers t # replicate 4 Turn) s = Inr ?s"
    using s t ints by (simp add: timer_history_def numeral_eq_Suc Let_def)
  moreover have other: "nat ((n + 1 + int i) mod 256) \<noteq> nat (n mod 256)" if "i < 255" for i
  proof
    assume "nat ((n + 1 + int i) mod 256) = nat (n mod 256)"
    then have "(n + 1 + int i) mod 256 = n mod 256" by (simp only: eq_nat_nat_iff pos_mod_sign zero_less_numeral)
    from mod256_eq [OF _ _ this] that show False by simp
  qed
  have "timer_history api (replicate (8 * 255) Turn) ?s =
      Inr (?s\<lparr>tr_jiffiers := n + int 255, tr_wheel := (tr_wheel ?s)\<lparr>timer_jiffies := n + int 255 + 1\<rparr>, tr_place := RunCheck\<rparr>)"
    using s n other by (intro idle_rounds) (auto simp: upper_empty_def and_kTVMask)
  moreover have "map_sum id tr_expired (timer_history api (replicate 6 Turn)
      (?s\<lparr>tr_jiffiers := n + int 255, tr_wheel := (tr_wheel ?s)\<lparr>timer_jiffies := n + int 255 + 1\<rparr>, tr_place := RunCheck\<rparr>)) =
      Inr (tr_expired s @ [(n + 256, ?x)])"
    using ints t by (simp add: timer_history_def numeral_eq_Suc Let_def collect_due_def cascade_empty upper_empty_def and_kTVMask add.commute)
  moreover have "timer_history api (Registers t # replicate 2050 Turn) s =
      bind_outcome (timer_history api (Registers t # replicate 4 Turn) s) (\<lambda>s.
      bind_outcome (timer_history api (replicate (8 * 255) Turn) s) (timer_history api (replicate 6 Turn)))"
    by (simp flip: timer_history_append bind_outcome_assoc replicate_add)
  ultimately show ?thesis by (simp only: bind_outcome_simps)
qed

lemma zero_timeout_waits_a_turn_witness:
  "map_sum id tr_expired (timer_history \<lparr>api_alive = (\<lambda>t w. True), api_period = (\<lambda>t w. False), api_timeout = (\<lambda>t w. 0), api_expired = (\<lambda>t w. w)\<rparr>
     (Registers ''late'' # replicate 2050 Turn)
     \<lparr>tr_world = (), tr_wheel = \<lparr>timer_jiffies = 1, vecs = (\<lambda>_. []), mbStop = False\<rparr>, tr_jiffiers = 1, tr_place = Advance [],
      tr_armed = [], tr_expired = [], tr_dead = []\<rparr>) =
   Inr [(257, \<lparr>weak_timer = ''late'', jiffies = 1\<rparr>)]"
  by (subst zero_timeout_waits_a_turn [where n = 1]) (simp_all add: INT_MAX_def)

end
