(* ===== verification/Shared_Const_Buffers.thy ===== *)
theory Shared_Const_Buffers
  imports Tt_Prelude
begin

text \<open>
  \<open>src/core/SharedConstBuffers.hpp\<close>: a queue of constant buffers, filled by \<open>push\<close> and
  drained by \<open>consume\<close> as the socket takes bytes. \<open>boost::asio::const_buffer\<close> is not part
  of the repository: its operations are the fields of \<open>buffer_api\<close>, and
  \<open>buffer_api_ok\<close> is what its documentation promises of them. The theory shows that the
  class is a FIFO queue of bytes, the interface \<open>byte_queue\<close> that the connections use.
\<close>

section \<open>asio buffers\<close>

record 'b buffer_api =
  buf_make :: "string \<Rightarrow> 'b"          \<comment> \<open>\<open>const_buffer( data, size )\<close>\<close>
  buf_size :: "'b \<Rightarrow> nat"             \<comment> \<open>\<open>buffer_size( b )\<close>\<close>
  buf_plus :: "'b \<Rightarrow> nat \<Rightarrow> 'b"      \<comment> \<open>\<open>b + n\<close>\<close>
  buf_bytes :: "'b \<Rightarrow> string"         \<comment> \<open>the bytes the buffer spans\<close>

definition buffer_api_ok :: "'b buffer_api \<Rightarrow> bool" where
  "buffer_api_ok A \<longleftrightarrow>
     (\<forall>s. buf_bytes A (buf_make A s) = s) \<and>
     (\<forall>b. buf_size A b = length (buf_bytes A b)) \<and>
     (\<forall>b n. buf_bytes A (buf_plus A b n) = drop n (buf_bytes A b))"

text \<open>An instance: a buffer is the string it spans.\<close>

definition string_buffers :: "string buffer_api" where
  "string_buffers =
     \<lparr>buf_make = (\<lambda>s. s), buf_size = length, buf_plus = (\<lambda>b n. drop n b), buf_bytes = (\<lambda>b. b)\<rparr>"

lemma string_buffers_ok [simp]: "buffer_api_ok string_buffers"
  by (simp add: buffer_api_ok_def string_buffers_def)

section \<open>SharedConstBuffers\<close>

text \<open>
  \<open>mStore\<close> holds the strings the queue owns, in the order of their \<open>push\<close>; the index
  \<open>mStart\<close> counts buffers already consumed.
\<close>

record 'b scb =
  mBuffer :: "'b list"
  mStore :: "cstr list"
  mStart :: nat

definition scb_new :: "'b scb" where
  "scb_new = \<lparr>mBuffer = [], mStore = [], mStart = 0\<rparr>"

definition scb_push :: "'b buffer_api \<Rightarrow> cstr \<Rightarrow> 'b scb \<Rightarrow> 'b scb" where
  "scb_push A data q =
     q\<lparr>mStore := mStore q @ [data], mBuffer := mBuffer q @ [buf_make A (cs_text data)]\<rparr>"

definition scb_clear :: "'b scb \<Rightarrow> 'b scb" where
  "scb_clear q = q\<lparr>mBuffer := [], mStore := [], mStart := 0\<rparr>"

text \<open>\<open>~Store\<close>: deletes every string; the result is the extended set of deleted addresses.\<close>

definition store_delete :: "cstr list \<Rightarrow> nat list \<Rightarrow> nat list outcome" where
  "store_delete st = free_all (map cs_addr st)"

definition scb_empty :: "'b scb \<Rightarrow> bool" where
  "scb_empty q \<longleftrightarrow> mStart q = length (mBuffer q)"

definition scb_begin_end :: "'b scb \<Rightarrow> 'b list" where
  "scb_begin_end q = drop (mStart q) (mBuffer q)"

fun size_loop :: "'b buffer_api \<Rightarrow> 'b list \<Rightarrow> int \<Rightarrow> int outcome" where
  "size_loop A [] s = Inr s"
| "size_loop A (b # bs) s = bind_outcome (i32 (s + int (buf_size A b))) (size_loop A bs)"

definition scb_size :: "'b buffer_api \<Rightarrow> 'b scb \<Rightarrow> int outcome" where
  "scb_size A q = size_loop A (drop (mStart q) (mBuffer q)) 0"

text \<open>
  The loop of \<open>consume\<close> at index \<open>i\<close>. In the last branch the \<open>int\<close> is converted to
  \<open>size_t\<close> by \<open>operator+\<close>.
\<close>

function consume_loop :: "'b buffer_api \<Rightarrow> nat \<Rightarrow> int \<Rightarrow> 'b scb \<Rightarrow> 'b scb" where
  "consume_loop A i sz q =
     (if i < length (mBuffer q) then
        let bsize = int (buf_size A (mBuffer q ! i))
        in if bsize < sz then consume_loop A (i + 1) (sz - bsize) q
           else if sz = bsize then q\<lparr>mStart := i + 1\<rparr>
           else q\<lparr>mBuffer := (mBuffer q)[i := buf_plus A (mBuffer q ! i) (nat (sz mod 2 ^ 64))],
                  mStart := i\<rparr>
      else q\<lparr>mStart := length (mBuffer q)\<rparr>)"
  by pat_completeness auto
termination
  by (relation "measure (\<lambda>(A, i, sz, q). length (mBuffer q) - i)") auto

declare consume_loop.simps [simp del]

definition scb_consume :: "'b buffer_api \<Rightarrow> int \<Rightarrow> 'b scb \<Rightarrow> 'b scb" where
  "scb_consume A sz q = consume_loop A (mStart q) sz q"

section \<open>The queue of bytes\<close>

definition scb_content :: "'b buffer_api \<Rightarrow> 'b scb \<Rightarrow> string" where
  "scb_content A q = concat (map (buf_bytes A) (drop (mStart q) (mBuffer q)))"

definition scb_inv :: "'b buffer_api \<Rightarrow> 'b scb \<Rightarrow> bool" where
  "scb_inv A q \<longleftrightarrow> buffer_api_ok A \<and> mStart q \<le> length (mBuffer q)"

lemma buffer_apiD:
  assumes "buffer_api_ok A"
  shows "buf_bytes A (buf_make A s) = s" "buf_size A b = length (buf_bytes A b)"
    "buf_bytes A (buf_plus A b n) = drop n (buf_bytes A b)"
  using assms by (simp_all add: buffer_api_ok_def)

lemma scb_new_simps [simp]:
  "scb_content A scb_new = []" "scb_empty scb_new" "mStore scb_new = []"
  by (simp_all add: scb_content_def scb_empty_def scb_new_def)

lemma scb_inv_new [simp]: "buffer_api_ok A \<Longrightarrow> scb_inv A scb_new"
  by (simp add: scb_inv_def scb_new_def)

lemma scb_push_ok:
  assumes "scb_inv A q"
  shows "scb_inv A (scb_push A d q)" "scb_content A (scb_push A d q) = scb_content A q @ cs_text d"
  using assms by (auto simp: scb_inv_def scb_push_def scb_content_def buffer_apiD)

lemma consume_loop_ok:
  assumes "scb_inv A q" "0 \<le> sz" "sz < 2 ^ 64" "i \<le> length (mBuffer q)"
  shows "scb_inv A (consume_loop A i sz q) \<and>
         scb_content A (consume_loop A i sz q) =
           drop (nat sz) (concat (map (buf_bytes A) (drop i (mBuffer q))))"
  using assms
proof (induction A i sz q rule: consume_loop.induct)
  case (1 A i sz q)
  let ?b = "mBuffer q ! i"
  have ok: "buffer_api_ok A" using "1.prems"(1) by (simp add: scb_inv_def)
  show ?case
  proof (cases "i < length (mBuffer q)")
    case False
    then have "consume_loop A i sz q = q\<lparr>mStart := length (mBuffer q)\<rparr>"
      by (subst consume_loop.simps) simp
    with False "1.prems" show ?thesis by (simp add: scb_inv_def scb_content_def)
  next
    case True
    note d = Cons_nth_drop_Suc [OF True, symmetric]
    note len = buffer_apiD(2) [OF ok, of ?b]
    consider "int (buf_size A ?b) < sz" | "sz = int (buf_size A ?b)" | "sz < int (buf_size A ?b)"
      by linarith
    then show ?thesis
    proof cases
      case 1
      have "scb_inv A (consume_loop A (i + 1) (sz - int (buf_size A ?b)) q) \<and>
          scb_content A (consume_loop A (i + 1) (sz - int (buf_size A ?b)) q) =
          drop (nat (sz - int (buf_size A ?b)))
            (concat (map (buf_bytes A) (drop (i + 1) (mBuffer q))))"
        using "1.IH" [OF True refl 1] "1.prems" 1 True by simp
      then show ?thesis
        using True 1 by (simp add: consume_loop.simps [of A i sz] Let_def d len nat_diff_distrib)
    next
      case 2
      then have "consume_loop A i sz q = q\<lparr>mStart := i + 1\<rparr>"
        using True by (subst consume_loop.simps) (simp add: Let_def)
      then show ?thesis using True ok 2 by (simp add: d len scb_inv_def scb_content_def)
    next
      case 3
      have "nat (sz mod 2 ^ 64) = nat sz" using "1.prems" by simp
      then have "consume_loop A i sz q =
          q\<lparr>mBuffer := (mBuffer q)[i := buf_plus A ?b (nat sz)], mStart := i\<rparr>"
        using True 3 by (subst consume_loop.simps) (simp add: Let_def)
      then show ?thesis
        using True ok 3 "1.prems"(2)
        by (simp add: d len scb_inv_def scb_content_def drop_update_swap buffer_apiD(3) nat_le_iff)
    qed
  qed
qed

text \<open>
  The contract of the class, as the connections use it: a FIFO of bytes.
\<close>

locale byte_queue =
  fixes push :: "cstr \<Rightarrow> 'q \<Rightarrow> 'q" and consume :: "int \<Rightarrow> 'q \<Rightarrow> 'q"
    and is_empty :: "'q \<Rightarrow> bool" and content :: "'q \<Rightarrow> string" and inv :: "'q \<Rightarrow> bool"
  assumes inv_push: "inv q \<Longrightarrow> inv (push d q)"
    and inv_consume: "inv q \<Longrightarrow> 0 \<le> n \<Longrightarrow> n < 2 ^ 64 \<Longrightarrow> inv (consume n q)"
    and content_push: "inv q \<Longrightarrow> content (push d q) = content q @ cs_text d"
    and content_consume:
      "inv q \<Longrightarrow> 0 \<le> n \<Longrightarrow> n < 2 ^ 64 \<Longrightarrow> content (consume n q) = drop (nat n) (content q)"
    and empty_content: "inv q \<Longrightarrow> is_empty q \<Longrightarrow> content q = []"
begin

lemma inv_push_all: "inv q \<Longrightarrow> inv (fold push ds q)"
  by (induction ds arbitrary: q) (auto simp: inv_push)

lemma content_push_all: "inv q \<Longrightarrow> content (fold push ds q) = content q @ concat (map cs_text ds)"
  by (induction ds arbitrary: q) (auto simp: inv_push content_push)

text \<open>What has been taken and what is left make up the content.\<close>

lemma taken_and_left:
  "inv q \<Longrightarrow> n \<le> length (content q) \<Longrightarrow> int n < 2 ^ 64 \<Longrightarrow>
     take n (content q) @ content (consume (int n) q) = content q"
  by (simp add: content_consume)

end

interpretation scb: byte_queue "scb_push A" "scb_consume A" scb_empty "scb_content A" "scb_inv A"
  for A
proof
  fix q d n
  assume inv: "scb_inv A q"
  show "scb_inv A (scb_push A d q)" "scb_content A (scb_push A d q) = scb_content A q @ cs_text d"
    using scb_push_ok [OF inv] by simp_all
  show "scb_inv A (scb_consume A n q)" "scb_content A (scb_consume A n q) = drop (nat n) (scb_content A q)"
    if "0 \<le> n" "n < 2 ^ 64"
    using consume_loop_ok [OF inv that, of "mStart q"] inv
    by (simp_all add: scb_consume_def scb_content_def scb_inv_def)
  show "scb_content A q = []" if "scb_empty q"
    using that by (simp add: scb_empty_def scb_content_def)
qed

text \<open>
  \<open>SharedConstBuffers\<close> is a FIFO queue of bytes: after pushing any strings onto a
  well-formed queue, \<open>consume( n )\<close> removes exactly the first \<open>n\<close> bytes of everything
  pending, wherever the boundaries between the pushed strings lie.
\<close>

theorem scb_fifo:
  assumes "scb_inv A q" "n \<le> length (scb_content A q @ concat (map cs_text ds))" "int n < 2 ^ 64"
  shows "take n (scb_content A q @ concat (map cs_text ds)) @
           scb_content A (scb_consume A (int n) (fold (scb_push A) ds q)) =
         scb_content A q @ concat (map cs_text ds)"
  using assms scb.taken_and_left [OF scb.inv_push_all [OF assms(1)], of n ds]
  by (simp add: scb.content_push_all)

definition cs :: "nat \<Rightarrow> string \<Rightarrow> cstr" where
  "cs a s = \<lparr>cs_addr = a, cs_text = s\<rparr>"

theorem scb_fifo_witness:
  "take 7 (''hello'' @ ''world'') @
     scb_content string_buffers (scb_consume string_buffers 7
       (fold (scb_push string_buffers) [cs 0 ''hello'', cs 1 ''world''] scb_new)) =
   ''hello'' @ ''world''"
  using scb_fifo [of string_buffers scb_new 7 "[cs 0 ''hello'', cs 1 ''world'']"]
  by (simp add: cs_def)

text \<open>
  Nothing but \<open>clear\<close>, which no code of the repository calls, gives memory back: consuming
  leaves every pushed string and every buffer object in place.
\<close>

lemma consume_loop_retains:
  "mStore (consume_loop A i sz q) = mStore q \<and>
   length (mBuffer (consume_loop A i sz q)) = length (mBuffer q)"
  by (induction A i sz q rule: consume_loop.induct) (subst (1 2) consume_loop.simps, simp add: Let_def)

datatype scb_op = Push cstr | Consume int

fun scb_run :: "'b buffer_api \<Rightarrow> scb_op list \<Rightarrow> 'b scb \<Rightarrow> 'b scb" where
  "scb_run A [] q = q"
| "scb_run A (Push d # ops) q = scb_run A ops (scb_push A d q)"
| "scb_run A (Consume n # ops) q = scb_run A ops (scb_consume A n q)"

text \<open>
  The strings of a queue are kept until the queue is cleared or destroyed: after any
  sequence of \<open>push\<close> and \<open>consume\<close>, the store of the queue holds every string ever pushed,
  in order, even when every byte has been consumed.
\<close>

theorem consumed_strings_are_retained:
  "mStore (scb_run A ops q) = mStore q @ [d. Push d \<leftarrow> ops]"
  by (induction A ops q rule: scb_run.induct)
     (simp_all add: scb_push_def scb_consume_def consume_loop_retains)

end
