(* ===== verification/Frame_Codec.thy ===== *)
theory Frame_Codec
  imports Tt_Prelude
begin

text \<open>
  The wire format: \<open>src/core/network/Buffer.hpp\<close>, \<open>EncodeMessage\<close> and
  \<open>ProtobufDecoder\<close> of \<open>RawProtobufConnection.hpp\<close> and \<open>RawProtobufConnection.cpp\<close>, and
  \<open>RawConnectionImpl::Decode\<close> of \<open>RawConnection.hpp\<close>. A frame is the decimal length, a
  colon and that many bytes of a serialised \<open>MetaData\<close>. The theory shows that the decoder
  accepts exactly these frames, however the stream is cut into reads, and that no input
  makes it touch memory outside its buffer.
\<close>

section \<open>MetaData and the libraries\<close>

text \<open>The message of \<open>proto/meta.proto\<close>; \<open>response_identify\<close> is its optional field.\<close>

datatype meta_type = REQUEST | RESPONSE

record meta =
  m_type :: meta_type
  m_identify :: u64
  m_response_identify :: "u64 option"
  m_content :: string

text \<open>
  \<open>boost::lexical_cast\<close> in both directions and the protobuf runtime for \<open>MetaData\<close>.
  \<open>parse_meta\<close> returns the answer of \<open>ParseFromArray\<close> with the message it leaves.
\<close>

record codec =
  lex_int :: "string \<Rightarrow> int option"         \<comment> \<open>\<open>lexical_cast< int >\<close>, None when it throws\<close>
  lex_str :: "nat \<Rightarrow> string"               \<comment> \<open>\<open>lexical_cast< string >\<close> of a size\<close>
  parse_meta :: "string \<Rightarrow> bool \<times> meta"
  ser_meta :: "meta \<Rightarrow> string option"      \<comment> \<open>\<open>AppendToString\<close> on an empty string\<close>

definition isdigit :: "char \<Rightarrow> bool" where
  "isdigit ch \<longleftrightarrow> (48::nat) \<le> of_char ch \<and> (of_char ch :: nat) \<le> 57"

definition dec_value :: "string \<Rightarrow> nat" where
  "dec_value = foldl (\<lambda>v ch. 10 * v + (of_char ch - 48)) 0"

text \<open>
  What the documentation of the two libraries promises: \<open>lexical_cast< int >\<close> reads a
  decimal numeral and throws when it does not fit an \<open>int\<close>, the numeral of a number reads
  back as the number, and a serialised message is not empty (it holds the two required
  scalar fields) and parses back to itself.
\<close>

definition codec_ok :: "codec \<Rightarrow> bool" where
  "codec_ok C \<longleftrightarrow>
     (\<forall>s. s \<noteq> [] \<longrightarrow> list_all isdigit s \<longrightarrow>
        lex_int C s = (if int (dec_value s) \<le> INT_MAX then Some (int (dec_value s)) else None)) \<and>
     (\<forall>n. lex_str C n \<noteq> [] \<and> list_all isdigit (lex_str C n) \<and> dec_value (lex_str C n) = n) \<and>
     (\<forall>m s. ser_meta C m = Some s \<longrightarrow> s \<noteq> [] \<and> parse_meta C s = (True, m))"

lemma codec_okD:
  assumes "codec_ok C"
  shows "s \<noteq> [] \<Longrightarrow> list_all isdigit s \<Longrightarrow>
      lex_int C s = (if int (dec_value s) \<le> INT_MAX then Some (int (dec_value s)) else None)"
    and "lex_str C n \<noteq> []" "list_all isdigit (lex_str C n)" "dec_value (lex_str C n) = n"
    and "ser_meta C m = Some t \<Longrightarrow> t \<noteq> []" "ser_meta C m = Some t \<Longrightarrow> parse_meta C t = (True, m)"
  using assms by (auto simp: codec_ok_def)

section \<open>Buffer\<close>

text \<open>
  \<open>b_t\<close> is \<open>None\<close> for the null pointer; a cell is \<open>None\<close> while it is not initialised.
  \<open>b_capacity\<close> and the fill count \<open>b_size\<close> are \<open>int\<close>s. \<open>new T[n]\<close> throws for a negative \<open>n\<close>.
\<close>

record buffer =
  b_t :: "char option list option"
  b_size :: int
  b_capacity :: int

definition buf_new :: buffer where
  "buf_new = \<lparr>b_t = None, b_size = 0, b_capacity = 0\<rparr>"

definition buf_clear :: "buffer \<Rightarrow> buffer" where
  "buf_clear b = b\<lparr>b_size := 0, b_capacity := 0, b_t := None\<rparr>"

definition buf_reserve :: "int \<Rightarrow> buffer \<Rightarrow> buffer outcome" where
  "buf_reserve capacity b =
     bind_outcome (i32 (capacity + 1)) (\<lambda>n.
     if n < 0 then Inl BadAlloc
     else Inr (b\<lparr>b_size := 0, b_t := Some (replicate (nat n) None), b_capacity := capacity\<rparr>))"

definition buf_inc_size :: "int \<Rightarrow> buffer \<Rightarrow> buffer outcome" where
  "buf_inc_size n b = bind_outcome (i32 (b_size b + n)) (\<lambda>s. Inr (b\<lparr>b_size := s\<rparr>))"

text \<open>\<open>*data() = t\<close> writes the cell \<open>t_.get() + b_size\<close>.\<close>

definition buf_push_back :: "char \<Rightarrow> buffer \<Rightarrow> buffer outcome" where
  "buf_push_back ch b =
     (case b_t b of
        None \<Rightarrow> Inl NullDeref
      | Some cells \<Rightarrow>
          if b_size b < 0 \<or> int (length cells) \<le> b_size b then Inl OutOfBounds
          else buf_inc_size 1 (b\<lparr>b_t := Some (cells[nat (b_size b) := Some ch])\<rparr>))"

definition buf_size_left :: "buffer \<Rightarrow> int outcome" where
  "buf_size_left b = i32 (b_capacity b - b_size b)"

definition buf_full :: "buffer \<Rightarrow> bool outcome" where
  "buf_full b = bind_outcome (buf_size_left b) (\<lambda>n. Inr (n = 0))"

text \<open>The \<open>n\<close> bytes at \<open>content()\<close>, as a reader of the array sees them.\<close>

definition buf_read :: "int \<Rightarrow> buffer \<Rightarrow> string outcome" where
  "buf_read n b =
     (if n = 0 then Inr []
      else case b_t b of
        None \<Rightarrow> Inl NullDeref
      | Some cells \<Rightarrow>
          if n < 0 \<or> int (length cells) < n \<or> None \<in> set (take (nat n) cells) then Inl OutOfBounds
          else Inr (map the (take (nat n) cells)))"

section \<open>EncodeMessage\<close>

text \<open>
  The two strings come from \<open>new\<close>; \<open>a\<close> is the address of the content and \<open>Suc a\<close> that
  of the header. A message that does not serialise gives the pair of null pointers.
\<close>

type_synonym encode_data = "cstr option \<times> cstr option"

definition encode_message :: "codec \<Rightarrow> nat \<Rightarrow> meta \<Rightarrow> encode_data" where
  "encode_message C a m =
     (case ser_meta C m of
        None \<Rightarrow> (None, None)
      | Some content \<Rightarrow>
          (Some \<lparr>cs_addr = Suc a, cs_text = lex_str C (length content) @ '':''\<rparr>,
           Some \<lparr>cs_addr = a, cs_text = content\<rparr>))"

section \<open>ProtobufDecoder\<close>

datatype dec_state = Start | Length | Content | End

datatype tribool = Tru | Fls | Indeterminate

text \<open>
  The constructor only sets \<open>mState\<close>: \<open>d_length\<close> is \<open>None\<close> until \<open>length_\<close> is
  written, and \<open>m0\<close> is the default message.
\<close>

record decoder =
  d_state :: dec_state
  d_length_store :: string
  d_length :: "int option"
  d_content :: buffer
  d_meta :: meta

definition dec_new :: "meta \<Rightarrow> decoder" where
  "dec_new m0 = \<lparr>d_state = Start, d_length_store = [], d_length = None, d_content = buf_new, d_meta = m0\<rparr>"

definition dec_reset :: "decoder \<Rightarrow> decoder" where
  "dec_reset d = d\<lparr>d_state := Start, d_length_store := [], d_length := Some 0,
     d_content := buf_clear (d_content d)\<rparr>"

text \<open>The tests on the parsed message, at the end of the case \<open>Content\<close>.\<close>

definition meta_acceptable :: "meta \<Rightarrow> bool" where
  "meta_acceptable m \<longleftrightarrow>
     \<not> (m_type m = REQUEST \<and> m_response_identify m = None) \<and> m_content m \<noteq> []"

definition consume_content :: "codec \<Rightarrow> char \<Rightarrow> decoder \<Rightarrow> (tribool \<times> decoder) outcome" where
  "consume_content C input d =
     bind_outcome (buf_full (d_content d)) (\<lambda>full.
     if full then Inr (Fls, d)
     else bind_outcome (buf_push_back input (d_content d)) (\<lambda>b.
       bind_outcome (buf_full b) (\<lambda>full.
       if full then
         bind_outcome (buf_read (b_capacity b) b) (\<lambda>bytes.
         let (ok, m) = parse_meta C bytes; d' = d\<lparr>d_content := b, d_meta := m\<rparr>
         in if \<not> ok then Inr (Fls, d')
            else if m_type m = REQUEST \<and> m_response_identify m = None then Inr (Fls, d')
            else if m_content m = [] then Inr (Fls, d')
            else Inr (Tru, d'\<lparr>d_state := End\<rparr>))
       else Inr (Indeterminate, d\<lparr>d_content := b\<rparr>))))"

definition dec_consume :: "codec \<Rightarrow> char \<Rightarrow> decoder \<Rightarrow> (tribool \<times> decoder) outcome" where
  "dec_consume C input d =
     (if d_state d = End \<or> d_state d = Start then
        if \<not> isdigit input then Inr (Fls, d)
        else Inr (Indeterminate, d\<lparr>d_state := Length, d_length_store := [input]\<rparr>)
      else if d_state d = Length then
        if input = CHR '':'' then
          (case lex_int C (d_length_store d) of
             None \<Rightarrow> Inl BadLexicalCast
           | Some n \<Rightarrow>
               bind_outcome (buf_reserve n (d_content d)) (\<lambda>b.
               Inr (Indeterminate, d\<lparr>d_state := Content, d_length := Some n, d_content := b\<rparr>)))
        else if \<not> isdigit input then Inr (Fls, d)
        else Inr (Indeterminate, d\<lparr>d_length_store := d_length_store d @ [input]\<rparr>)
      else consume_content C input d)"

text \<open>\<open>Decode\<close>: the result, the input left and the decoder.\<close>

fun dec_decode :: "codec \<Rightarrow> string \<Rightarrow> decoder \<Rightarrow> (tribool \<times> string \<times> decoder) outcome" where
  "dec_decode C [] d = Inr (Indeterminate, [], d)"
| "dec_decode C (ch # xs) d =
     bind_outcome (dec_consume C ch d) (\<lambda>(r, d').
     if r = Indeterminate then dec_decode C xs d' else Inr (r, xs, d'))"

lemma dec_decode_shorter:
  "dec_decode C xs d = Inr (r, rest, d') \<Longrightarrow> xs \<noteq> [] \<Longrightarrow> length rest < length xs"
proof (induction C xs d rule: dec_decode.induct)
  case (2 C ch xs d)
  then show ?case
    by (cases "xs = []") (fastforce split: if_splits)+
qed simp

section \<open>RawConnectionImpl::Decode\<close>

text \<open>Calls that answer whether to go on: the second runs only after a true answer.\<close>

definition when_ok :: "(bool \<times> 'a) outcome \<Rightarrow> ('a \<Rightarrow> (bool \<times> 'a) outcome) \<Rightarrow> (bool \<times> 'a) outcome" where
  "when_ok r f = bind_outcome r (\<lambda>(ok, x). if ok then f x else Inr (False, x))"

lemma when_ok_simps [simp]:
  "when_ok (Inl e) f = Inl e"
  "when_ok (Inr (True, x)) f = f x"
  "when_ok (Inr (False, x)) f = Inr (False, x)"
  "when_ok (Inr t) f = (if fst t then f (snd t) else Inr (False, snd t))"
  by (auto simp: when_ok_def split: prod.splits)

lemma when_ok_assoc: "when_ok (when_ok r f) g = when_ok r (\<lambda>x. when_ok (f x) g)"
  by (auto simp: when_ok_def bind_outcome_def split: sum.splits)

text \<open>
  \<open>Handle\<close> is the virtual method of the connection, over a state of its own; the result is
  the answer of \<open>Decode\<close> with the decoder and that state.
\<close>

type_synonym 's handler = "decoder \<Rightarrow> 's \<Rightarrow> (bool \<times> 's) outcome"

function raw_decode ::
  "codec \<Rightarrow> 's handler \<Rightarrow> string \<Rightarrow> decoder \<times> 's \<Rightarrow> (bool \<times> decoder \<times> 's) outcome" where
  "raw_decode C handle bytes (d, s) =
     (if bytes = [] then Inr (True, d, s)
      else
        (case dec_decode C bytes d of
           Inl e \<Rightarrow> Inl e
         | Inr (r, rest, d') \<Rightarrow>
             if r = Tru then
               bind_outcome (handle d' s) (\<lambda>(ok, s').
               if \<not> ok then Inr (False, d', s')
               else raw_decode C handle rest (dec_reset d', s'))
             else if r = Fls then Inr (False, d', s)
             else Inr (True, d', s)))"
  by pat_completeness auto
termination
  by (relation "measure (\<lambda>(C, h, bytes, ds). length bytes)") (auto dest: dec_decode_shorter)

declare raw_decode.simps [simp del]


section \<open>The buffer holds the bytes pushed into it\<close>

definition buf_holds :: "nat \<Rightarrow> string \<Rightarrow> buffer \<Rightarrow> bool" where
  "buf_holds n bs b \<longleftrightarrow>
     (\<exists>cells. b_t b = Some cells \<and> length cells = Suc n \<and> take (length bs) cells = map Some bs)
     \<and> b_capacity b = int n \<and> b_size b = int (length bs) \<and> length bs \<le> n \<and> int n < INT_MAX"

lemma buf_reserve_holds:
  assumes "0 \<le> n" and "n < INT_MAX"
  shows "\<exists>b'. buf_reserve n b = Inr b' \<and> buf_holds (nat n) [] b'"
  using assms by (simp add: buf_reserve_def buf_holds_def i32_def int_range_defs nat_add_distrib)

lemma buf_reserve_overflow: "buf_reserve INT_MAX b = Inl SignedOverflow"
  by (simp add: buf_reserve_def i32_def int_range_defs)

lemma buf_full_iff: "buf_holds n bs b \<Longrightarrow> buf_full b = Inr (length bs = n)"
  by (auto simp: buf_holds_def buf_full_def buf_size_left_def i32_def int_range_defs)

lemma buf_push_back_holds:
  assumes "buf_holds n bs b" and "length bs < n"
  shows "\<exists>b'. buf_push_back ch b = Inr b' \<and> buf_holds n (bs @ [ch]) b'"
proof -
  from assms obtain cells where c: "b_t b = Some cells" "length cells = Suc n"
      "take (length bs) cells = map Some bs"
    by (auto simp: buf_holds_def)
  have "take (Suc (length bs)) (cells[length bs := Some ch]) = map Some (bs @ [ch])"
    using assms(2) c by (simp add: take_Suc_conv_app_nth)
  then show ?thesis
    using assms c
    by (auto simp: buf_holds_def buf_push_back_def buf_inc_size_def i32_def int_range_defs)
qed

lemma buf_read_holds:
  assumes "buf_holds n bs b" and "length bs = n"
  shows "buf_read (b_capacity b) b = Inr bs"
  using assms by (auto simp: buf_holds_def buf_read_def)

section \<open>The decoder as a specification of frames\<close>

datatype verdict = More | Reject | Accept meta string | Crash fault

fun verdict_of :: "(tribool \<times> string \<times> decoder) outcome \<Rightarrow> verdict" where
  "verdict_of (Inl e) = Crash e"
| "verdict_of (Inr (Indeterminate, rest, d)) = More"
| "verdict_of (Inr (Fls, rest, d)) = Reject"
| "verdict_of (Inr (Tru, rest, d)) = Accept (d_meta d) rest"

definition judge :: "codec \<Rightarrow> string \<Rightarrow> string \<Rightarrow> verdict" where
  "judge C body rest =
     (case parse_meta C body of (ok, m) \<Rightarrow>
        if ok \<and> meta_acceptable m then Accept m rest else Reject)"

definition body_spec :: "codec \<Rightarrow> nat \<Rightarrow> string \<Rightarrow> verdict" where
  "body_spec C n body =
     (if body = [] then More
      else if n = 0 then Reject
      else if length body < n then More
      else judge C (take n body) (drop n body))"

definition frame_spec :: "codec \<Rightarrow> string \<Rightarrow> verdict" where
  "frame_spec C xs =
     (let ds = takeWhile isdigit xs; after = dropWhile isdigit xs; n = dec_value ds
      in if xs = [] then More
         else if ds = [] then Reject
         else if after = [] then More
         else if hd after \<noteq> CHR '':'' then Reject
         else if INT_MAX < int n then Crash BadLexicalCast
         else if int n = INT_MAX then Crash SignedOverflow
         else body_spec C n (tl after))"

lemma colon_not_digit [simp]: "\<not> isdigit CHR '':''"
  by (simp add: isdigit_def)

lemma consume_content_holds:
  assumes "d_state d = Content" and "buf_holds n bs (d_content d)" and "length bs < n"
  shows "\<exists>b. buf_holds n (bs @ [ch]) b \<and> dec_consume C ch d =
    (if Suc (length bs) < n then Inr (Indeterminate, d\<lparr>d_content := b\<rparr>)
     else case parse_meta C (bs @ [ch]) of (ok, m) \<Rightarrow>
       if ok \<and> meta_acceptable m then Inr (Tru, d\<lparr>d_content := b, d_meta := m, d_state := End\<rparr>)
       else Inr (Fls, d\<lparr>d_content := b, d_meta := m\<rparr>))"
proof -
  obtain b where b: "buf_push_back ch (d_content d) = Inr b" "buf_holds n (bs @ [ch]) b"
    using buf_push_back_holds [OF assms(2,3)] by blast
  show ?thesis
    using assms b buf_full_iff [OF assms(2)] buf_full_iff [OF b(2)] buf_read_holds [OF b(2)]
    by (intro exI [of _ b])
      (auto simp: dec_consume_def consume_content_def Let_def meta_acceptable_def split: prod.splits)
qed

lemma decode_content:
  assumes "d_state d = Content" and "buf_holds n bs (d_content d)" and "length bs < n"
  shows "verdict_of (dec_decode C xs d) =
    (if length bs + length xs < n then More
     else judge C (bs @ take (n - length bs) xs) (drop (n - length bs) xs))"
  using assms
proof (induction xs arbitrary: bs d)
  case Nil
  then show ?case by simp
next
  case (Cons ch xs)
  obtain b where b: "buf_holds n (bs @ [ch]) b" and step: "dec_consume C ch d =
    (if Suc (length bs) < n then Inr (Indeterminate, d\<lparr>d_content := b\<rparr>)
     else case parse_meta C (bs @ [ch]) of (ok, m) \<Rightarrow>
       if ok \<and> meta_acceptable m then Inr (Tru, d\<lparr>d_content := b, d_meta := m, d_state := End\<rparr>)
       else Inr (Fls, d\<lparr>d_content := b, d_meta := m\<rparr>))"
    using consume_content_holds [OF Cons.prems] by blast
  show ?case
  proof (cases "Suc (length bs) < n")
    case True
    moreover have "n - length bs = Suc (n - Suc (length bs))"
      using True by simp
    ultimately show ?thesis
      using step Cons.IH [of "d\<lparr>d_content := b\<rparr>" "bs @ [ch]"] b Cons.prems(1) by simp
  next
    case False
    with Cons.prems(3) have "n = Suc (length bs)" by simp
    with step show ?thesis
      by (auto simp: judge_def split: prod.splits)
  qed
qed

lemma decode_body:
  assumes "d_state d = Content" and "buf_holds n [] (d_content d)"
  shows "verdict_of (dec_decode C xs d) = body_spec C n xs"
proof (cases "n = 0")
  case True
  with assms have "buf_full (d_content d) = Inr True"
    using buf_full_iff by fastforce
  with True assms(1) show ?thesis
    by (cases xs) (auto simp: body_spec_def dec_consume_def consume_content_def)
next
  case False
  with decode_content [OF assms] show ?thesis
    by (auto simp: body_spec_def)
qed

lemma decode_length:
  assumes "codec_ok C" and "d_state d = Length" and "d_length_store d \<noteq> []"
    and "list_all isdigit (d_length_store d)"
  shows "verdict_of (dec_decode C xs d) =
    (let ds = d_length_store d @ takeWhile isdigit xs; after = dropWhile isdigit xs; n = dec_value ds
      in if after = [] then More
         else if hd after \<noteq> CHR '':'' then Reject
         else if INT_MAX < int n then Crash BadLexicalCast
         else if int n = INT_MAX then Crash SignedOverflow
         else body_spec C n (tl after))"
  using assms(2-)
proof (induction xs arbitrary: d)
  case Nil
  then show ?case by simp
next
  case (Cons ch xs)
  show ?case
  proof (cases "ch = CHR '':''")
    case True
    let ?n = "dec_value (d_length_store d)"
    have lex: "lex_int C (d_length_store d) = (if int ?n \<le> INT_MAX then Some (int ?n) else None)"
      using codec_okD(1) [OF assms(1)] Cons.prems by blast
    consider (big) "INT_MAX < int ?n" | (max) "int ?n = INT_MAX" | (ok) "int ?n < INT_MAX"
      by linarith
    then show ?thesis
    proof cases
      case ok
      obtain b where b: "buf_reserve (int ?n) (d_content d) = Inr b" "buf_holds ?n [] b"
        using buf_reserve_holds [of "int ?n"] ok by auto
      have "verdict_of (dec_decode C xs (d\<lparr>d_state := Content, d_length := Some (int ?n), d_content := b\<rparr>))
          = body_spec C ?n xs"
        by (rule decode_body) (simp_all add: b(2))
      with True lex ok b Cons.prems show ?thesis
        by (simp add: dec_consume_def)
    qed (use True lex Cons.prems in \<open>simp_all add: dec_consume_def buf_reserve_overflow\<close>)
  next
    case False
    then show ?thesis
      using Cons.prems Cons.IH [of "d\<lparr>d_length_store := d_length_store d @ [ch]\<rparr>"]
      by (auto simp: dec_consume_def Let_def)
  qed
qed

lemma decode_spec:
  assumes "codec_ok C" and "d_state d = Start \<or> d_state d = End"
  shows "verdict_of (dec_decode C xs d) = frame_spec C xs"
proof (cases xs)
  case Nil
  then show ?thesis by (simp add: frame_spec_def)
next
  case (Cons ch ys)
  show ?thesis
  proof (cases "isdigit ch")
    case True
    with assms(2) Cons show ?thesis
      using decode_length [OF assms(1), of "d\<lparr>d_state := Length, d_length_store := [ch]\<rparr>" ys]
      by (auto simp: frame_spec_def dec_consume_def Let_def)
  next
    case False
    with assms(2) Cons show ?thesis by (auto simp: frame_spec_def dec_consume_def)
  qed
qed


text \<open>
  C21. From a decoder that awaits a frame (new, reset or just past a frame), \<open>Decode\<close> answers
  exactly as the specification of the wire format says, whatever the bytes: a frame is
  accepted, with its message and the bytes after it, when it is a decimal length, a colon and
  that many bytes that parse to an acceptable message; a proper prefix asks for more;
  everything else is rejected, and a length of \<open>INT_MAX\<close> or more does not return.
\<close>

theorem decode_implements_frame_spec:
  assumes "codec_ok C" and "d_state d = Start \<or> d_state d = End"
  shows "verdict_of (dec_decode C xs d) = frame_spec C xs"
  using assms by (rule decode_spec)

section \<open>Reads may cut the stream anywhere\<close>

lemma dec_decode_append:
  "dec_decode C (xs @ ys) d = bind_outcome (dec_decode C xs d) (\<lambda>(r, rest, d').
     if r = Indeterminate then dec_decode C ys d' else Inr (r, rest @ ys, d'))"
proof (induction C xs d rule: dec_decode.induct)
  case (2 C ch xs d)
  then show ?case
    by (cases "dec_consume C ch d") auto
qed simp

lemma dec_decode_indeterminate: "dec_decode C xs d = Inr (Indeterminate, rest, d') \<Longrightarrow> rest = []"
  by (induction C xs d rule: dec_decode.induct) (auto split: if_splits)

lemma raw_decode_app:
  "raw_decode C handle (xs @ ys) (d, s) =
     when_ok (raw_decode C handle xs (d, s)) (raw_decode C handle ys)"
proof (induction xs arbitrary: d s rule: length_induct)
  case (1 bytes)
  show ?case
  proof (cases "bytes = []")
    case True
    then show ?thesis by (simp add: raw_decode.simps [of C handle "[]"])
  next
    case False
    show ?thesis
    proof (cases "dec_decode C bytes d")
      case (Inl e)
      with False show ?thesis
        by (simp add: raw_decode.simps [of C handle bytes] dec_decode_append
            raw_decode.simps [of C handle "bytes @ ys"])
    next
      case (Inr q)
      obtain r rest d' where q: "q = (r, rest, d')" by (cases q)
      note step = Inr [unfolded q]
      have app: "dec_decode C (bytes @ ys) d =
          (if r = Indeterminate then dec_decode C ys d' else Inr (r, rest @ ys, d'))"
        by (simp add: dec_decode_append step)
      show ?thesis
      proof (cases r)
        case Tru
        show ?thesis
        proof (cases "handle d' s")
          case (Inl e)
          with False Tru step app show ?thesis
            by (simp add: raw_decode.simps [of C handle bytes]
                raw_decode.simps [of C handle "bytes @ ys"])
        next
          case (Inr t)
          obtain ok s' where t: "t = (ok, s')" by (cases t)
          have "ok \<Longrightarrow> raw_decode C handle (rest @ ys) (dec_reset d', s') =
              when_ok (raw_decode C handle rest (dec_reset d', s')) (raw_decode C handle ys)"
            using 1 dec_decode_shorter [OF step False] by blast
          with False Tru step app Inr t show ?thesis
            by (simp add: raw_decode.simps [of C handle bytes]
                raw_decode.simps [of C handle "bytes @ ys"])
        qed
      next
        case Fls
        with False step app show ?thesis
          by (simp add: raw_decode.simps [of C handle bytes]
              raw_decode.simps [of C handle "bytes @ ys"])
      next
        case Indeterminate
        with step have "rest = []" using dec_decode_indeterminate by blast
        with False step app Indeterminate show ?thesis
          by (simp add: raw_decode.simps [of C handle bytes]
              raw_decode.simps [of C handle "bytes @ ys"] raw_decode.simps [of C handle ys])
      qed
    qed
  qed
qed

text \<open>The reads of a connection, one call of \<open>Decode\<close> each, up to the first that fails.\<close>

fun feed :: "codec \<Rightarrow> 's handler \<Rightarrow> string list \<Rightarrow> decoder \<times> 's \<Rightarrow> (bool \<times> decoder \<times> 's) outcome" where
  "feed C handle [] x = Inr (True, x)"
| "feed C handle (c # cs) x = when_ok (raw_decode C handle c x) (feed C handle cs)"

lemma feed_eq_raw_decode: "feed C handle cs x = raw_decode C handle (concat cs) x"
proof (induction cs arbitrary: x)
  case Nil
  then show ?case by (cases x) (simp add: raw_decode.simps [of C handle "[]"])
next
  case (Cons c cs)
  have "feed C handle cs = raw_decode C handle (concat cs)"
    using Cons.IH by (rule ext)
  then show ?case by (cases x) (simp add: raw_decode_app)
qed

text \<open>
  Chunking does not matter: however the bytes of a connection are cut into reads, the calls
  of \<open>Decode\<close> do to the decoder and to the handlers' state exactly what one call on all
  the bytes does, and fail exactly when it fails.
\<close>

theorem reads_may_cut_anywhere:
  "feed C handle chunks x = raw_decode C handle (concat chunks) x"
  by (rule feed_eq_raw_decode)

section \<open>Frames are delivered once and in order\<close>

definition frame_of :: "codec \<Rightarrow> meta \<Rightarrow> string" where
  "frame_of C m =
     (case encode_message C 0 m of
        (Some header, Some content) \<Rightarrow> cs_text header @ cs_text content
      | _ \<Rightarrow> [])"

text \<open>A message that a peer may send: it serialises, to less than \<open>INT_MAX\<close> bytes.\<close>

definition sendable :: "codec \<Rightarrow> meta \<Rightarrow> bool" where
  "sendable C m \<longleftrightarrow> meta_acceptable m \<and>
     (\<exists>s. ser_meta C m = Some s \<and> int (length s) < INT_MAX)"

lemma takeWhile_frame:
  "list_all P ds \<Longrightarrow> \<not> P x \<Longrightarrow> takeWhile P (ds @ x # ys) = ds \<and> dropWhile P (ds @ x # ys) = x # ys"
  by (induction ds) auto

lemma frame_spec_frame:
  assumes "codec_ok C" and "sendable C m"
  shows "frame_spec C (frame_of C m @ rest) = Accept m rest"
proof -
  obtain s where s: "ser_meta C m = Some s" "int (length s) < INT_MAX" "meta_acceptable m"
    using assms(2) by (auto simp: sendable_def)
  note ok = codec_okD [OF assms(1)]
  have f: "frame_of C m @ rest = lex_str C (length s) @ CHR '':'' # (s @ rest)"
    using s by (simp add: frame_of_def encode_message_def)
  have "takeWhile isdigit (frame_of C m @ rest) = lex_str C (length s) \<and>
      dropWhile isdigit (frame_of C m @ rest) = CHR '':'' # (s @ rest)"
    unfolding f by (rule takeWhile_frame) (simp_all add: ok(3))
  moreover have "s \<noteq> []" "parse_meta C s = (True, m)"
    using ok(5,6) s(1) by blast+
  ultimately show ?thesis
    using s ok(2-4) [of "length s"]
    by (simp add: frame_spec_def body_spec_def judge_def f)
qed

text \<open>
  Round trip of one message: the bytes \<open>EncodeMessage\<close> writes, whatever follows them,
  make \<open>Decode\<close> answer true with the message that was sent, and leave what follows.
\<close>

theorem encode_decode_roundtrip:
  assumes "codec_ok C" and "sendable C m" and "d_state d = Start \<or> d_state d = End"
  shows "\<exists>d'. dec_decode C (frame_of C m @ rest) d = Inr (Tru, rest, d') \<and> d_meta d' = m"
proof -
  have "verdict_of (dec_decode C (frame_of C m @ rest) d) = Accept m rest"
    using frame_spec_frame [OF assms(1,2)] decode_spec [OF assms(1,3)] by simp
  then show ?thesis
    by (cases "dec_decode C (frame_of C m @ rest) d" rule: verdict_of.cases) auto
qed

fun deliver :: "(meta \<Rightarrow> 's \<Rightarrow> (bool \<times> 's) outcome) \<Rightarrow> meta list \<Rightarrow> 's \<Rightarrow> (bool \<times> 's) outcome" where
  "deliver g [] s = Inr (True, s)"
| "deliver g (m # ms) s =
     when_ok (g m s) (deliver g ms)"


lemma raw_decode_frame:
  assumes "codec_ok C" and "sendable C m" and "d_state d = Start \<or> d_state d = End"
  shows "\<exists>d'. d_meta d' = m \<and> raw_decode C handle (frame_of C m @ rest) (d, s) =
    when_ok (bind_outcome (handle d' s) (\<lambda>(ok, s'). Inr (ok, if ok then dec_reset d' else d', s')))
      (raw_decode C handle rest)"
proof -
  have ne: "frame_of C m @ rest \<noteq> []"
    using frame_spec_frame [OF assms(1,2), of "[]"] by (auto simp: frame_spec_def)
  have "verdict_of (dec_decode C (frame_of C m @ rest) d) = Accept m rest"
    using frame_spec_frame [OF assms(1,2)] decode_spec [OF assms(1,3)] by simp
  then obtain d' where d': "dec_decode C (frame_of C m @ rest) d = Inr (Tru, rest, d')" "d_meta d' = m"
    by (cases "dec_decode C (frame_of C m @ rest) d" rule: verdict_of.cases) auto
  with ne show ?thesis
    by (intro exI [of _ d'])
      (cases "handle d' s"; auto simp: raw_decode.simps [of C handle "frame_of C m @ rest"])
qed

lemma raw_decode_frames:
  assumes "codec_ok C" and "\<forall>m \<in> set ms. sendable C m" and "d_state d = Start \<or> d_state d = End"
  shows "map_sum id (\<lambda>(ok, d', s'). (ok, s'))
      (raw_decode C (\<lambda>d. g (d_meta d)) (concat (map (frame_of C) ms)) (d, s)) = deliver g ms s"
  using assms(2,3)
proof (induction ms arbitrary: d s)
  case Nil
  then show ?case by (simp add: raw_decode.simps [of C _ "[]"])
next
  case (Cons m ms)
  have "sendable C m" using Cons.prems(1) by simp
  from raw_decode_frame [OF assms(1) this Cons.prems(2), of "\<lambda>d. g (d_meta d)"
      "concat (map (frame_of C) ms)" s]
  obtain d' where d': "d_meta d' = m"
    and step: "raw_decode C (\<lambda>d. g (d_meta d)) (concat (map (frame_of C) (m # ms))) (d, s) =
      when_ok (bind_outcome (g m s) (\<lambda>(ok, s'). Inr (ok, if ok then dec_reset d' else d', s')))
        (raw_decode C (\<lambda>d. g (d_meta d)) (concat (map (frame_of C) ms)))"
    by auto
  have "d_state (dec_reset d') = Start \<or> d_state (dec_reset d') = End"
    by (simp add: dec_reset_def)
  with Cons step show ?case
    by (cases "g m s") auto
qed

text \<open>
  C13. A stream of messages sent with \<open>EncodeMessage\<close>, cut into reads anywhere, reaches the
  handler once per message and in the order of sending, up to the first message it refuses.
\<close>

theorem stream_delivered_in_order:
  assumes "codec_ok C" and "\<forall>m \<in> set ms. sendable C m" and "d_state d = Start \<or> d_state d = End"
    and "concat chunks = concat (map (frame_of C) ms)"
  shows "map_sum id (\<lambda>(ok, d', s'). (ok, s')) (feed C (\<lambda>d. g (d_meta d)) chunks (d, s))
       = deliver g ms s"
  using raw_decode_frames [OF assms(1-3)] by (simp add: feed_eq_raw_decode assms(4))

section \<open>No input makes the decoder leave its buffer\<close>

definition dec_inv :: "decoder \<Rightarrow> bool" where
  "dec_inv d \<longleftrightarrow>
     (d_state d = Length \<longrightarrow> d_length_store d \<noteq> [] \<and> list_all isdigit (d_length_store d)) \<and>
     (d_state d = Content \<longrightarrow> (\<exists>n bs. buf_holds n bs (d_content d)))"

definition length_fault :: "fault \<Rightarrow> bool" where
  "length_fault e \<longleftrightarrow> e = BadLexicalCast \<or> e = SignedOverflow"

lemma consume_safe:
  assumes "codec_ok C" and "dec_inv d"
  shows "case dec_consume C ch d of Inl e \<Rightarrow> length_fault e | Inr (r, d') \<Rightarrow> dec_inv d'"
proof (cases "d_state d")
  case Length
  with assms(2) have st: "d_length_store d \<noteq> []" "list_all isdigit (d_length_store d)"
    by (auto simp: dec_inv_def)
  let ?n = "dec_value (d_length_store d)"
  have lex: "lex_int C (d_length_store d) = (if int ?n \<le> INT_MAX then Some (int ?n) else None)"
    using codec_okD(1) [OF assms(1) st] .
  show ?thesis
  proof (cases "int ?n < INT_MAX")
    case True
    then obtain b where "buf_reserve (int ?n) (d_content d) = Inr b" "buf_holds ?n [] b"
      using buf_reserve_holds [of "int ?n"] by auto
    with Length lex True st show ?thesis
      by (auto simp: dec_consume_def dec_inv_def)
  next
    case False
    then have "int ?n = INT_MAX \<or> INT_MAX < int ?n" by linarith
    with Length lex st show ?thesis
      by (auto simp: dec_consume_def dec_inv_def length_fault_def buf_reserve_overflow)
  qed
next
  case Content
  with assms(2) obtain n bs where h: "buf_holds n bs (d_content d)" by (auto simp: dec_inv_def)
  show ?thesis
  proof (cases "length bs = n")
    case True
    with Content h assms(2) show ?thesis
      using buf_full_iff [OF h] by (simp add: dec_consume_def consume_content_def)
  next
    case False
    with h have "length bs < n" by (auto simp: buf_holds_def)
    from consume_content_holds [OF Content h this, where C = C and ch = ch]
    obtain b where "buf_holds n (bs @ [ch]) b" "dec_consume C ch d =
      (if Suc (length bs) < n then Inr (Indeterminate, d\<lparr>d_content := b\<rparr>)
       else case parse_meta C (bs @ [ch]) of (ok, m) \<Rightarrow>
         if ok \<and> meta_acceptable m then Inr (Tru, d\<lparr>d_content := b, d_meta := m, d_state := End\<rparr>)
         else Inr (Fls, d\<lparr>d_content := b, d_meta := m\<rparr>))"
      by blast
    with Content show ?thesis
      by (cases "parse_meta C (bs @ [ch])") (auto simp: dec_inv_def)
  qed
qed (use assms(2) in \<open>auto simp: dec_consume_def dec_inv_def\<close>)

lemma decode_safe:
  assumes "codec_ok C" and "dec_inv d"
  shows "case dec_decode C xs d of Inl e \<Rightarrow> length_fault e | Inr (r, rest, d') \<Rightarrow> dec_inv d'"
  using assms(2)
proof (induction xs arbitrary: d)
  case (Cons ch xs)
  then show ?case
    using consume_safe [OF assms(1), of d ch] by (cases "dec_consume C ch d") auto
qed simp

lemma dec_reset_inv [simp]: "dec_inv (dec_reset d)"
  by (simp add: dec_inv_def dec_reset_def)

lemma dec_new_inv [simp]: "dec_inv (dec_new m0)"
  by (simp add: dec_inv_def dec_new_def)

lemma raw_decode_keeps:
  assumes "codec_ok C" and "dec_inv d" and "I s"
    and "\<And>d s. I s \<Longrightarrow> case handle d s of Inl e \<Rightarrow> F e | Inr (ok, s') \<Rightarrow> I s'"
  shows "case raw_decode C handle xs (d, s) of
      Inl e \<Rightarrow> length_fault e \<or> F e | Inr (ok, d', s') \<Rightarrow> dec_inv d' \<and> I s'"
  using assms(2,3)
proof (induction xs arbitrary: d s rule: length_induct)
  case (1 xs)
  show ?case
  proof (cases "dec_decode C xs d")
    case (Inl e)
    with 1(2,3) decode_safe [OF assms(1), of d xs] show ?thesis
      by (auto simp: raw_decode.simps [of C handle xs])
  next
    case (Inr q)
    obtain r rest d' where q: "q = (r, rest, d')" by (cases q)
    note step = Inr [unfolded q]
    have inv: "dec_inv d'" using decode_safe [OF assms(1) 1(2), of xs] step by simp
    show ?thesis
    proof (cases "handle d' s")
      case (Inl e)
      with assms(4) [OF 1(3), of d'] step inv 1(2,3) show ?thesis
        by (auto simp: raw_decode.simps [of C handle xs])
    next
      case (Inr t)
      obtain ok s' where t: "t = (ok, s')" by (cases t)
      with Inr assms(4) [OF 1(3), of d'] have I: "I s'" by simp
      have "xs \<noteq> [] \<Longrightarrow> case raw_decode C handle rest (dec_reset d', s') of
          Inl e \<Rightarrow> length_fault e \<or> F e | Inr (ok, d', s') \<Rightarrow> dec_inv d' \<and> I s'"
        using 1(1) dec_decode_shorter [OF step] I by simp
      with step inv Inr t I 1(2,3) show ?thesis
        by (auto simp: raw_decode.simps [of C handle xs])
    qed
  qed
qed

lemma raw_decode_safe:
  assumes "codec_ok C" and "dec_inv d" and "\<And>d s. \<exists>t. handle d s = Inr t"
  shows "case raw_decode C handle xs (d, s) of Inl e \<Rightarrow> length_fault e | Inr (ok, d', s') \<Rightarrow> dec_inv d'"
proof -
  have "case handle d s of Inl e \<Rightarrow> False | Inr (ok, s') \<Rightarrow> True" for d s
    using assms(3) [of d s] by auto
  then have "case raw_decode C handle xs (d, s) of
      Inl e \<Rightarrow> length_fault e \<or> False | Inr (ok, d', s') \<Rightarrow> dec_inv d' \<and> True"
    by (intro raw_decode_keeps [OF assms(1,2)]) simp_all
  then show ?thesis by (auto split: sum.splits)
qed

text \<open>
  C39. Memory safety on any input: from a new decoder, whatever bytes arrive in whatever reads,
  \<open>Decode\<close> never writes or reads outside the content buffer, nor through its null pointer;
  the only faults are those of an announced length of \<open>INT_MAX\<close> or more. Reads that do
  not fail leave a decoder on which this holds again.
\<close>

theorem decoder_stays_in_bounds:
  assumes "codec_ok C" and "\<And>d s. \<exists>t. handle d s = Inr t"
  shows "case feed C handle chunks (dec_new m0, s) of
      Inl e \<Rightarrow> length_fault e | Inr (ok, d', s') \<Rightarrow> dec_inv d'"
  unfolding feed_eq_raw_decode by (rule raw_decode_safe [OF assms(1) dec_new_inv assms(2)])

text \<open>
  An announced length beyond \<open>INT_MAX\<close> throws out of \<open>Consume\<close>, and one of exactly
  \<open>INT_MAX\<close> overflows in \<open>reserve\<close>, whatever state of the handlers: no frame of the peer
  that starts so is answered by a refusal.
\<close>

theorem huge_length_does_not_return:
  assumes "codec_ok C" and "list_all isdigit ds" and "INT_MAX \<le> int (dec_value ds)"
  shows "raw_decode C handle (ds @ '':'' @ rest) (dec_new m0, s) =
    Inl (if INT_MAX < int (dec_value ds) then BadLexicalCast else SignedOverflow)"
proof -
  have ne: "ds \<noteq> []" using assms(3) by (auto simp: INT_MAX_def dec_value_def)
  have "takeWhile isdigit (ds @ '':'' @ rest) = ds \<and>
      dropWhile isdigit (ds @ '':'' @ rest) = CHR '':'' # rest"
    using takeWhile_frame [OF assms(2) colon_not_digit] by simp
  with ne assms(3) have "frame_spec C (ds @ '':'' @ rest) =
      Crash (if INT_MAX < int (dec_value ds) then BadLexicalCast else SignedOverflow)"
    by (auto simp: frame_spec_def Let_def)
  then have "verdict_of (dec_decode C (ds @ '':'' @ rest) (dec_new m0)) =
      Crash (if INT_MAX < int (dec_value ds) then BadLexicalCast else SignedOverflow)"
    using decode_spec [OF assms(1), of "dec_new m0"] by (simp add: dec_new_def)
  then have "dec_decode C (ds @ '':'' @ rest) (dec_new m0) =
      Inl (if INT_MAX < int (dec_value ds) then BadLexicalCast else SignedOverflow)"
    by (cases "dec_decode C (ds @ '':'' @ rest) (dec_new m0)" rule: verdict_of.cases) auto
  with ne show ?thesis
    by (simp add: raw_decode.simps [of C handle "ds @ CHR '':'' # rest"])
qed

section \<open>An instance of the libraries\<close>

text \<open>A textual codec: the type, the two identifiers in decimal, and the content.\<close>

fun decimal :: "nat \<Rightarrow> string" where
  "decimal n = (if n < 10 then [] else decimal (n div 10)) @ [char_of (48 + n mod 10)]"

declare decimal.simps [simp del]

definition text_ser :: "meta \<Rightarrow> string" where
  "text_ser m = (case m_type m of REQUEST \<Rightarrow> CHR ''q'' | RESPONSE \<Rightarrow> CHR ''r'')
     # decimal (unat (m_identify m)) @ '';'' @
     (case m_response_identify m of None \<Rightarrow> '';'' | Some r \<Rightarrow> decimal (unat r) @ '';'') @ m_content m"

definition text_parse :: "string \<Rightarrow> bool \<times> meta" where
  "text_parse s =
     (let ty = (if hd s = CHR ''q'' then REQUEST else RESPONSE);
          a = takeWhile isdigit (tl s); s1 = drop 1 (dropWhile isdigit (tl s));
          b = takeWhile isdigit s1; s2 = drop 1 (dropWhile isdigit s1)
      in (s \<noteq> [] \<and> a \<noteq> [],
          \<lparr>m_type = ty, m_identify = of_nat (dec_value a),
           m_response_identify = (if b = [] then None else Some (of_nat (dec_value b))),
           m_content = s2\<rparr>))"

definition text_codec :: codec where
  "text_codec =
     \<lparr>lex_int = (\<lambda>s. if s \<noteq> [] \<and> list_all isdigit s \<and> int (dec_value s) \<le> INT_MAX
                then Some (int (dec_value s)) else None),
      lex_str = decimal, parse_meta = text_parse, ser_meta = (\<lambda>m. Some (text_ser m))\<rparr>"

lemma dec_value_snoc [simp]: "dec_value (xs @ [ch]) = 10 * dec_value xs + (of_char ch - 48)"
  by (simp add: dec_value_def)

lemma decimal_not_Nil [simp]: "decimal n \<noteq> []"
  by (subst decimal.simps) simp

lemma digit_char: "isdigit (char_of (48 + n mod 10 :: nat))"
  by (simp add: isdigit_def)

lemma decimal_digits [simp]: "list_all isdigit (decimal n)"
proof (induction n rule: decimal.induct)
  case (1 n)
  then show ?case
    by (subst decimal.simps) (simp add: digit_char)
qed

lemma decimal_value [simp]: "dec_value (decimal n) = n"
proof (induction n rule: decimal.induct)
  case (1 n)
  then show ?case
    by (subst decimal.simps) (auto simp: dec_value_def)
qed

lemma semicolon_not_digit [simp]: "\<not> isdigit CHR '';''"
  by (simp add: isdigit_def)

lemma text_parse_ser: "text_parse (text_ser m) = (True, m)"
proof -
  have 1: "takeWhile isdigit (decimal n @ CHR '';'' # xs) = decimal n"
    "dropWhile isdigit (decimal n @ CHR '';'' # xs) = CHR '';'' # xs" for n xs
    using takeWhile_frame [OF decimal_digits semicolon_not_digit] by blast+
  show ?thesis
    by (cases "m_response_identify m"; cases "m_type m")
      (simp_all add: text_parse_def text_ser_def 1 Let_def)
qed

lemma text_codec_ok [simp]: "codec_ok text_codec"
  by (simp add: codec_ok_def text_codec_def text_parse_ser) (simp add: text_ser_def)


section \<open>Witnesses\<close>

definition demo_request :: meta where
  "demo_request = \<lparr>m_type = REQUEST, m_identify = 7, m_response_identify = Some 9, m_content = ''hi''\<rparr>"

definition demo_response :: meta where
  "demo_response = \<lparr>m_type = RESPONSE, m_identify = 9, m_response_identify = None, m_content = ''ok''\<rparr>"

lemma demo_sendable [simp]: "sendable text_codec demo_request" "sendable text_codec demo_response"
  by (simp_all add: sendable_def meta_acceptable_def text_codec_def text_ser_def demo_request_def
      demo_response_def INT_MAX_def decimal.simps)

lemma dec_new_awaits [simp]: "d_state (dec_new m0) = Start"
  by (simp add: dec_new_def)

theorem decode_implements_frame_spec_witness:
  "verdict_of (dec_decode text_codec (frame_of text_codec demo_request @ ''9'') (dec_new demo_response))
     = Accept demo_request ''9''"
  by (subst decode_implements_frame_spec) (simp_all add: frame_spec_frame)

theorem encode_decode_roundtrip_witness:
  "\<exists>d'. dec_decode text_codec (frame_of text_codec demo_request @ ''9'') (dec_new demo_response)
      = Inr (Tru, ''9'', d') \<and> d_meta d' = demo_request"
  by (rule encode_decode_roundtrip) simp_all

theorem stream_delivered_in_order_witness:
  "map_sum id (\<lambda>(ok, d', s'). (ok, s'))
     (feed text_codec (\<lambda>d ms. Inr (True, ms @ [d_meta d]))
       [take 3 (frame_of text_codec demo_request),
        drop 3 (frame_of text_codec demo_request) @ frame_of text_codec demo_response]
       (dec_new demo_response, []))
   = Inr (True, [demo_request, demo_response])"
  using stream_delivered_in_order [of text_codec "[demo_request, demo_response]"
      "dec_new demo_response" "[take 3 (frame_of text_codec demo_request),
        drop 3 (frame_of text_codec demo_request) @ frame_of text_codec demo_response]"
      "\<lambda>m ms. Inr (True, ms @ [m])" "[]"]
  by (simp flip: append_assoc)

theorem decoder_stays_in_bounds_witness:
  "case feed text_codec (\<lambda>d n. Inr (True, n + 1)) [''12'', '':abc'', ''defg''] (dec_new demo_response, 0::nat)
     of Inl e \<Rightarrow> length_fault e | Inr (ok, d', s') \<Rightarrow> dec_inv d'"
  by (rule decoder_stays_in_bounds) auto

theorem huge_length_does_not_return_witness:
  "raw_decode text_codec (\<lambda>d n. Inr (True, n + 1)) (''2147483648'' @ '':'' @ ''x'')
     (dec_new demo_response, 0::nat) = Inl BadLexicalCast"
proof -
  have "raw_decode text_codec (\<lambda>d n. Inr (True, n + 1)) (''2147483648'' @ '':'' @ ''x'')
      (dec_new demo_response, 0::nat) =
    Inl (if INT_MAX < int (dec_value ''2147483648'') then BadLexicalCast else SignedOverflow)"
    by (rule huge_length_does_not_return) (simp_all add: isdigit_def dec_value_def INT_MAX_def)
  then show ?thesis by (simp add: dec_value_def INT_MAX_def)
qed

end
