(* ===== verification/Ref_Count.thy ===== *)
theory Ref_Count
  imports Tt_Prelude
begin

text \<open>
  \<open>src/core/Atomic.hpp\<close>: the reference count that \<open>boost::intrusive_ptr\<close> keeps inside
  \<open>RawConnectionStatus\<close> (\<open>src/core/network/RawConnection.hpp\<close>), shared by a connection, its
  completion handlers and the threads that run them.

  Threads interleave between the atomic instructions: copying a pointer is one, releasing it
  is two, the compare-and-swap and then either the destructor or the decrement. A state is the
  counted object with the threads, each with the pointers it holds and the place it has reached
  in a release; a schedule is a list of events, and an event whose thread is not at such a place
  does nothing. Handing a pointer to another thread, as posting a handler does, is an event too.

  The lemmas: the count is the number of pointers and of decrements still to come, whatever the
  schedule, so that no thread uses or deletes the object after it is gone; releases that do not
  overlap delete it with the last pointer; two that overlap may leave it for ever with count 0.
\<close>

section \<open>The counted object\<close>

record counted =
  rc_count :: u32     \<comment> \<open>\<open>mIntrusiveCount\<close>; the builtins wrap\<close>
  rc_freed :: bool

definition atomic_inc :: "u32 \<Rightarrow> u32" where
  "atomic_inc c = c + 1"

definition atomic_dec :: "u32 \<Rightarrow> u32" where
  "atomic_dec c = c - 1"

definition atomic_compare_and_swap :: "u32 \<Rightarrow> u32 \<Rightarrow> u32 \<Rightarrow> bool \<times> u32" where
  "atomic_compare_and_swap old new c = (if c = old then (True, new) else (False, c))"

definition counted_new :: counted where
  "counted_new = \<lparr>rc_count = 0, rc_freed = False\<rparr>"

definition intrusive_ptr_add_ref :: "counted \<Rightarrow> counted outcome" where
  "intrusive_ptr_add_ref x =
     (if rc_freed x then Inl UseAfterFree else Inr (x\<lparr>rc_count := atomic_inc (rc_count x)\<rparr>))"

text \<open>The condition of \<open>intrusive_ptr_release\<close>, and its two branches.\<close>

definition release_test :: "counted \<Rightarrow> (bool \<times> counted) outcome" where
  "release_test x =
     (if rc_freed x then Inl UseAfterFree
      else let (last, c) = atomic_compare_and_swap 1 0 (rc_count x) in Inr (last, x\<lparr>rc_count := c\<rparr>))"

definition delete_counted :: "counted \<Rightarrow> counted outcome" where
  "delete_counted x =
     (if rc_freed x then Inl DoubleFree
      else bind_outcome (check CheckFailed (rc_count x = 0)) (\<lambda>_. Inr (x\<lparr>rc_freed := True\<rparr>)))"

definition release_drop :: "counted \<Rightarrow> counted outcome" where
  "release_drop x =
     (if rc_freed x then Inl UseAfterFree else Inr (x\<lparr>rc_count := atomic_dec (rc_count x)\<rparr>))"

definition intrusive_ptr_release :: "counted \<Rightarrow> counted outcome" where
  "intrusive_ptr_release x =
     bind_outcome (release_test x) (\<lambda>(last, x). if last then delete_counted x else release_drop x)"

lemmas counted_defs = atomic_inc_def atomic_dec_def atomic_compare_and_swap_def
  intrusive_ptr_add_ref_def release_test_def delete_counted_def release_drop_def
  intrusive_ptr_release_def check_def

section \<open>Threads that share it\<close>

datatype release_point = Outside | Deleting | Dropping

record holder =
  h_refs :: nat               \<comment> \<open>the \<open>intrusive_ptr\<close>s of the thread\<close>
  h_point :: release_point

record ref_state =
  rs_object :: counted
  rs_threads :: "holder list"

datatype ref_event =
    Copy nat        \<comment> \<open>the thread copies a pointer it has\<close>
  | Pass nat nat    \<comment> \<open>the first thread hands a pointer to the second\<close>
  | Release nat     \<comment> \<open>it enters \<open>intrusive_ptr_release\<close> and has done the compare-and-swap\<close>
  | Finish nat      \<comment> \<open>it does the other half of the release\<close>

definition idle_holder :: "nat \<Rightarrow> ref_state \<Rightarrow> bool" where
  "idle_holder t s \<longleftrightarrow> t < length (rs_threads s) \<and> 0 < h_refs (rs_threads s ! t) \<and>
     h_point (rs_threads s ! t) = Outside"

definition set_thread :: "nat \<Rightarrow> nat \<Rightarrow> release_point \<Rightarrow> ref_state \<Rightarrow> ref_state" where
  "set_thread t n p s = s\<lparr>rs_threads := (rs_threads s)[t := \<lparr>h_refs = n, h_point = p\<rparr>]\<rparr>"

fun ref_step :: "ref_event \<Rightarrow> ref_state \<Rightarrow> ref_state outcome" where
  "ref_step (Copy t) s =
     (if idle_holder t s then
        bind_outcome (intrusive_ptr_add_ref (rs_object s)) (\<lambda>x.
          Inr (set_thread t (Suc (h_refs (rs_threads s ! t))) Outside (s\<lparr>rs_object := x\<rparr>)))
      else Inr s)"
| "ref_step (Pass t u) s =
     (if idle_holder t s \<and> u < length (rs_threads s) then
        let s = set_thread t (h_refs (rs_threads s ! t) - 1) Outside s in
        Inr (set_thread u (Suc (h_refs (rs_threads s ! u))) (h_point (rs_threads s ! u)) s)
      else Inr s)"
| "ref_step (Release t) s =
     (if idle_holder t s then
        bind_outcome (release_test (rs_object s)) (\<lambda>(last, x).
          Inr (set_thread t (h_refs (rs_threads s ! t) - 1) (if last then Deleting else Dropping)
                 (s\<lparr>rs_object := x\<rparr>)))
      else Inr s)"
| "ref_step (Finish t) s =
     (if t < length (rs_threads s) then
        let n = h_refs (rs_threads s ! t) in
        case h_point (rs_threads s ! t) of
          Outside \<Rightarrow> Inr s
        | Deleting \<Rightarrow> bind_outcome (delete_counted (rs_object s)) (\<lambda>x.
            Inr (set_thread t n Outside (s\<lparr>rs_object := x\<rparr>)))
        | Dropping \<Rightarrow> bind_outcome (release_drop (rs_object s)) (\<lambda>x.
            Inr (set_thread t n Outside (s\<lparr>rs_object := x\<rparr>)))
      else Inr s)"

definition ref_run :: "ref_event list \<Rightarrow> ref_state \<Rightarrow> ref_state outcome" where
  "ref_run = fold_outcome ref_step"

text \<open>\<open>mStatus( new RawConnectionStatus )\<close>: the first thread has the first pointer.\<close>

definition ref_start :: "nat \<Rightarrow> ref_state" where
  "ref_start n = \<lparr>rs_object = counted_new\<lparr>rc_count := atomic_inc (rc_count counted_new)\<rparr>,
     rs_threads = \<lparr>h_refs = 1, h_point = Outside\<rparr> # replicate n \<lparr>h_refs = 0, h_point = Outside\<rparr>\<rparr>"

section \<open>What is held\<close>

text \<open>Pointers, with the decrements still to come; and the destructors still to come.\<close>

definition thread_held :: "holder \<Rightarrow> nat" where
  "thread_held h = h_refs h + (if h_point h = Dropping then 1 else 0)"

definition thread_deleting :: "holder \<Rightarrow> nat" where
  "thread_deleting h = (if h_point h = Deleting then 1 else 0)"

definition refs_held :: "ref_state \<Rightarrow> nat" where
  "refs_held s = sum_list (map thread_held (rs_threads s))"

definition deletes_due :: "ref_state \<Rightarrow> nat" where
  "deletes_due s = sum_list (map thread_deleting (rs_threads s))"

definition ref_inv :: "ref_state \<Rightarrow> bool" where
  "ref_inv s \<longleftrightarrow> rc_count (rs_object s) = of_nat (refs_held s) \<and>
     (rc_freed (rs_object s) \<longrightarrow> refs_held s = 0 \<and> deletes_due s = 0) \<and>
     deletes_due s \<le> 1 \<and> (deletes_due s = 1 \<longrightarrow> refs_held s = 0)"

lemma held_set_thread:
  assumes "t < length (rs_threads s)"
  shows "refs_held (set_thread t n p s) + thread_held (rs_threads s ! t) =
           refs_held s + thread_held \<lparr>h_refs = n, h_point = p\<rparr>"
    and "deletes_due (set_thread t n p s) + thread_deleting (rs_threads s ! t) =
           deletes_due s + thread_deleting \<lparr>h_refs = n, h_point = p\<rparr>"
proof -
  have sum: "sum_list (map f (xs[t := y])) + f (xs ! t) = sum_list (map f xs) + f y"
    if "t < length xs" for f :: "holder \<Rightarrow> nat" and xs y
    using that by (induction xs arbitrary: t) (auto split: nat.splits)
  show "refs_held (set_thread t n p s) + thread_held (rs_threads s ! t) =
           refs_held s + thread_held \<lparr>h_refs = n, h_point = p\<rparr>"
    and "deletes_due (set_thread t n p s) + thread_deleting (rs_threads s ! t) =
           deletes_due s + thread_deleting \<lparr>h_refs = n, h_point = p\<rparr>"
    using sum [OF assms] by (simp_all add: refs_held_def deletes_due_def set_thread_def)
qed

lemma set_thread_simps [simp]:
  "rs_object (set_thread t n p s) = rs_object s"
  "length (rs_threads (set_thread t n p s)) = length (rs_threads s)"
  by (simp_all add: set_thread_def)

lemma held_object [simp]:
  "refs_held (s\<lparr>rs_object := x\<rparr>) = refs_held s" "deletes_due (s\<lparr>rs_object := x\<rparr>) = deletes_due s"
  by (simp_all add: refs_held_def deletes_due_def)

lemma held_set_thread_object [simp]:
  "refs_held (set_thread t n p (s\<lparr>rs_object := x\<rparr>)) = refs_held (set_thread t n p s)"
  "deletes_due (set_thread t n p (s\<lparr>rs_object := x\<rparr>)) = deletes_due (set_thread t n p s)"
  by (simp_all add: refs_held_def deletes_due_def set_thread_def)

lemma thread_le_held:
  assumes "t < length (rs_threads s)"
  shows "thread_held (rs_threads s ! t) \<le> refs_held s"
    and "thread_deleting (rs_threads s ! t) \<le> deletes_due s"
  using assms by (simp_all add: refs_held_def deletes_due_def member_le_sum_list)

section \<open>No use after the end, whatever the schedule\<close>

lemma idle_holder_held:
  assumes "idle_holder t s"
  shows "t < length (rs_threads s)"
    and "thread_held (rs_threads s ! t) = h_refs (rs_threads s ! t)"
    and "0 < h_refs (rs_threads s ! t)" and "thread_deleting (rs_threads s ! t) = 0"
    and "0 < refs_held s"
  using assms thread_le_held(1) [of t s]
  by (auto simp: idle_holder_def thread_held_def thread_deleting_def)

lemma copy_keeps:
  assumes "ref_inv s" "idle_holder t s"
  shows "\<exists>s'. ref_step (Copy t) s = Inr s' \<and> ref_inv s' \<and> refs_held s' = Suc (refs_held s)"
proof -
  note i = idle_holder_held [OF assms(2)]
  let ?s = "s\<lparr>rs_object := (rs_object s)\<lparr>rc_count := atomic_inc (rc_count (rs_object s))\<rparr>\<rparr>"
  let ?n = "Suc (h_refs (rs_threads s ! t))"
  have "refs_held (set_thread t ?n Outside ?s) = Suc (refs_held s)"
    "deletes_due (set_thread t ?n Outside ?s) = deletes_due s"
    using held_set_thread [of t ?s ?n Outside] i by (simp_all add: thread_held_def thread_deleting_def)
  then show ?thesis
    using assms i(5) by (auto simp: intrusive_ptr_add_ref_def ref_inv_def atomic_inc_def)
qed

lemma pass_keeps:
  assumes "ref_inv s" "idle_holder t s" "u < length (rs_threads s)"
  shows "\<exists>s'. ref_step (Pass t u) s = Inr s' \<and> ref_inv s' \<and> refs_held s' = refs_held s"
proof -
  note i = idle_holder_held [OF assms(2)]
  let ?s = "set_thread t (h_refs (rs_threads s ! t) - 1) Outside s"
  let ?u = "rs_threads ?s ! u"
  let ?s' = "set_thread u (Suc (h_refs ?u)) (h_point ?u) ?s"
  have "refs_held ?s + 1 = refs_held s" "deletes_due ?s = deletes_due s"
    using held_set_thread [of t s "h_refs (rs_threads s ! t) - 1" Outside] i
    by (simp_all add: thread_held_def thread_deleting_def)
  moreover have "refs_held ?s' = Suc (refs_held ?s)" "deletes_due ?s' = deletes_due ?s"
    using held_set_thread [of u ?s "Suc (h_refs ?u)" "h_point ?u"] assms(3)
    by (simp_all add: thread_held_def thread_deleting_def)
  ultimately have "refs_held ?s' = refs_held s" "deletes_due ?s' = deletes_due s" by simp_all
  then show ?thesis using assms by (simp add: Let_def ref_inv_def)
qed

lemma of_nat_eq_1_iff: "n < 2 ^ 32 \<Longrightarrow> (of_nat n :: u32) = 1 \<longleftrightarrow> n = 1"
  by (simp add: word_unat_eq_iff unat_of_nat)

lemma release_keeps:
  assumes "ref_inv s" "idle_holder t s" "refs_held s < 2 ^ 32"
  shows "\<exists>s'. ref_step (Release t) s = Inr s' \<and> ref_inv s' \<and> refs_held s' \<le> refs_held s"
proof -
  note i = idle_holder_held [OF assms(2)]
  let ?n = "h_refs (rs_threads s ! t) - 1"
  have live: "\<not> rc_freed (rs_object s)" and due: "deletes_due s = 0"
    using assms(1) i(5) by (auto simp: ref_inv_def)
  have one: "rc_count (rs_object s) = 1 \<longleftrightarrow> refs_held s = 1"
    using assms(1) of_nat_eq_1_iff [OF assms(3)] by (simp add: ref_inv_def)
  show ?thesis
  proof (cases "refs_held s = 1")
    case True
    let ?s = "s\<lparr>rs_object := (rs_object s)\<lparr>rc_count := 0\<rparr>\<rparr>"
    have "refs_held (set_thread t ?n Deleting ?s) = 0"
      "deletes_due (set_thread t ?n Deleting ?s) = 1"
      using held_set_thread [of t ?s ?n Deleting] i True due
        thread_le_held(1) [OF i(1)]
      by (simp_all add: thread_held_def thread_deleting_def)
    then show ?thesis
      using assms True live one
      by (simp add: release_test_def atomic_compare_and_swap_def ref_inv_def)
  next
    case False
    have "refs_held (set_thread t ?n Dropping s) = refs_held s"
      "deletes_due (set_thread t ?n Dropping s) = 0"
      using held_set_thread [of t s ?n Dropping] i due
      by (simp_all add: thread_held_def thread_deleting_def)
    then show ?thesis
      using assms False live one
      by (simp add: release_test_def atomic_compare_and_swap_def ref_inv_def)
  qed
qed

lemma finish_keeps:
  assumes "ref_inv s" "t < length (rs_threads s)"
  shows "\<exists>s'. ref_step (Finish t) s = Inr s' \<and> ref_inv s' \<and> refs_held s' \<le> refs_held s"
proof (cases "h_point (rs_threads s ! t)")
  case Outside
  then show ?thesis using assms by (simp add: Let_def)
next
  case Deleting
  let ?n = "h_refs (rs_threads s ! t)"
  let ?s = "s\<lparr>rs_object := (rs_object s)\<lparr>rc_freed := True\<rparr>\<rparr>"
  have due: "deletes_due s = 1" "refs_held s = 0" "\<not> rc_freed (rs_object s)"
    using thread_le_held(2) [OF assms(2)] assms(1) Deleting
    by (auto simp: ref_inv_def thread_deleting_def)
  moreover have "refs_held (set_thread t ?n Outside ?s) = 0"
    "deletes_due (set_thread t ?n Outside ?s) = 0"
    using held_set_thread [of t ?s ?n Outside] assms(2) due Deleting thread_le_held(1) [OF assms(2)]
    by (simp_all add: thread_held_def thread_deleting_def)
  ultimately show ?thesis
    using assms Deleting by (simp add: Let_def delete_counted_def ref_inv_def)
next
  case Dropping
  let ?n = "h_refs (rs_threads s ! t)"
  have held: "0 < refs_held s"
    using thread_le_held(1) [OF assms(2)] Dropping by (simp add: thread_held_def)
  then have live: "\<not> rc_freed (rs_object s)" and due: "deletes_due s = 0"
    using assms(1) by (auto simp: ref_inv_def)
  have "refs_held (set_thread t ?n Outside s) = refs_held s - 1"
    "deletes_due (set_thread t ?n Outside s) = 0"
    using held_set_thread [of t s ?n Outside] assms(2) due Dropping
    by (simp_all add: thread_held_def thread_deleting_def)
  moreover have "rc_count (rs_object s) - 1 = of_nat (refs_held s - 1)"
    using assms(1) held by (simp add: ref_inv_def of_nat_diff)
  ultimately show ?thesis
    using assms Dropping live by (simp add: Let_def release_drop_def ref_inv_def atomic_dec_def)
qed

lemma ref_step_keeps:
  assumes "ref_inv s" "refs_held s < 2 ^ 32"
  shows "\<exists>s'. ref_step ev s = Inr s' \<and> ref_inv s' \<and> refs_held s' \<le> Suc (refs_held s)"
proof (cases ev)
  case (Copy t)
  then show ?thesis using assms copy_keeps [of s t] by (cases "idle_holder t s") auto
next
  case (Pass t u)
  then show ?thesis using assms pass_keeps [of s t u]
    by (cases "idle_holder t s \<and> u < length (rs_threads s)") auto
next
  case (Release t)
  show ?thesis
  proof (cases "idle_holder t s")
    case True
    then show ?thesis using assms Release release_keeps [of s t] by (blast intro: le_SucI)
  qed (use assms Release in simp)
next
  case (Finish t)
  show ?thesis
  proof (cases "t < length (rs_threads s)")
    case True
    then show ?thesis using assms Finish finish_keeps [of s t] by (blast intro: le_SucI)
  qed (use assms Finish in simp)
qed

lemma ref_run_keeps:
  assumes "ref_inv s" "refs_held s + length evs < 2 ^ 32"
  shows "\<exists>s'. ref_run evs s = Inr s' \<and> ref_inv s'"
  using assms
proof (induction evs arbitrary: s)
  case (Cons ev evs)
  obtain s' where "ref_step ev s = Inr s'" "ref_inv s'" "refs_held s' \<le> Suc (refs_held s)"
    using ref_step_keeps [of s ev] Cons.prems by auto
  then show ?case using Cons.IH [of s'] Cons.prems by (simp add: ref_run_def)
qed (simp add: ref_run_def)

lemma ref_start_inv: "ref_inv (ref_start n)" "refs_held (ref_start n) = 1"
proof -
  have "refs_held (ref_start n) = 1 \<and> deletes_due (ref_start n) = 0"
    by (simp add: ref_start_def refs_held_def deletes_due_def thread_held_def thread_deleting_def
        sum_list_replicate)
  then show "ref_inv (ref_start n)" "refs_held (ref_start n) = 1"
    by (simp_all add: ref_inv_def ref_start_def counted_new_def atomic_inc_def)
qed

text \<open>
  C9. \<^bold>\<open>The reference count, whatever the schedule.\<close> Any number of threads copy, hand over and release pointers to one counted
  object, and a release may be interrupted between its two atomic instructions. As long as fewer than \<open>2 ^ 32 - 1\<close> instructions
  have run nothing faults: no thread touches the object after it is deleted, it is not deleted twice, and its destructor finds the
  count at 0. The count is always the number of pointers with the decrements still to come, and when the object is gone there are none.
\<close>

theorem ref_count_safe:
  assumes "length evs < 2 ^ 32 - 1"
  shows "\<exists>s. ref_run evs (ref_start n) = Inr s \<and> rc_count (rs_object s) = of_nat (refs_held s) \<and>
           (refs_held s = 0 \<or> \<not> rc_freed (rs_object s)) \<and> deletes_due s \<le> 1"
  using ref_run_keeps [of "ref_start n" evs] ref_start_inv [of n] assms
  by (auto simp: ref_inv_def)

text \<open>Two threads, both releasing, the first alone between its two instructions.\<close>

theorem ref_count_safe_witness:
  "\<exists>s. ref_run [Copy 0, Pass 0 1, Release 0, Finish 0, Release 1, Finish 1] (ref_start 1) = Inr s \<and>
     rc_count (rs_object s) = of_nat (refs_held s) \<and>
     (refs_held s = 0 \<or> \<not> rc_freed (rs_object s)) \<and> deletes_due s \<le> 1"
  by (rule ref_count_safe) simp

section \<open>Releases that do not overlap\<close>

text \<open>A schedule that never interrupts a release.\<close>

fun whole_release :: "ref_event \<Rightarrow> ref_event list" where
  "whole_release (Release t) = [Release t, Finish t]"
| "whole_release (Finish t) = []"
| "whole_release ev = [ev]"

definition all_outside :: "ref_state \<Rightarrow> bool" where
  "all_outside s \<longleftrightarrow> list_all (\<lambda>h. h_point h = Outside) (rs_threads s)"

lemma all_outside_due: "all_outside s \<Longrightarrow> deletes_due s = 0"
  by (auto simp: all_outside_def deletes_due_def thread_deleting_def list_all_iff sum_list_eq_0_iff)

lemma all_outside_set_thread:
  "all_outside s \<Longrightarrow> all_outside (set_thread t n Outside (s\<lparr>rs_object := x\<rparr>))"
  "all_outside s \<Longrightarrow> all_outside (set_thread t n Outside s)"
  by (auto simp: all_outside_def set_thread_def list_all_iff dest: set_update_subset_insert [THEN subsetD])

lemma release_is_release_function:
  assumes "idle_holder t s"
  shows "ref_run [Release t, Finish t] s =
           bind_outcome (intrusive_ptr_release (rs_object s)) (\<lambda>x.
             Inr (set_thread t (h_refs (rs_threads s ! t) - 1) Outside (s\<lparr>rs_object := x\<rparr>)))"
  using assms
  by (auto simp: ref_run_def idle_holder_def set_thread_def Let_def counted_defs)

lemma whole_release_keeps:
  assumes "ref_inv s" "all_outside s" "rc_freed (rs_object s) \<longleftrightarrow> refs_held s = 0"
    and "Suc (refs_held s) < 2 ^ 32"
  shows "\<exists>s'. ref_run (whole_release ev) s = Inr s' \<and> ref_inv s' \<and> all_outside s' \<and>
           (rc_freed (rs_object s') \<longleftrightarrow> refs_held s' = 0) \<and> refs_held s' \<le> Suc (refs_held s)"
proof (cases ev)
  case (Copy t)
  show ?thesis
  proof (cases "idle_holder t s")
    case True
    then obtain s' where "ref_step (Copy t) s = Inr s'" "ref_inv s'" "refs_held s' = Suc (refs_held s)"
      using copy_keeps [OF assms(1) True] by auto
    moreover have "all_outside s' \<and> rc_freed (rs_object s') = rc_freed (rs_object s)"
      using calculation(1) True assms(2)
      by (auto simp: intrusive_ptr_add_ref_def all_outside_set_thread split: if_splits)
    moreover have "refs_held s \<noteq> 0" using idle_holder_held(5) [OF True] by simp
    ultimately show ?thesis using Copy assms(3) by (auto simp: ref_run_def)
  qed (use assms Copy in \<open>simp add: ref_run_def\<close>)
next
  case (Pass t u)
  show ?thesis
  proof (cases "idle_holder t s \<and> u < length (rs_threads s)")
    case True
    then obtain s' where "ref_step (Pass t u) s = Inr s'" "ref_inv s'" "refs_held s' = refs_held s"
      using pass_keeps [OF assms(1), of t u] by auto
    moreover have "all_outside s' \<and> rc_freed (rs_object s') = rc_freed (rs_object s)"
    proof -
      let ?s = "set_thread t (h_refs (rs_threads s ! t) - 1) Outside s"
      have "all_outside ?s" using assms(2) by (rule all_outside_set_thread)
      moreover from this have "h_point (rs_threads ?s ! u) = Outside"
        using True by (auto simp: all_outside_def list_all_length)
      ultimately show ?thesis
        using \<open>ref_step (Pass t u) s = Inr s'\<close> True by (auto simp: Let_def all_outside_set_thread)
    qed
    ultimately show ?thesis using Pass assms(3) by (auto simp: ref_run_def)
  qed (use assms Pass in \<open>auto simp: ref_run_def\<close>)
next
  case (Finish t)
  then show ?thesis using assms by (simp add: ref_run_def)
next
  case (Release t)
  show ?thesis
  proof (cases "idle_holder t s")
    case True
    note i = idle_holder_held [OF True]
    let ?x = "\<lparr>rc_count = rc_count (rs_object s) - 1, rc_freed = (refs_held s = 1)\<rparr>"
    let ?s = "set_thread t (h_refs (rs_threads s ! t) - 1) Outside (s\<lparr>rs_object := ?x\<rparr>)"
    have live: "\<not> rc_freed (rs_object s)" using assms(3) i(5) by simp
    have one: "rc_count (rs_object s) = 1 \<longleftrightarrow> refs_held s = 1"
      using assms(1,4) of_nat_eq_1_iff [of "refs_held s"] by (simp add: ref_inv_def)
    have "intrusive_ptr_release (rs_object s) = Inr ?x"
      using live one by (cases "rs_object s") (auto simp: counted_defs)
    then have run: "ref_run (whole_release ev) s = Inr ?s"
      using release_is_release_function [OF True] Release by simp
    have held: "refs_held ?s = refs_held s - 1"
      using held_set_thread(1) [OF i(1), of "h_refs (rs_threads s ! t) - 1" Outside] i
      by (simp add: thread_held_def)
    have out: "all_outside ?s" using assms(2) by (rule all_outside_set_thread)
    have "rc_count (rs_object s) - 1 = of_nat (refs_held s - 1)"
      using assms(1) i(5) by (simp add: ref_inv_def of_nat_diff)
    then have "ref_inv ?s" using held all_outside_due [OF out] i(5) by (simp add: ref_inv_def)
    then show ?thesis using run held out i(5) by auto
  next
    case False
    have "h_point (rs_threads s ! t) = Outside" if "t < length (rs_threads s)"
      using assms(2) that by (auto simp: all_outside_def list_all_length)
    then have "ref_run (whole_release ev) s = Inr s" using False Release by (simp add: ref_run_def Let_def)
    then show ?thesis using assms by simp
  qed
qed

lemma whole_releases_keep:
  assumes "ref_inv s" "all_outside s" "rc_freed (rs_object s) \<longleftrightarrow> refs_held s = 0"
    and "refs_held s + length evs < 2 ^ 32"
  shows "\<exists>s'. ref_run (concat (map whole_release evs)) s = Inr s' \<and> ref_inv s' \<and>
           (rc_freed (rs_object s') \<longleftrightarrow> refs_held s' = 0)"
  using assms
proof (induction evs arbitrary: s)
  case (Cons ev evs)
  obtain s' where s': "ref_run (whole_release ev) s = Inr s'" "ref_inv s'" "all_outside s'"
    "rc_freed (rs_object s') \<longleftrightarrow> refs_held s' = 0" "refs_held s' \<le> Suc (refs_held s)"
    using whole_release_keeps [OF Cons.prems(1-3), of ev] Cons.prems(4) by auto
  then show ?case
    using Cons.IH [OF s'(2-4)] Cons.prems(4) by (simp add: ref_run_def fold_outcome_append)
qed (simp add: ref_run_def)

text \<open>
  \<^bold>\<open>The last release deletes.\<close> When no release is interrupted between its two instructions, the counted object is deleted
  exactly when its last pointer is released: it exists while any thread has a pointer to it and is gone when none has.
\<close>

theorem uninterrupted_releases_delete:
  assumes "length evs < 2 ^ 32 - 1"
  shows "\<exists>s. ref_run (concat (map whole_release evs)) (ref_start n) = Inr s \<and>
           (rc_freed (rs_object s) \<longleftrightarrow> refs_held s = 0)"
proof -
  have "all_outside (ref_start n)" by (simp add: all_outside_def ref_start_def list_all_iff)
  moreover have "rc_freed (rs_object (ref_start n)) \<longleftrightarrow> refs_held (ref_start n) = 0"
    using ref_start_inv(2) [of n] by (simp add: ref_start_def counted_new_def)
  ultimately show ?thesis
    using whole_releases_keep [OF ref_start_inv(1), of n evs] ref_start_inv(2) [of n] assms by auto
qed

theorem uninterrupted_releases_delete_witness:
  "\<exists>s. ref_run (concat (map whole_release [Copy 0, Pass 0 1, Release 0, Release 1])) (ref_start 1) = Inr s \<and>
     (rc_freed (rs_object s) \<longleftrightarrow> refs_held s = 0)"
  by (rule uninterrupted_releases_delete) simp

section \<open>Releases that overlap\<close>

text \<open>Nobody has a pointer or is about to delete, and the object is still there.\<close>

definition leaked :: "ref_state \<Rightarrow> bool" where
  "leaked s \<longleftrightarrow> refs_held s = 0 \<and> deletes_due s = 0 \<and> \<not> rc_freed (rs_object s)"

lemma leaked_stays:
  assumes "leaked s"
  shows "ref_run evs s = Inr s"
proof -
  have none: "h_refs h = 0 \<and> h_point h = Outside" if "h \<in> set (rs_threads s)" for h
    using assms that
    by (cases "h_point h") (auto simp: leaked_def refs_held_def deletes_due_def thread_held_def
        thread_deleting_def split: if_splits)
  then have "ref_step ev s = Inr s" for ev
    by (cases ev) (auto simp: idle_holder_def Let_def)
  then show ?thesis by (induction evs) (simp_all add: ref_run_def)
qed

text \<open>
  \<^bold>\<open>Two releases that overlap leak the object.\<close> Two threads have one pointer each. Both find that the count is not 1, so both take the
  branch that decrements: the count is 0, nobody has a pointer, and the object is not deleted, now or by anything the threads do later.
\<close>

theorem overlapping_releases_leak:
  "\<exists>s. ref_run [Copy 0, Pass 0 1, Release 0, Release 1, Finish 0, Finish 1] (ref_start 1) = Inr s \<and>
     leaked s \<and> rc_count (rs_object s) = 0 \<and> (\<forall>evs. ref_run evs s = Inr s)"
proof -
  let ?s = "\<lparr>rs_object = \<lparr>rc_count = 0, rc_freed = False\<rparr>, rs_threads = replicate 2 \<lparr>h_refs = 0, h_point = Outside\<rparr>\<rparr>"
  have "ref_run [Copy 0, Pass 0 1, Release 0, Release 1, Finish 0, Finish 1] (ref_start 1) = Inr ?s"
    by (simp add: ref_run_def ref_start_def counted_new_def counted_defs idle_holder_def
        set_thread_def Let_def numeral_2_eq_2)
  moreover have "leaked ?s"
    by (simp add: leaked_def refs_held_def deletes_due_def thread_held_def thread_deleting_def sum_list_replicate)
  ultimately show ?thesis using leaked_stays by auto
qed

end
