(* ===== verification/Status_Lock.thy ===== *)
theory Status_Lock
  imports Tt_Prelude
begin

text \<open>
  The lock of \<open>RawConnectionStatus\<close> and the closing of a connection, with the threads
  interleaved: \<open>src/core/network/RawConnection.cpp\<close> (\<open>ExecuteHandler\<close>, \<open>ReadHandler\<close>,
  \<open>Disconnect\<close>) and \<open>Connection.hpp\<close> (\<open>Disconnect\<close>, \<open>Expired\<close>, \<open>ScheduleWrite\<close>, \<open>PushData\<close>,
  \<open>ImplClosed\<close>). \<open>Raw_Connection\<close> models what these functions compute, each run to its end; here
  their statements are single steps, and what they compute is reduced to the accesses to
  the shared state: the lock, the closing flag, \<open>impl_\<close>, the socket and \<open>connection_\<close>.

  A thread is a task with the place it has reached; a schedule is a list of thread numbers, and a
  thread that must wait is scheduled without effect. The mutex is a parameter (\<open>mutex_api\<close>) with
  the documented laws of \<open>boost::shared_mutex\<close> as the hypothesis \<open>mutex_ok\<close>.

  The lemmas: no thread touches the raw connection after its end, the connection is closed
  once and its listeners are told once, and every fair schedule finishes. There are two exceptions.
  \<open>Connection::Disconnect\<close> looks at \<open>impl_\<close> without a test of the flag under the lock. And a read
  handler that answers a request takes the shared lock that it holds once more
  (\<open>CallServiceMethodDone\<close> in \<open>ProtobufConnection.cpp\<close>), which needs a mutex that grants it beside a
  waiting upgrade; \<open>nested_lock_blocks\<close> has the deadlock on a mutex that does not. A service that
  calls \<open>Disconnect\<close> itself, inside the handler, is not modelled.
\<close>

section \<open>The mutex\<close>

text \<open>\<open>None\<close>: the caller has to wait.\<close>

record 'm mutex_api =
  ma_lock_shared :: "'m \<Rightarrow> 'm option"
  ma_unlock_shared :: "'m \<Rightarrow> 'm"
  ma_lock_upgrade :: "'m \<Rightarrow> 'm option"
  ma_upgrade :: "'m \<Rightarrow> 'm option"      \<comment> \<open>\<open>unlock_upgrade_and_lock\<close>\<close>
  ma_unlock :: "'m \<Rightarrow> 'm"

text \<open>
  Who owns a mutex: the number of shared owners, whether there is an upgrade owner, and whether
  there is an exclusive one. What the documentation promises: shared ownership is not granted
  beside an exclusive owner and upgrade ownership not beside either, an upgrade waits for the shared
  owners, and each is granted at least when nobody stands against it.
\<close>

definition mutex_ok :: "'m mutex_api \<Rightarrow> ('m \<Rightarrow> nat \<times> bool \<times> bool) \<Rightarrow> bool" where
  "mutex_ok M owners \<longleftrightarrow>
     (\<forall>m m'. ma_lock_shared M m = Some m' \<longrightarrow>
        (\<exists>n u. owners m = (n, u, False) \<and> owners m' = (Suc n, u, False))) \<and>
     (\<forall>m. owners m = (0, False, False) \<longrightarrow> ma_lock_shared M m \<noteq> None) \<and>
     (\<forall>m n u e. owners m = (Suc n, u, e) \<longrightarrow> owners (ma_unlock_shared M m) = (n, u, e)) \<and>
     (\<forall>m m'. ma_lock_upgrade M m = Some m' \<longrightarrow>
        (\<exists>n. owners m = (n, False, False) \<and> owners m' = (n, True, False))) \<and>
     (\<forall>m. owners m = (0, False, False) \<longrightarrow> ma_lock_upgrade M m \<noteq> None) \<and>
     (\<forall>m m'. ma_upgrade M m = Some m' \<longrightarrow>
        owners m = (0, True, False) \<and> owners m' = (0, False, True)) \<and>
     (\<forall>m. owners m = (0, True, False) \<longrightarrow> ma_upgrade M m \<noteq> None) \<and>
     (\<forall>m. owners m = (0, False, True) \<longrightarrow> owners (ma_unlock M m) = (0, False, False))"

lemmas mutex_laws = mutex_ok_def [THEN iffD1]

lemma lock_shared_law:
  assumes "mutex_ok M owners" "ma_lock_shared M m = Some m'"
  shows "\<exists>n u. owners m = (n, u, False) \<and> owners m' = (Suc n, u, False)"
  using assms mutex_laws [OF assms(1)] by (blast | simp)+

lemma unlock_shared_law:
  assumes "mutex_ok M owners" "owners m = (Suc n, u, e)"
  shows "owners (ma_unlock_shared M m) = (n, u, e)"
  using assms mutex_laws [OF assms(1)] by (blast | simp)+

lemma lock_upgrade_law:
  assumes "mutex_ok M owners" "ma_lock_upgrade M m = Some m'"
  shows "\<exists>n. owners m = (n, False, False) \<and> owners m' = (n, True, False)"
  using assms mutex_laws [OF assms(1)] by (blast | simp)+

lemma upgrade_law:
  assumes "mutex_ok M owners" "ma_upgrade M m = Some m'"
  shows "owners m = (0, True, False) \<and> owners m' = (0, False, True)"
  using assms mutex_laws [OF assms(1)] by (blast | simp)+

lemma unlock_law:
  assumes "mutex_ok M owners" "owners m = (0, False, True)"
  shows "owners (ma_unlock M m) = (0, False, False)"
  using assms mutex_laws [OF assms(1)] by (blast | simp)+

lemma free_law:
  assumes "mutex_ok M owners" "owners m = (0, False, False)"
  shows "ma_lock_shared M m \<noteq> None" "ma_lock_upgrade M m \<noteq> None"
  using assms mutex_laws [OF assms(1)] by (blast | simp)+

lemma upgrade_free_law:
  assumes "mutex_ok M owners" "owners m = (0, True, False)"
  shows "ma_upgrade M m \<noteq> None"
  using assms mutex_laws [OF assms(1)] by (blast | simp)+

section \<open>Tasks and places\<close>

text \<open>
  What a thread is asked to do. A handler works on the raw connection in some number of accesses
  before its member function gives the lock back or, on an error, calls \<open>Disconnect\<close>;
  \<open>Expired\<close> does the same in \<open>Heartbeat\<close>. The handler of a read answers requests on the way:
  \<open>CallServiceMethodDone\<close> (\<open>ProtobufConnection.cpp\<close>) calls \<open>PushData\<close> and \<open>ScheduleWrite\<close> of
  \<open>Connection\<close>, which take the shared lock that the handler holds already a second time. A
  \<open>CallMethod\<close> from the callback of a response does so in the same way.
\<close>

datatype task =
    RunHandler nat bool     \<comment> \<open>accesses, and whether it ends in \<open>Disconnect( status, true )\<close>\<close>
  | RunReader nat bool    \<comment> \<open>the same, with a call of \<open>RunSend\<close> on the same thread after each access but the last\<close>
  | RunExpired nat bool
  | RunSend nat             \<comment> \<open>\<open>ScheduleWrite\<close> or \<open>PushData\<close> of \<open>Connection\<close>\<close>
  | RunDisconnect           \<comment> \<open>\<open>Connection::Disconnect\<close>\<close>

datatype raw_place =
    FirstTest | GiveBackShared | LockUpgrade | Upgrade | SecondTest | SetClosing
  | GiveBack bool | CloseSocket | DropConnection | CallImplClosed

datatype again_place = AgainLock | AgainTest | AgainImpl | AgainMember | AgainLeave

text \<open>\<open>Again n\<close>: in a nested call, after which \<open>n\<close> accesses of the handler follow.\<close>

datatype place =
    EarlyTest | LockShared | TestClosing | TestImpl | Member nat | LeaveShared
  | Again nat again_place | InDisconnect raw_place | Finished

record 'm closing =
  cl_mutex :: 'm
  cl_closing :: bool
  cl_impl :: bool         \<comment> \<open>\<open>impl_\<close> is set, and so the raw connection exists\<close>
  cl_socket :: bool       \<comment> \<open>\<open>mSocket\<close>\<close>
  cl_connection :: bool   \<comment> \<open>\<open>connection_\<close>\<close>
  cl_told :: nat          \<comment> \<open>runs of \<open>ImplClosed\<close>\<close>

type_synonym 'm step_result = "(place \<times> 'm closing) outcome option"

section \<open>The code, one step at a time\<close>

definition enter_shared :: "'m mutex_api \<Rightarrow> place \<Rightarrow> 'm closing \<Rightarrow> 'm step_result" where
  "enter_shared M p g =
     map_option (\<lambda>m. Inr (p, g\<lparr>cl_mutex := m\<rparr>)) (ma_lock_shared M (cl_mutex g))"

definition leave_shared :: "'m mutex_api \<Rightarrow> place \<Rightarrow> 'm closing \<Rightarrow> 'm step_result" where
  "leave_shared M p g = Some (Inr (p, g\<lparr>cl_mutex := ma_unlock_shared M (cl_mutex g)\<rparr>))"

text \<open>
  One access of a member function, and where the function goes from there: \<open>next\<close> while accesses are left (the
  next of them, or a nested call before it), and after the last to its end or to \<open>Disconnect\<close>.
\<close>

definition member_step :: "fault \<Rightarrow> (nat \<Rightarrow> place) \<Rightarrow> bool \<Rightarrow> nat \<Rightarrow> 'm closing \<Rightarrow> 'm step_result" where
  "member_step missing next fails n g =
     Some (if \<not> cl_impl g then Inl missing
           else Inr (case n of
               Suc k \<Rightarrow> next k
             | 0 \<Rightarrow> if fails then InDisconnect FirstTest else LeaveShared, g))"

text \<open>\<open>RawConnection::Disconnect\<close>, entered with a shared hold of the lock.\<close>

fun raw_disconnect_step :: "'m mutex_api \<Rightarrow> bool \<Rightarrow> raw_place \<Rightarrow> 'm closing \<Rightarrow> 'm step_result" where
  "raw_disconnect_step M async FirstTest g =
     Some (Inr (if cl_closing g then LeaveShared else InDisconnect GiveBackShared, g))"
| "raw_disconnect_step M async GiveBackShared g = leave_shared M (InDisconnect LockUpgrade) g"
| "raw_disconnect_step M async LockUpgrade g =
     map_option (\<lambda>m. Inr (InDisconnect Upgrade, g\<lparr>cl_mutex := m\<rparr>)) (ma_lock_upgrade M (cl_mutex g))"
| "raw_disconnect_step M async Upgrade g =
     map_option (\<lambda>m. Inr (InDisconnect SecondTest, g\<lparr>cl_mutex := m\<rparr>)) (ma_upgrade M (cl_mutex g))"
| "raw_disconnect_step M async SecondTest g =
     Some (Inr (InDisconnect (if cl_closing g then GiveBack False else SetClosing), g))"
| "raw_disconnect_step M async SetClosing g =
     Some (Inr (InDisconnect (GiveBack True), g\<lparr>cl_closing := True\<rparr>))"
| "raw_disconnect_step M async (GiveBack closer) g =
     Some (Inr (if closer then InDisconnect CloseSocket else Finished,
                g\<lparr>cl_mutex := ma_unlock M (cl_mutex g)\<rparr>))"
| "raw_disconnect_step M async CloseSocket g =
     Some (if \<not> cl_impl g then Inl UseAfterFree
           else Inr (InDisconnect DropConnection, g\<lparr>cl_socket := False\<rparr>))"
| "raw_disconnect_step M async DropConnection g =
     Some (if \<not> cl_impl g then Inl UseAfterFree
           else if async \<and> \<not> cl_connection g then Inl NullDeref
           else Inr (if async then InDisconnect CallImplClosed else Finished,
                     g\<lparr>cl_connection := False\<rparr>))"
| "raw_disconnect_step M async CallImplClosed g =
     Some (Inr (Finished, g\<lparr>cl_told := Suc (cl_told g), cl_impl := False\<rparr>))"

text \<open>
  A nested call of \<open>PushData\<close> or \<open>ScheduleWrite\<close>, with a second shared hold of the lock from its
  \<open>Locker\<close>. When a test fails the call returns \<open>false\<close>, and the handler goes on.
\<close>

fun again_step :: "'m mutex_api \<Rightarrow> nat \<Rightarrow> again_place \<Rightarrow> 'm closing \<Rightarrow> 'm step_result" where
  "again_step M n AgainLock g = enter_shared M (Again n AgainTest) g"
| "again_step M n AgainTest g =
     Some (Inr (Again n (if cl_closing g then AgainLeave else AgainImpl), g))"
| "again_step M n AgainImpl g =
     Some (Inr (Again n (if cl_impl g then AgainMember else AgainLeave), g))"
| "again_step M n AgainMember g =
     Some (if \<not> cl_impl g then Inl NullDeref else Inr (Again n AgainLeave, g))"
| "again_step M n AgainLeave g = leave_shared M (Member n) g"

text \<open>\<open>ReadHandler::operator()\<close>; the handler keeps a plain pointer to the raw connection.\<close>

fun handler_step :: "'m mutex_api \<Rightarrow> bool \<Rightarrow> nat \<Rightarrow> bool \<Rightarrow> place \<Rightarrow> 'm closing \<Rightarrow> 'm step_result" where
  "handler_step M again work fails LockShared g = enter_shared M TestClosing g"
| "handler_step M again work fails TestClosing g =
     Some (Inr (if cl_closing g then LeaveShared else Member work, g))"
| "handler_step M again work fails (Member n) g = member_step UseAfterFree (if again then \<lambda>k. Again k AgainLock else Member) fails n g"
| "handler_step M again work fails (Again n q) g = (if again then again_step M n q g else None)"
| "handler_step M again work fails LeaveShared g = leave_shared M Finished g"
| "handler_step M again work fails (InDisconnect p) g = raw_disconnect_step M True p g"
| "handler_step M again work fails _ g = None"

text \<open>\<open>Connection::Expired\<close>.\<close>

fun expired_step :: "'m mutex_api \<Rightarrow> nat \<Rightarrow> bool \<Rightarrow> place \<Rightarrow> 'm closing \<Rightarrow> 'm step_result" where
  "expired_step M work fails LockShared g = enter_shared M TestClosing g"
| "expired_step M work fails TestClosing g =
     Some (Inr (if cl_closing g then LeaveShared else TestImpl, g))"
| "expired_step M work fails TestImpl g =
     Some (Inr (if cl_impl g then Member work else LeaveShared, g))"
| "expired_step M work fails (Member n) g = member_step NullDeref Member fails n g"
| "expired_step M work fails LeaveShared g = leave_shared M Finished g"
| "expired_step M work fails (InDisconnect p) g = raw_disconnect_step M True p g"
| "expired_step M work fails _ g = None"

text \<open>\<open>Connection::ScheduleWrite\<close>, and \<open>Connection::PushData\<close>, which has the same tests.\<close>

fun send_step :: "'m mutex_api \<Rightarrow> nat \<Rightarrow> place \<Rightarrow> 'm closing \<Rightarrow> 'm step_result" where
  "send_step M work LockShared g = enter_shared M TestClosing g"
| "send_step M work TestClosing g =
     Some (Inr (if cl_closing g then LeaveShared else TestImpl, g))"
| "send_step M work TestImpl g =
     Some (Inr (if cl_impl g then Member work else LeaveShared, g))"
| "send_step M work (Member n) g = member_step NullDeref Member False n g"
| "send_step M work LeaveShared g = leave_shared M Finished g"
| "send_step M work _ g = None"

text \<open>\<open>Connection::Disconnect\<close>; its \<open>Member\<close> is the access \<open>impl_->Disconnect\<close>.\<close>

fun user_disconnect_step :: "'m mutex_api \<Rightarrow> place \<Rightarrow> 'm closing \<Rightarrow> 'm step_result" where
  "user_disconnect_step M EarlyTest g =
     Some (Inr (if cl_closing g then Finished else LockShared, g))"
| "user_disconnect_step M LockShared g = enter_shared M TestImpl g"
| "user_disconnect_step M TestImpl g =
     Some (Inr (if cl_impl g then Member 0 else LeaveShared, g))"
| "user_disconnect_step M (Member n) g = member_step NullDeref Member True n g"
| "user_disconnect_step M LeaveShared g = leave_shared M Finished g"
| "user_disconnect_step M (InDisconnect p) g = raw_disconnect_step M False p g"
| "user_disconnect_step M _ g = None"

fun task_step :: "'m mutex_api \<Rightarrow> task \<Rightarrow> place \<Rightarrow> 'm closing \<Rightarrow> 'm step_result" where
  "task_step M (RunHandler work fails) = handler_step M False work fails"
| "task_step M (RunReader work fails) = handler_step M True work fails"
| "task_step M (RunExpired work fails) = expired_step M work fails"
| "task_step M (RunSend work) = send_step M work"
| "task_step M RunDisconnect = user_disconnect_step M"

fun task_entry :: "task \<Rightarrow> place" where
  "task_entry RunDisconnect = EarlyTest"
| "task_entry _ = LockShared"

section \<open>Interleaving\<close>

record 'm lock_state =
  ls_shared :: "'m closing"
  ls_threads :: "(task \<times> place) list"

definition thread_step :: "'m mutex_api \<Rightarrow> nat \<Rightarrow> 'm lock_state \<Rightarrow> 'm lock_state outcome option" where
  "thread_step M t s =
     (if t < length (ls_threads s) then
        let (k, p) = ls_threads s ! t in
        map_option (\<lambda>r. bind_outcome r (\<lambda>(p', g). Inr \<lparr>ls_shared = g, ls_threads = (ls_threads s)[t := (k, p')]\<rparr>))
          (task_step M k p (ls_shared s))
      else None)"

definition schedule_step :: "'m mutex_api \<Rightarrow> nat \<Rightarrow> 'm lock_state \<Rightarrow> 'm lock_state outcome" where
  "schedule_step M t s = (case thread_step M t s of None \<Rightarrow> Inr s | Some r \<Rightarrow> r)"

definition interleave :: "'m mutex_api \<Rightarrow> nat list \<Rightarrow> 'm lock_state \<Rightarrow> 'm lock_state outcome" where
  "interleave M = fold_outcome (schedule_step M)"

text \<open>A connection at work, and the threads that are about to use it.\<close>

definition lock_start :: "'m \<Rightarrow> task list \<Rightarrow> 'm lock_state" where
  "lock_start m tasks =
     \<lparr>ls_shared = \<lparr>cl_mutex = m, cl_closing = False, cl_impl = True, cl_socket = True,
        cl_connection = True, cl_told = 0\<rparr>,
      ls_threads = map (\<lambda>k. (k, task_entry k)) tasks\<rparr>"

definition all_finished :: "'m lock_state \<Rightarrow> bool" where
  "all_finished s \<longleftrightarrow> list_all (\<lambda>(k, p). p = Finished) (ls_threads s)"

section \<open>The invariant\<close>

text \<open>How often a thread at a place holds the lock shared: twice inside a nested call.\<close>

fun holds :: "place \<Rightarrow> nat" where
  "holds TestClosing = 1"
| "holds TestImpl = 1"
| "holds (Member n) = 1"
| "holds LeaveShared = 1"
| "holds (Again n q) = (if q = AgainLock then 1 else 2)"
| "holds (InDisconnect p) = (if p = FirstTest \<or> p = GiveBackShared then 1 else 0)"
| "holds _ = 0"

fun in_upgrade :: "place \<Rightarrow> bool" where
  "in_upgrade (InDisconnect p) = (p = Upgrade)"
| "in_upgrade _ = False"

fun in_exclusive :: "place \<Rightarrow> bool" where
  "in_exclusive (InDisconnect p) = (p \<in> {SecondTest, SetClosing, GiveBack False, GiveBack True})"
| "in_exclusive _ = False"

text \<open>The closer: the thread that has set the flag and is not through.\<close>

fun is_closer :: "place \<Rightarrow> bool" where
  "is_closer (InDisconnect p) = (p \<in> {GiveBack True, CloseSocket, DropConnection, CallImplClosed})"
| "is_closer _ = False"

fun closes :: "task \<Rightarrow> bool" where
  "closes (RunHandler n fails) = fails"
| "closes (RunReader n fails) = fails"
| "closes (RunExpired n fails) = fails"
| "closes (RunSend n) = False"
| "closes RunDisconnect = True"

fun nests :: "task \<Rightarrow> bool" where
  "nests (RunReader n fails) = True"
| "nests _ = False"

text \<open>Where a thread can be, given the closing flag, the socket and \<open>connection_\<close>.\<close>

fun place_ok :: "bool \<Rightarrow> bool \<Rightarrow> bool \<Rightarrow> task \<times> place \<Rightarrow> bool" where
  "place_ok c s n (k, EarlyTest) = (k = RunDisconnect)"
| "place_ok c s n (k, LockShared) = True"
| "place_ok c s n (k, TestClosing) = (k \<noteq> RunDisconnect)"
| "place_ok c s n (k, TestImpl) = ((case k of RunHandler _ _ \<Rightarrow> False | RunReader _ _ \<Rightarrow> False | _ \<Rightarrow> True) \<and> (c \<longrightarrow> k = RunDisconnect))"
| "place_ok c s n (k, Member w) = (c \<longrightarrow> k = RunDisconnect)"
| "place_ok c s n (k, Again w q) = (\<not> c \<and> nests k)"
| "place_ok c s n (k, LeaveShared) = (closes k \<longrightarrow> c)"
| "place_ok c s n (k, Finished) = (closes k \<longrightarrow> c)"
| "place_ok c s n (k, InDisconnect p) = (closes k \<and> (case p of
       SetClosing \<Rightarrow> \<not> c
     | GiveBack b \<Rightarrow> c \<and> (b \<longrightarrow> n)
     | CloseSocket \<Rightarrow> n
     | DropConnection \<Rightarrow> n \<and> \<not> s
     | CallImplClosed \<Rightarrow> \<not> n \<and> \<not> s \<and> k \<noteq> RunDisconnect
     | _ \<Rightarrow> True))"

definition places :: "(place \<Rightarrow> bool) \<Rightarrow> (task \<times> place) list \<Rightarrow> nat" where
  "places P xs = length (filter (\<lambda>x. P (snd x)) xs)"

definition shared_holds :: "(task \<times> place) list \<Rightarrow> nat" where
  "shared_holds xs = sum_list (map (\<lambda>x. holds (snd x)) xs)"

definition tasks_of :: "(task \<times> place) list \<Rightarrow> task set" where
  "tasks_of xs = fst ` set xs"

definition owners_ok :: "('m \<Rightarrow> nat \<times> bool \<times> bool) \<Rightarrow> 'm \<Rightarrow> (task \<times> place) list \<Rightarrow> bool" where
  "owners_ok owners m xs \<longleftrightarrow>
     owners m = (shared_holds xs, 0 < places in_upgrade xs, 0 < places in_exclusive xs) \<and>
     places in_upgrade xs + places in_exclusive xs \<le> 1 \<and>
     (places in_exclusive xs = 0 \<or> shared_holds xs = 0)"

definition lock_inv :: "('m \<Rightarrow> nat \<times> bool \<times> bool) \<Rightarrow> 'm lock_state \<Rightarrow> bool" where
  "lock_inv owners s \<longleftrightarrow> (let g = ls_shared s; xs = ls_threads s in
     owners_ok owners (cl_mutex g) xs \<and> places is_closer xs \<le> 1 \<and>
     (places is_closer xs = 0 \<or> cl_closing g \<and> cl_impl g) \<and>
     (cl_closing g \<or> cl_impl g \<and> cl_socket g \<and> cl_connection g) \<and>
     (cl_closing g \<and> places is_closer xs = 0 \<longrightarrow> \<not> cl_socket g \<and> \<not> cl_connection g \<and>
        (cl_impl g \<longrightarrow> RunDisconnect \<in> tasks_of xs)) \<and>
     (cl_closing g \<longrightarrow> (\<exists>k\<in>tasks_of xs. closes k)) \<and>
     (cl_impl g \<or> (\<exists>k\<in>tasks_of xs. closes k \<and> k \<noteq> RunDisconnect)) \<and>
     cl_told g = (if cl_impl g then 0 else 1) \<and>
     list_all (place_ok (cl_closing g) (cl_socket g) (cl_connection g)) xs)"

lemma places_update:
  assumes "t < length xs" "xs ! t = (k, p)"
  shows "places P (xs[t := (k, p')]) + (if P p then 1 else 0) = places P xs + (if P p' then 1 else 0)"
  using assms
  by (induction xs arbitrary: t) (auto simp: places_def split: nat.splits)

lemma shared_holds_update:
  assumes "t < length xs" "xs ! t = (k, p)"
  shows "shared_holds (xs[t := (k, p')]) + holds p = shared_holds xs + holds p'"
  using assms
  by (induction xs arbitrary: t) (auto simp: shared_holds_def split: nat.splits)

lemma no_holds: "shared_holds xs = 0 \<longleftrightarrow> (\<forall>x\<in>set xs. holds (snd x) = 0)"
  by (simp add: shared_holds_def)

lemma places_pos: "x \<in> set xs \<Longrightarrow> P (snd x) \<Longrightarrow> 0 < places P xs"
  by (auto simp: places_def filter_empty_conv)

lemma thread_pos: "t < length xs \<Longrightarrow> xs ! t = (k, p) \<Longrightarrow> P p \<Longrightarrow> 0 < places P xs"
  using places_pos [of "xs ! t" xs P] nth_mem [of t xs] by simp

lemma places_others:
  assumes "t < length xs" "xs ! t = (k, p)" "P p" "places P xs \<le> 1" "j < length xs" "j \<noteq> t"
  shows "\<not> P (snd (xs ! j))"
proof
  assume "P (snd (xs ! j))"
  then have "{t, j} \<subseteq> {i. i < length xs \<and> P (snd (xs ! i))}" using assms by auto
  moreover have "finite {i. i < length xs \<and> P (snd (xs ! i))}" by simp
  ultimately have "card {t, j} \<le> places P xs"
    unfolding places_def length_filter_conv_card by (rule card_mono [rotated])
  then show False using assms by simp
qed

lemma update_all:
  assumes "list_all Q xs" "\<And>j. j < length xs \<Longrightarrow> j \<noteq> t \<Longrightarrow> Q (xs ! j) \<Longrightarrow> Q' (xs ! j)" "Q' y"
  shows "list_all Q' (xs[t := y])"
  using assms by (auto simp: list_all_length) (metis nth_list_update_eq nth_list_update_neq)

lemma tasks_update:
  assumes "t < length xs" "xs ! t = (k, p)"
  shows "tasks_of (xs[t := (k, p')]) = tasks_of xs" and "k \<in> tasks_of xs"
proof -
  have "map fst (xs[t := (k, p')]) = map fst xs"
    using assms by (metis fst_conv list_update_id map_update)
  then show "tasks_of (xs[t := (k, p')]) = tasks_of xs" unfolding tasks_of_def by (metis list.set_map)
  show "k \<in> tasks_of xs" using assms nth_mem [of t xs] by (force simp: tasks_of_def)
qed

text \<open>A step that touches at most the mutex.\<close>

lemma quiet_move:
  assumes inv: "lock_inv owners s" and t: "t < length (ls_threads s)" "ls_threads s ! t = (k, p)"
    and owners: "owners_ok owners m ((ls_threads s)[t := (k, p')])"
    and closer: "is_closer p' \<longleftrightarrow> is_closer p"
    and ok: "place_ok (cl_closing (ls_shared s)) (cl_socket (ls_shared s)) (cl_connection (ls_shared s)) (k, p')"
  shows "lock_inv owners \<lparr>ls_shared = (ls_shared s)\<lparr>cl_mutex := m\<rparr>, ls_threads = (ls_threads s)[t := (k, p')]\<rparr>"
proof -
  let ?ys = "(ls_threads s)[t := (k, p')]"
  have "places is_closer ?ys = places is_closer (ls_threads s)"
    using places_update [OF t, of is_closer p'] closer by simp
  moreover have "tasks_of ?ys = tasks_of (ls_threads s)" using t by (rule tasks_update)
  moreover have "list_all (place_ok (cl_closing (ls_shared s)) (cl_socket (ls_shared s)) (cl_connection (ls_shared s))) ?ys"
    using inv ok
    by (intro update_all [where Q = "place_ok (cl_closing (ls_shared s)) (cl_socket (ls_shared s)) (cl_connection (ls_shared s))"])
       (simp_all add: lock_inv_def Let_def)
  ultimately show ?thesis
    using inv owners by (simp add: lock_inv_def Let_def)
qed

lemma thread_place_ok:
  assumes "lock_inv owners s" "t < length (ls_threads s)" "ls_threads s ! t = (k, p)"
  shows "place_ok (cl_closing (ls_shared s)) (cl_socket (ls_shared s)) (cl_connection (ls_shared s)) (k, p)"
  using assms by (auto simp: lock_inv_def Let_def list_all_length)

lemma lock_inv_places: "lock_inv owners s \<Longrightarrow>
    list_all (place_ok (cl_closing (ls_shared s)) (cl_socket (ls_shared s)) (cl_connection (ls_shared s))) (ls_threads s)"
  by (simp add: lock_inv_def Let_def)

lemma lock_inv_owners: "lock_inv owners s \<Longrightarrow> owners_ok owners (cl_mutex (ls_shared s)) (ls_threads s)"
  by (simp add: lock_inv_def Let_def)

text \<open>A step that leaves the mutex alone and does not change what the thread owns.\<close>

lemma owners_ok_silent:
  assumes "owners_ok owners m xs" "t < length xs" "xs ! t = (k, p)"
    and "holds p' = holds p" "in_upgrade p' \<longleftrightarrow> in_upgrade p" "in_exclusive p' \<longleftrightarrow> in_exclusive p"
  shows "owners_ok owners m (xs[t := (k, p')])"
proof -
  have "places P (xs[t := (k, p')]) = places P xs" if "P p' \<longleftrightarrow> P p" for P
    using places_update [OF assms(2,3), of P p'] that by simp
  note same = this [OF assms(5)] this [OF assms(6)]
  have "shared_holds (xs[t := (k, p')]) = shared_holds xs"
    using shared_holds_update [OF assms(2,3), of p'] assms(4) by simp
  then show ?thesis using assms(1) by (simp add: owners_ok_def same)
qed

lemma owners_ok_lock_shared:
  assumes "mutex_ok M owners" "owners_ok owners m xs" "t < length xs" "xs ! t = (k, p)"
    and "holds p' = Suc (holds p)" "\<not> in_upgrade p" "\<not> in_exclusive p" "\<not> in_upgrade p'" "\<not> in_exclusive p'"
    and "ma_lock_shared M m = Some m'"
  shows "owners_ok owners m' (xs[t := (k, p')])"
proof -
  have "shared_holds (xs[t := (k, p')]) = Suc (shared_holds xs)"
    "places in_upgrade (xs[t := (k, p')]) = places in_upgrade xs"
    "places in_exclusive (xs[t := (k, p')]) = places in_exclusive xs"
    using shared_holds_update [OF assms(3,4), of p'] places_update [OF assms(3,4), of in_upgrade p']
      places_update [OF assms(3,4), of in_exclusive p'] assms(5-9) by simp_all
  then show ?thesis using lock_shared_law [OF assms(1,10)] assms(2) by (auto simp: owners_ok_def)
qed

lemma owners_ok_unlock_shared:
  assumes "mutex_ok M owners" "owners_ok owners m xs" "t < length xs" "xs ! t = (k, p)"
    and "holds p = Suc (holds p')" "\<not> in_upgrade p" "\<not> in_exclusive p" "\<not> in_upgrade p'" "\<not> in_exclusive p'"
  shows "owners_ok owners (ma_unlock_shared M m) (xs[t := (k, p')])"
proof -
  have n: "shared_holds xs = Suc (shared_holds (xs[t := (k, p')]))"
    and "places in_upgrade (xs[t := (k, p')]) = places in_upgrade xs"
    "places in_exclusive (xs[t := (k, p')]) = places in_exclusive xs"
    using shared_holds_update [OF assms(3,4), of p'] places_update [OF assms(3,4), of in_upgrade p']
      places_update [OF assms(3,4), of in_exclusive p'] assms(5-9) by simp_all
  moreover have "owners (ma_unlock_shared M m) = (shared_holds (xs[t := (k, p')]),
      0 < places in_upgrade xs, 0 < places in_exclusive xs)"
    using assms(2) n by (intro unlock_shared_law [OF assms(1)]) (simp add: owners_ok_def)
  ultimately show ?thesis using assms(2) by (auto simp: owners_ok_def)
qed

lemma owners_ok_lock_upgrade:
  assumes "mutex_ok M owners" "owners_ok owners m xs" "t < length xs" "xs ! t = (k, InDisconnect LockUpgrade)"
    and "ma_lock_upgrade M m = Some m'"
  shows "owners_ok owners m' (xs[t := (k, InDisconnect Upgrade)])"
proof -
  let ?ys = "xs[t := (k, InDisconnect Upgrade)]"
  have "shared_holds ?ys = shared_holds xs" "places in_upgrade ?ys = Suc (places in_upgrade xs)"
    "places in_exclusive ?ys = places in_exclusive xs"
    using shared_holds_update [OF assms(3,4), of "InDisconnect Upgrade"]
      places_update [OF assms(3,4), of in_upgrade "InDisconnect Upgrade"]
      places_update [OF assms(3,4), of in_exclusive "InDisconnect Upgrade"] by simp_all
  then show ?thesis using lock_upgrade_law [OF assms(1,5)] assms(2) by (auto simp: owners_ok_def)
qed

lemma owners_ok_upgrade:
  assumes "mutex_ok M owners" "owners_ok owners m xs" "t < length xs" "xs ! t = (k, InDisconnect Upgrade)"
    and "ma_upgrade M m = Some m'"
  shows "owners_ok owners m' (xs[t := (k, InDisconnect SecondTest)])"
proof -
  let ?ys = "xs[t := (k, InDisconnect SecondTest)]"
  have "shared_holds ?ys = shared_holds xs" "Suc (places in_upgrade ?ys) = places in_upgrade xs"
    "places in_exclusive ?ys = Suc (places in_exclusive xs)"
    using shared_holds_update [OF assms(3,4), of "InDisconnect SecondTest"]
      places_update [OF assms(3,4), of in_upgrade "InDisconnect SecondTest"]
      places_update [OF assms(3,4), of in_exclusive "InDisconnect SecondTest"] by simp_all
  then show ?thesis using upgrade_law [OF assms(1,5)] assms(2) by (auto simp: owners_ok_def)
qed

lemma owners_ok_unlock:
  assumes "mutex_ok M owners" "owners_ok owners m xs" "t < length xs" "xs ! t = (k, InDisconnect (GiveBack b))"
    and "holds p' = 0" "\<not> in_upgrade p'" "\<not> in_exclusive p'"
  shows "owners_ok owners (ma_unlock M m) (xs[t := (k, p')])"
proof -
  let ?ys = "xs[t := (k, p')]"
  have ex: "in_exclusive (InDisconnect (GiveBack b))" by (cases b) simp_all
  then have "shared_holds ?ys = shared_holds xs" "places in_upgrade ?ys = places in_upgrade xs"
    "Suc (places in_exclusive ?ys) = places in_exclusive xs"
    using shared_holds_update [OF assms(3,4), of p'] places_update [OF assms(3,4), of in_upgrade p']
      places_update [OF assms(3,4), of in_exclusive p'] assms(5-7) by simp_all
  moreover from this have "owners m = (0, False, True)" using assms(2) by (auto simp: owners_ok_def)
  ultimately show ?thesis
    using unlock_law [OF assms(1)] assms(2) by (auto simp: owners_ok_def)
qed

text \<open>The steps of the one thread that closes.\<close>

lemma place_ok_closing:
  "place_ok False s n (k, q) \<Longrightarrow> holds q = 0 \<Longrightarrow> \<not> in_exclusive q \<Longrightarrow> place_ok True s n (k, q)"
  by (cases q) (auto split: raw_place.splits if_splits)

lemma place_ok_other:
  "place_ok c s n (k, q) \<Longrightarrow> \<not> is_closer q \<Longrightarrow> place_ok c s' n' (k, q)"
  by (cases q) (auto split: raw_place.splits)

lemma set_closing_keeps:
  assumes inv: "lock_inv owners s" and t: "t < length (ls_threads s)" "ls_threads s ! t = (k, InDisconnect SetClosing)"
  shows "lock_inv owners \<lparr>ls_shared = (ls_shared s)\<lparr>cl_closing := True\<rparr>,
           ls_threads = (ls_threads s)[t := (k, InDisconnect (GiveBack True))]\<rparr>"
proof -
  let ?g = "ls_shared s" let ?xs = "ls_threads s" let ?ys = "?xs[t := (k, InDisconnect (GiveBack True))]"
  have open_: "\<not> cl_closing ?g" and k: "closes k" using thread_place_ok [OF inv t] by auto
  then have g: "cl_impl ?g" "cl_socket ?g" "cl_connection ?g" "places is_closer ?xs = 0" "cl_told ?g = 0"
    using inv by (auto simp: lock_inv_def Let_def)
  have "0 < places in_exclusive ?xs"
    using t by (rule thread_pos) simp
  then have one: "places in_exclusive ?xs \<le> 1" and none: "shared_holds ?xs = 0"
    using lock_inv_owners [OF inv] by (auto simp: owners_ok_def)
  have "list_all (place_ok True (cl_socket ?g) (cl_connection ?g)) ?ys"
  proof (rule update_all)
    show "list_all (place_ok False (cl_socket ?g) (cl_connection ?g)) ?xs"
      using lock_inv_places [OF inv] open_ by simp
    show "place_ok True (cl_socket ?g) (cl_connection ?g) (k, InDisconnect (GiveBack True))"
      using k g by simp
  next
    fix j assume j: "j < length ?xs" "j \<noteq> t" and ok: "place_ok False (cl_socket ?g) (cl_connection ?g) (?xs ! j)"
    have "\<not> in_exclusive (snd (?xs ! j))" using places_others [OF t _ one j] by simp
    moreover have "holds (snd (?xs ! j)) = 0" using none j by (simp add: no_holds)
    ultimately show "place_ok True (cl_socket ?g) (cl_connection ?g) (?xs ! j)"
      using ok place_ok_closing by (cases "?xs ! j") auto
  qed
  moreover have "places is_closer ?ys = 1" using places_update [OF t, of is_closer "InDisconnect (GiveBack True)"] g by simp
  moreover have "owners_ok owners (cl_mutex ?g) ?ys"
    using lock_inv_owners [OF inv] t by (rule owners_ok_silent) simp_all
  moreover have "k \<in> tasks_of ?ys" using tasks_update [OF t] by simp
  ultimately show ?thesis using g k by (auto simp: lock_inv_def Let_def)
qed

lemma closer_facts:
  assumes inv: "lock_inv owners s" and t: "t < length (ls_threads s)" "ls_threads s ! t = (k, p)" and p: "is_closer p"
  shows "cl_closing (ls_shared s)" "cl_impl (ls_shared s)" "cl_told (ls_shared s) = 0"
    and "places is_closer (ls_threads s) = 1"
    and "\<And>sock conn k' p'. place_ok True sock conn (k', p') \<Longrightarrow>
      list_all (place_ok True sock conn) ((ls_threads s)[t := (k', p')])"
proof -
  have "0 < places is_closer (ls_threads s)"
    using t p by (rule thread_pos)
  then show c: "cl_closing (ls_shared s)" "cl_impl (ls_shared s)" "cl_told (ls_shared s) = 0"
    and one: "places is_closer (ls_threads s) = 1"
    using inv by (auto simp: lock_inv_def Let_def)
  fix sock conn k' p' assume ok: "place_ok True sock conn (k', p')"
  show "list_all (place_ok True sock conn) ((ls_threads s)[t := (k', p')])"
  proof (rule update_all [where Q' = "place_ok True sock conn", OF _ _ ok])
    show "list_all (place_ok True (cl_socket (ls_shared s)) (cl_connection (ls_shared s))) (ls_threads s)"
      using lock_inv_places [OF inv] c by simp
  next
    fix j assume j: "j < length (ls_threads s)" "j \<noteq> t"
      and "place_ok True (cl_socket (ls_shared s)) (cl_connection (ls_shared s)) (ls_threads s ! j)"
    moreover have "\<not> is_closer (snd (ls_threads s ! j))"
      using places_others [OF t, of is_closer, OF p _ j] one by simp
    ultimately show "place_ok True sock conn (ls_threads s ! j)"
      using place_ok_other by (cases "ls_threads s ! j") auto
  qed
qed

lemma closer_keeps:
  assumes inv: "lock_inv owners s" and t: "t < length (ls_threads s)" "ls_threads s ! t = (k, p)" and p: "is_closer p"
    and q: "holds p = 0" "\<not> in_upgrade p" "\<not> in_exclusive p" "holds p' = 0" "\<not> in_upgrade p'" "\<not> in_exclusive p'"
    and ok: "place_ok True (cl_socket g) (cl_connection g) (k, p')"
    and g: "cl_mutex g = cl_mutex (ls_shared s)" "cl_closing g" "cl_told g = (if cl_impl g then 0 else 1)"
    and k: "closes k" "cl_impl g \<or> k \<noteq> RunDisconnect"
    and stay: "is_closer p' \<and> cl_impl g \<or>
      \<not> is_closer p' \<and> \<not> cl_socket g \<and> \<not> cl_connection g \<and> (cl_impl g \<longrightarrow> k = RunDisconnect)"
  shows "lock_inv owners \<lparr>ls_shared = g, ls_threads = (ls_threads s)[t := (k, p')]\<rparr>"
proof -
  let ?ys = "(ls_threads s)[t := (k, p')]"
  have "owners_ok owners (cl_mutex g) ?ys"
    unfolding g(1) using lock_inv_owners [OF inv] t by (rule owners_ok_silent) (use q in simp_all)
  moreover have "places is_closer ?ys = (if is_closer p' then 1 else 0)"
    using places_update [OF t, of is_closer p'] closer_facts(4) [OF inv t p] p by (simp split: if_splits)
  moreover have "k \<in> tasks_of ?ys" using tasks_update [OF t] by simp
  ultimately show ?thesis
    using closer_facts(5) [OF inv t p ok] g stay k by (auto simp: lock_inv_def Let_def)
qed

section \<open>Every step keeps the invariant\<close>

text \<open>
  What a step may do: keep the invariant, or, in \<open>Connection::Disconnect\<close> only, find the
  raw connection gone that its last test has seen.
\<close>

definition step_fine :: "('m \<Rightarrow> nat \<times> bool \<times> bool) \<Rightarrow> 'm lock_state \<Rightarrow> nat \<Rightarrow> task \<Rightarrow>
    (place \<times> 'm closing) outcome \<Rightarrow> bool" where
  "step_fine owners s t k r \<longleftrightarrow> (case r of
     Inl f \<Rightarrow> k = RunDisconnect \<and> f = NullDeref \<and> \<not> cl_impl (ls_shared s)
   | Inr (p', g) \<Rightarrow> lock_inv owners \<lparr>ls_shared = g, ls_threads = (ls_threads s)[t := (k, p')]\<rparr>)"

lemma step_fine_silent:
  assumes "lock_inv owners s" "t < length (ls_threads s)" "ls_threads s ! t = (k, p)"
    and "holds p' = holds p" "in_upgrade p' \<longleftrightarrow> in_upgrade p" "in_exclusive p' \<longleftrightarrow> in_exclusive p"
    and "is_closer p' \<longleftrightarrow> is_closer p"
    and "place_ok (cl_closing (ls_shared s)) (cl_socket (ls_shared s)) (cl_connection (ls_shared s)) (k, p')"
  shows "step_fine owners s t k (Inr (p', ls_shared s))"
  using quiet_move [OF assms(1-3) owners_ok_silent [OF lock_inv_owners [OF assms(1)] assms(2-6)] assms(7,8)]
  by (simp add: step_fine_def)

lemma step_fine_mutex:
  assumes "lock_inv owners s" "t < length (ls_threads s)" "ls_threads s ! t = (k, p)"
    and "owners_ok owners m ((ls_threads s)[t := (k, p')])" "is_closer p' \<longleftrightarrow> is_closer p"
    and "place_ok (cl_closing (ls_shared s)) (cl_socket (ls_shared s)) (cl_connection (ls_shared s)) (k, p')"
  shows "step_fine owners s t k (Inr (p', (ls_shared s)\<lparr>cl_mutex := m\<rparr>))"
  using quiet_move [OF assms] by (simp add: step_fine_def)

lemma impl_or_closing: "lock_inv owners s \<Longrightarrow> cl_closing (ls_shared s) \<or> cl_impl (ls_shared s)"
  by (auto simp: lock_inv_def Let_def)

lemma raw_disconnect_fine:
  assumes M: "mutex_ok M owners" and inv: "lock_inv owners s"
    and t: "t < length (ls_threads s)" "ls_threads s ! t = (k, InDisconnect p)"
    and async: "async \<longleftrightarrow> k \<noteq> RunDisconnect"
    and step: "raw_disconnect_step M async p (ls_shared s) = Some r"
  shows "step_fine owners s t k r"
proof (cases p)
  case FirstTest
  then show ?thesis
    using step thread_place_ok [OF inv t]
    by (cases "cl_closing (ls_shared s)") (auto intro!: step_fine_silent [OF inv t])
next
  case GiveBackShared
  then show ?thesis
    using step thread_place_ok [OF inv t]
    by (auto simp: leave_shared_def
        intro!: step_fine_mutex [OF inv t] owners_ok_unlock_shared [OF M lock_inv_owners [OF inv] t])
next
  case LockUpgrade
  with t have t': "ls_threads s ! t = (k, InDisconnect LockUpgrade)" by simp
  show ?thesis
    using step LockUpgrade thread_place_ok [OF inv t]
    by (auto intro!: step_fine_mutex [OF inv t] owners_ok_lock_upgrade [OF M lock_inv_owners [OF inv] t(1) t'])
next
  case Upgrade
  with t have t': "ls_threads s ! t = (k, InDisconnect Upgrade)" by simp
  show ?thesis
    using step Upgrade thread_place_ok [OF inv t]
    by (auto intro!: step_fine_mutex [OF inv t] owners_ok_upgrade [OF M lock_inv_owners [OF inv] t(1) t'])
next
  case SecondTest
  then show ?thesis
    using step thread_place_ok [OF inv t]
    by (cases "cl_closing (ls_shared s)") (auto intro!: step_fine_silent [OF inv t])
next
  case SetClosing
  then show ?thesis
    using step set_closing_keeps [OF inv t(1)] t(2) by (auto simp: step_fine_def)
next
  case (GiveBack b)
  with t have t': "ls_threads s ! t = (k, InDisconnect (GiveBack b))" by simp
  show ?thesis
    using step GiveBack thread_place_ok [OF inv t]
    by (cases b) (auto intro!: step_fine_mutex [OF inv t] owners_ok_unlock [OF M lock_inv_owners [OF inv] t(1) t'])
next
  case CloseSocket
  then show ?thesis
    using step thread_place_ok [OF inv t] closer_facts(1-3) [OF inv t]
    by (auto simp: step_fine_def intro!: closer_keeps [OF inv t])
next
  case DropConnection
  let ?g = "(ls_shared s)\<lparr>cl_connection := False\<rparr>"
  have f: "cl_closing (ls_shared s)" "cl_impl (ls_shared s)" "cl_told (ls_shared s) = 0" "closes k"
    "cl_connection (ls_shared s)" "\<not> cl_socket (ls_shared s)"
    using closer_facts(1-3) [OF inv t] thread_place_ok [OF inv t] DropConnection by auto
  then have "lock_inv owners \<lparr>ls_shared = ?g,
      ls_threads = (ls_threads s)[t := (k, if async then InDisconnect CallImplClosed else Finished)]\<rparr>"
    using DropConnection async by (intro closer_keeps [OF inv t]) auto
  then show ?thesis using step DropConnection f by (auto simp: step_fine_def split: if_splits)
next
  case CallImplClosed
  then show ?thesis
    using step thread_place_ok [OF inv t] closer_facts(1-3) [OF inv t]
    by (auto simp: step_fine_def intro!: closer_keeps [OF inv t])
qed

lemma member_fine:
  assumes inv: "lock_inv owners s" and t: "t < length (ls_threads s)" "ls_threads s ! t = (k, Member n)"
    and goes: "next' = Member \<or> next' = (\<lambda>m. Again m AgainLock) \<and> nests k"
    and k: "k = RunDisconnect \<Longrightarrow> f = NullDeref" and fails: "fails \<longleftrightarrow> closes k"
    and step: "member_step f next' fails n (ls_shared s) = Some r"
  shows "step_fine owners s t k r"
proof (cases "cl_impl (ls_shared s)")
  case True
  let ?p = "case n of Suc m \<Rightarrow> next' m | 0 \<Rightarrow> if fails then InDisconnect FirstTest else LeaveShared"
  have "step_fine owners s t k (Inr (?p, ls_shared s))"
    by (rule step_fine_silent [OF inv t])
       (use fails goes thread_place_ok [OF inv t] in \<open>auto split: nat.splits\<close>)
  then show ?thesis using step True by (simp add: member_step_def)
next
  case False
  then have "k = RunDisconnect" using thread_place_ok [OF inv t] impl_or_closing [OF inv] by auto
  then show ?thesis using step False k by (auto simp: member_step_def step_fine_def)
qed

lemma enter_shared_fine:
  assumes M: "mutex_ok M owners" and inv: "lock_inv owners s"
    and t: "t < length (ls_threads s)" "ls_threads s ! t = (k, p)"
    and "holds p' = Suc (holds p)" "\<not> in_upgrade p" "\<not> in_exclusive p" "\<not> in_upgrade p'" "\<not> in_exclusive p'"
    and "is_closer p' \<longleftrightarrow> is_closer p"
    and "place_ok (cl_closing (ls_shared s)) (cl_socket (ls_shared s)) (cl_connection (ls_shared s)) (k, p')"
    and "enter_shared M p' (ls_shared s) = Some r"
  shows "step_fine owners s t k r"
  using assms by (auto simp: enter_shared_def intro!: step_fine_mutex [OF inv t]
      owners_ok_lock_shared [OF M lock_inv_owners [OF inv] t])

lemma leave_shared_fine:
  assumes M: "mutex_ok M owners" and inv: "lock_inv owners s"
    and t: "t < length (ls_threads s)" "ls_threads s ! t = (k, p)"
    and "holds p = Suc (holds p')" "\<not> in_upgrade p" "\<not> in_exclusive p" "\<not> in_upgrade p'" "\<not> in_exclusive p'"
    and "is_closer p' \<longleftrightarrow> is_closer p"
    and "place_ok (cl_closing (ls_shared s)) (cl_socket (ls_shared s)) (cl_connection (ls_shared s)) (k, p')"
    and "leave_shared M p' (ls_shared s) = Some r"
  shows "step_fine owners s t k r"
  using assms by (auto simp: leave_shared_def intro!: step_fine_mutex [OF inv t]
      owners_ok_unlock_shared [OF M lock_inv_owners [OF inv] t])

text \<open>A nested call: its tests cannot fail, since the handler holds the lock already.\<close>

lemma again_fine:
  assumes M: "mutex_ok M owners" and inv: "lock_inv owners s"
    and t: "t < length (ls_threads s)" "ls_threads s ! t = (k, Again n q)"
    and step: "again_step M n q (ls_shared s) = Some r"
  shows "step_fine owners s t k r"
proof -
  have ok: "\<not> cl_closing (ls_shared s)" "nests k" using thread_place_ok [OF inv t] by auto
  then have impl: "cl_impl (ls_shared s)" using impl_or_closing [OF inv] by simp
  show ?thesis
  proof (cases q)
    case AgainLock
    with step have e: "enter_shared M (Again n AgainTest) (ls_shared s) = Some r" by simp
    show ?thesis by (rule enter_shared_fine [OF M inv t _ _ _ _ _ _ _ e]) (use AgainLock ok in auto)
  next
    case AgainTest
    then show ?thesis using step ok by (auto intro!: step_fine_silent [OF inv t])
  next
    case AgainImpl
    then show ?thesis using step ok impl by (auto intro!: step_fine_silent [OF inv t])
  next
    case AgainMember
    then show ?thesis using step ok impl by (auto intro!: step_fine_silent [OF inv t])
  next
    case AgainLeave
    with step have e: "leave_shared M (Member n) (ls_shared s) = Some r" by simp
    show ?thesis by (rule leave_shared_fine [OF M inv t _ _ _ _ _ _ _ e]) (use AgainLeave ok in auto)
  qed
qed

lemma task_fine:
  assumes M: "mutex_ok M owners" and inv: "lock_inv owners s"
    and t: "t < length (ls_threads s)" "ls_threads s ! t = (k, p)"
    and step: "task_step M k p (ls_shared s) = Some r"
  shows "step_fine owners s t k r"
proof (cases p)
  case EarlyTest
  let ?p = "if cl_closing (ls_shared s) then Finished else LockShared"
  have "step_fine owners s t k (Inr (?p, ls_shared s))"
    by (rule step_fine_silent [OF inv t]) (use EarlyTest thread_place_ok [OF inv t] in auto)
  then show ?thesis using step EarlyTest thread_place_ok [OF inv t] by simp
next
  case LockShared
  with t have t': "ls_threads s ! t = (k, LockShared)" by simp
  let ?p = "case k of RunDisconnect \<Rightarrow> TestImpl | _ \<Rightarrow> TestClosing"
  have "enter_shared M ?p (ls_shared s) = Some r" using step LockShared by (cases k) simp_all
  from enter_shared_fine [OF M inv t(1) t' _ _ _ _ _ _ _ this] show ?thesis by (cases k) simp_all
next
  case TestClosing
  let ?p = "if cl_closing (ls_shared s) then LeaveShared
    else case k of RunHandler work _ \<Rightarrow> Member work | RunReader work _ \<Rightarrow> Member work | _ \<Rightarrow> TestImpl"
  have "step_fine owners s t k (Inr (?p, ls_shared s))"
    by (rule step_fine_silent [OF inv t])
       (use TestClosing thread_place_ok [OF inv t] in \<open>auto split: task.splits\<close>)
  then show ?thesis using step TestClosing thread_place_ok [OF inv t] by (cases k) auto
next
  case TestImpl
  let ?p = "if \<not> cl_impl (ls_shared s) then LeaveShared
    else Member (case k of RunExpired work _ \<Rightarrow> work | RunSend work \<Rightarrow> work | _ \<Rightarrow> 0)"
  have "step_fine owners s t k (Inr (?p, ls_shared s))"
    by (rule step_fine_silent [OF inv t])
       (use TestImpl thread_place_ok [OF inv t] impl_or_closing [OF inv] in \<open>auto split: task.splits\<close>)
  then show ?thesis using step TestImpl thread_place_ok [OF inv t] by (cases k) auto
next
  case (Member n)
  with t have t': "ls_threads s ! t = (k, Member n)" by simp
  let ?f = "case k of RunHandler _ _ \<Rightarrow> UseAfterFree | RunReader _ _ \<Rightarrow> UseAfterFree | _ \<Rightarrow> NullDeref"
  have "member_step ?f (if nests k then \<lambda>m. Again m AgainLock else Member) (closes k) n (ls_shared s) = Some r"
    using step Member by (cases k) simp_all
  then show ?thesis by (rule member_fine [OF inv t(1) t', rotated -1]) simp_all
next
  case (Again n q)
  with t have t': "ls_threads s ! t = (k, Again n q)" by simp
  have "again_step M n q (ls_shared s) = Some r" using step Again by (cases k) simp_all
  then show ?thesis by (rule again_fine [OF M inv t(1) t'])
next
  case LeaveShared
  with t have t': "ls_threads s ! t = (k, LeaveShared)" by simp
  have "leave_shared M Finished (ls_shared s) = Some r" using step LeaveShared by (cases k) simp_all
  then show ?thesis
    by (rule leave_shared_fine [OF M inv t(1) t', rotated -1]) (use LeaveShared thread_place_ok [OF inv t] in auto)
next
  case (InDisconnect q)
  with t have t': "ls_threads s ! t = (k, InDisconnect q)" by simp
  have "raw_disconnect_step M (k \<noteq> RunDisconnect) q (ls_shared s) = Some r"
    using step InDisconnect by (cases k) simp_all
  then show ?thesis by (rule raw_disconnect_fine [OF M inv t(1) t' refl])
next
  case Finished
  then show ?thesis using step by (cases k) auto
qed

section \<open>Schedules\<close>

definition race_possible :: "task set \<Rightarrow> bool" where
  "race_possible ks \<longleftrightarrow> RunDisconnect \<in> ks \<and> (\<exists>k\<in>ks. closes k \<and> k \<noteq> RunDisconnect)"

lemma schedule_step_keeps:
  assumes M: "mutex_ok M owners" and inv: "lock_inv owners s"
  shows "case schedule_step M t s of
      Inl f \<Rightarrow> f = NullDeref \<and> race_possible (tasks_of (ls_threads s))
    | Inr s' \<Rightarrow> lock_inv owners s' \<and> tasks_of (ls_threads s') = tasks_of (ls_threads s) \<and>
        length (ls_threads s') = length (ls_threads s)"
proof (cases "thread_step M t s")
  case None
  then show ?thesis using inv by (simp add: schedule_step_def)
next
  case (Some r)
  obtain k p where kp: "ls_threads s ! t = (k, p)" by (cases "ls_threads s ! t")
  have t: "t < length (ls_threads s)" using Some by (auto simp: thread_step_def split: if_splits)
  then obtain r' where r': "task_step M k p (ls_shared s) = Some r'"
    and r: "r = bind_outcome r' (\<lambda>(p', g). Inr \<lparr>ls_shared = g, ls_threads = (ls_threads s)[t := (k, p')]\<rparr>)"
    using Some kp by (auto simp: thread_step_def)
  have "step_fine owners s t k r'" using task_fine [OF M inv t kp r'] .
  moreover have "race_possible (tasks_of (ls_threads s))"
    if "k = RunDisconnect" "\<not> cl_impl (ls_shared s)"
    using that inv tasks_update(2) [OF t kp] by (auto simp: race_possible_def lock_inv_def Let_def)
  ultimately show ?thesis
    using Some r tasks_update(1) [OF t kp]
    by (cases r') (auto simp: schedule_step_def step_fine_def)
qed

lemma interleave_keeps:
  assumes M: "mutex_ok M owners" and inv: "lock_inv owners s"
  shows "case interleave M sched s of
      Inl f \<Rightarrow> f = NullDeref \<and> race_possible (tasks_of (ls_threads s))
    | Inr s' \<Rightarrow> lock_inv owners s' \<and> tasks_of (ls_threads s') = tasks_of (ls_threads s) \<and>
        length (ls_threads s') = length (ls_threads s)"
  using inv
proof (induction sched arbitrary: s)
  case (Cons t sched)
  show ?case
  proof (cases "schedule_step M t s")
    case (Inl f)
    then show ?thesis
      using schedule_step_keeps [OF M Cons.prems, of t] by (simp add: interleave_def)
  next
    case (Inr s')
    then have "lock_inv owners s'" "tasks_of (ls_threads s') = tasks_of (ls_threads s)"
      "length (ls_threads s') = length (ls_threads s)"
      using schedule_step_keeps [OF M Cons.prems, of t] by simp_all
    then show ?thesis using Cons.IH [of s'] Inr by (simp add: interleave_def split: sum.splits)
  qed
qed (simp add: interleave_def)

lemma lock_start_inv:
  assumes "owners m = (0, False, False)"
  shows "lock_inv owners (lock_start m tasks)" and "tasks_of (ls_threads (lock_start m tasks)) = set tasks"
proof -
  have entry: "holds (task_entry k) = 0" "\<not> in_upgrade (task_entry k)" "\<not> in_exclusive (task_entry k)"
    "\<not> is_closer (task_entry k)" "place_ok False True True (k, task_entry k)" for k
    by (cases k; simp)+
  have "places P (map (\<lambda>k. (k, task_entry k)) tasks) = 0" if "\<And>k. \<not> P (task_entry k)" for P
    using that by (simp add: places_def)
  moreover have "shared_holds (map (\<lambda>k. (k, task_entry k)) tasks) = 0" using entry by (simp add: no_holds)
  ultimately show "lock_inv owners (lock_start m tasks)"
    using assms entry by (simp add: lock_inv_def lock_start_def owners_ok_def list_all_iff)
  show "tasks_of (ls_threads (lock_start m tasks)) = set tasks"
    by (force simp: tasks_of_def lock_start_def)
qed

text \<open>What the invariant says when every thread is through.\<close>

lemma finished_state:
  assumes inv: "lock_inv owners s" and fin: "all_finished s"
    and some: "k \<in> tasks_of (ls_threads s)" "closes k"
  shows "cl_closing (ls_shared s)" "\<not> cl_socket (ls_shared s)" "\<not> cl_connection (ls_shared s)"
    "RunDisconnect \<in> tasks_of (ls_threads s) \<or> \<not> cl_impl (ls_shared s)"
proof -
  have at_end: "p = Finished" if "(k, p) \<in> set (ls_threads s)" for k p
    using fin that by (auto simp: all_finished_def list_all_iff)
  obtain p where p: "(k, p) \<in> set (ls_threads s)" using some(1) by (auto simp: tasks_of_def)
  then have "place_ok (cl_closing (ls_shared s)) (cl_socket (ls_shared s)) (cl_connection (ls_shared s)) (k, p)"
    using lock_inv_places [OF inv] by (simp add: list_all_iff)
  then show c: "cl_closing (ls_shared s)" using some(2) at_end [OF p] by simp
  have "places is_closer (ls_threads s) = 0"
    using at_end by (fastforce simp: places_def filter_empty_conv)
  then show "\<not> cl_socket (ls_shared s)" "\<not> cl_connection (ls_shared s)"
    "RunDisconnect \<in> tasks_of (ls_threads s) \<or> \<not> cl_impl (ls_shared s)"
    using inv c by (auto simp: lock_inv_def Let_def)
qed

section \<open>Who can go on\<close>

text \<open>The statements a thread has still to run, at most.\<close>

fun task_work :: "task \<Rightarrow> nat" where
  "task_work (RunHandler n fails) = n"
| "task_work (RunReader n fails) = 6 * n"
| "task_work (RunExpired n fails) = n"
| "task_work (RunSend n) = n"
| "task_work RunDisconnect = 0"

fun steps_left :: "task \<times> place \<Rightarrow> nat" where
  "steps_left (k, EarlyTest) = task_work k + 15"
| "steps_left (k, LockShared) = task_work k + 14"
| "steps_left (k, TestClosing) = task_work k + 13"
| "steps_left (k, TestImpl) = task_work k + 12"
| "steps_left (k, Member n) = (if nests k then 6 * n else n) + 11"
| "steps_left (k, Again n q) = 6 * n + 11 + (case q of
     AgainLock \<Rightarrow> 5 | AgainTest \<Rightarrow> 4 | AgainImpl \<Rightarrow> 3 | AgainMember \<Rightarrow> 2 | AgainLeave \<Rightarrow> 1)"
| "steps_left (k, LeaveShared) = 1"
| "steps_left (k, Finished) = 0"
| "steps_left (k, InDisconnect p) = (case p of
     FirstTest \<Rightarrow> 10 | GiveBackShared \<Rightarrow> 9 | LockUpgrade \<Rightarrow> 8 | Upgrade \<Rightarrow> 7 | SecondTest \<Rightarrow> 6
   | SetClosing \<Rightarrow> 5 | GiveBack b \<Rightarrow> 4 | CloseSocket \<Rightarrow> 3 | DropConnection \<Rightarrow> 2 | CallImplClosed \<Rightarrow> 1)"

definition work_left :: "'m lock_state \<Rightarrow> nat" where
  "work_left s = sum_list (map steps_left (ls_threads s))"

lemma raw_disconnect_work:
  assumes "raw_disconnect_step M async q g = Some (Inr (p', g'))"
  shows "steps_left (k, p') < steps_left (k, InDisconnect q)"
  using assms by (cases q) (auto simp: leave_shared_def split: if_splits)

lemma task_step_work:
  assumes "task_step M k p g = Some (Inr (p', g'))"
  shows "steps_left (k, p') < steps_left (k, p)"
proof (cases p)
  case (InDisconnect q)
  obtain async where "raw_disconnect_step M async q g = Some (Inr (p', g'))"
    using assms InDisconnect by (cases k) auto
  then show ?thesis using InDisconnect raw_disconnect_work by simp
next
  case (Member n)
  obtain f fails where "member_step f (if nests k then \<lambda>m. Again m AgainLock else Member) fails n g = Some (Inr (p', g'))"
    using assms Member by (cases k) auto
  then show ?thesis using Member by (auto simp: member_step_def split: if_splits nat.splits)
next
  case (Again n q)
  then have "again_step M n q g = Some (Inr (p', g')) \<and> nests k" using assms by (cases k) auto
  then show ?thesis using Again by (cases q) (auto simp: enter_shared_def leave_shared_def split: if_splits)
qed (use assms in \<open>cases k; auto simp: enter_shared_def leave_shared_def split: if_splits\<close>)+

lemma sum_list_less:
  assumes "t < length xs" "f y < f (xs ! t)"
  shows "sum_list (map f (xs[t := y])) < (sum_list (map f xs) :: nat)"
  using assms by (induction xs arbitrary: t) (auto split: nat.splits)

lemma thread_step_work:
  assumes "thread_step M t s = Some (Inr s')"
  shows "work_left s' < work_left s"
proof -
  obtain k p where kp: "ls_threads s ! t = (k, p)" by (cases "ls_threads s ! t")
  have t: "t < length (ls_threads s)" using assms by (auto simp: thread_step_def split: if_splits)
  obtain p' g' where step: "task_step M k p (ls_shared s) = Some (Inr (p', g'))"
    and s': "s' = \<lparr>ls_shared = g', ls_threads = (ls_threads s)[t := (k, p')]\<rparr>"
    using assms t kp by (auto simp: thread_step_def)
  show ?thesis
    using sum_list_less [OF t, of steps_left "(k, p')"] task_step_work [OF step] kp s'
    by (simp add: work_left_def)
qed

text \<open>The mutex makes somebody wait only while somebody else can go on.\<close>

definition can_step :: "'m mutex_api \<Rightarrow> 'm lock_state \<Rightarrow> nat \<Rightarrow> bool" where
  "can_step M s t \<longleftrightarrow> thread_step M t s \<noteq> None"

lemma waits_only_for_mutex:
  assumes inv: "lock_inv owners s" and t: "t < length (ls_threads s)" "ls_threads s ! t = (k, p)"
    and "\<not> can_step M s t" "p \<noteq> Finished"
  shows "(p = LockShared \<or> (\<exists>n. p = Again n AgainLock \<and> nests k)) \<and> ma_lock_shared M (cl_mutex (ls_shared s)) = None \<or>
    p = InDisconnect LockUpgrade \<and> ma_lock_upgrade M (cl_mutex (ls_shared s)) = None \<or>
    p = InDisconnect Upgrade \<and> ma_upgrade M (cl_mutex (ls_shared s)) = None"
proof -
  have none: "task_step M k p (ls_shared s) = None"
    using assms by (auto simp: can_step_def thread_step_def)
  note ok = thread_place_ok [OF inv t]
  show ?thesis
  proof (cases p)
    case (InDisconnect q)
    then have "closes k" using ok by simp
    then obtain async where "raw_disconnect_step M async q (ls_shared s) = None"
      using none InDisconnect by (cases k) auto
    then show ?thesis using InDisconnect by (cases q) (auto simp: leave_shared_def)
  next
    case (Again n q)
    then have "again_step M n q (ls_shared s) = None" using none ok by (cases k) auto
    then show ?thesis using Again ok by (cases q) (auto simp: enter_shared_def leave_shared_def)
  qed (use none ok assms(5) in \<open>cases k; auto simp: enter_shared_def leave_shared_def member_step_def\<close>)+
qed

text \<open>
  What a nested call needs: shared ownership is granted beside an upgrade owner, also while that one
  waits to become the exclusive owner.
\<close>

definition mutex_shares :: "'m mutex_api \<Rightarrow> ('m \<Rightarrow> nat \<times> bool \<times> bool) \<Rightarrow> bool" where
  "mutex_shares M owners \<longleftrightarrow> (\<forall>m n u. owners m = (n, u, False) \<longrightarrow> ma_lock_shared M m \<noteq> None)"

definition nested_ok :: "'m mutex_api \<Rightarrow> ('m \<Rightarrow> nat \<times> bool \<times> bool) \<Rightarrow> task set \<Rightarrow> bool" where
  "nested_ok M owners ks \<longleftrightarrow> (\<forall>k\<in>ks. \<not> nests k) \<or> mutex_shares M owners"

lemma somebody_steps:
  assumes M: "mutex_ok M owners" and inv: "lock_inv owners s" and "\<not> all_finished s"
    and nested: "nested_ok M owners (tasks_of (ls_threads s))"
  shows "\<exists>t<length (ls_threads s). can_step M s t"
proof (rule ccontr)
  assume stuck: "\<not> (\<exists>t<length (ls_threads s). can_step M s t)"
  let ?xs = "ls_threads s" let ?m = "cl_mutex (ls_shared s)"
  have wait: "p = Finished \<or> (p = LockShared \<or> (\<exists>n. p = Again n AgainLock \<and> nests k)) \<and> ma_lock_shared M ?m = None \<or>
      p = InDisconnect LockUpgrade \<and> ma_lock_upgrade M ?m = None \<or>
      p = InDisconnect Upgrade \<and> ma_upgrade M ?m = None" if x: "(k, p) \<in> set ?xs" for k p
  proof -
    obtain t where "t < length ?xs" "?xs ! t = (k, p)" using x by (auto simp: in_set_conv_nth)
    then show ?thesis using waits_only_for_mutex [OF inv, of t k p M] stuck by auto
  qed
  have ex: "places in_exclusive ?xs = 0"
    using wait by (fastforce simp: places_def filter_empty_conv)
  have sh: "shared_holds ?xs = 0"
  proof (rule ccontr)
    assume "shared_holds ?xs \<noteq> 0"
    then obtain k p where kp: "(k, p) \<in> set ?xs" "holds p \<noteq> 0" by (auto simp: no_holds)
    then have "nests k" "ma_lock_shared M ?m = None" using wait [OF kp(1)] by auto
    moreover have "k \<in> tasks_of ?xs" using kp(1) by (force simp: tasks_of_def)
    moreover have "\<exists>n u. owners ?m = (n, u, False)" using lock_inv_owners [OF inv] ex by (simp add: owners_ok_def)
    ultimately show False using nested unfolding nested_ok_def mutex_shares_def by blast
  qed
  show False
  proof (cases "places in_upgrade ?xs = 0")
    case True
    then have "owners ?m = (0, False, False)" using lock_inv_owners [OF inv] sh ex by (simp add: owners_ok_def)
    then have free: "ma_lock_shared M ?m \<noteq> None" "ma_lock_upgrade M ?m \<noteq> None" using free_law [OF M] by auto
    have "p = Finished" if "(k, p) \<in> set ?xs" for k p
      using wait [OF that] free True places_pos [OF that, of in_upgrade] by auto
    then show False using assms(3) by (auto simp: all_finished_def list_all_iff)
  next
    case False
    then have "owners ?m = (0, True, False)" using lock_inv_owners [OF inv] sh ex by (simp add: owners_ok_def)
    then have free: "ma_upgrade M ?m \<noteq> None" using upgrade_free_law [OF M] by auto
    obtain k p where "(k, p) \<in> set ?xs" "in_upgrade p" using False by (auto simp: places_def filter_empty_conv)
    then show False using wait [of k p] free by auto
  qed
qed

section \<open>Fair schedules finish\<close>

lemma interleave_work:
  assumes "interleave M sched s = Inr s'"
  shows "work_left s' < work_left s \<or> s' = s \<and> list_all (\<lambda>t. \<not> can_step M s t) sched"
  using assms
proof (induction sched arbitrary: s)
  case (Cons t sched)
  show ?case
  proof (cases "thread_step M t s")
    case None
    then have "interleave M sched s = Inr s'" using Cons.prems by (simp add: interleave_def schedule_step_def)
    then show ?thesis using Cons.IH None by (auto simp: can_step_def)
  next
    case (Some r)
    then obtain s1 where s1: "r = Inr s1" and rest: "interleave M sched s1 = Inr s'"
      using Cons.prems by (cases r) (auto simp: interleave_def schedule_step_def)
    have "work_left s1 < work_left s" using thread_step_work Some s1 by blast
    then show ?thesis using Cons.IH [OF rest] by auto
  qed
qed (simp add: interleave_def)

text \<open>A round lets every thread run at least once, in any order.\<close>

definition is_round :: "nat \<Rightarrow> nat list \<Rightarrow> bool" where
  "is_round n r \<longleftrightarrow> {..<n} \<subseteq> set r"

lemma rounds_finish:
  assumes M: "mutex_ok M owners" and inv: "lock_inv owners s"
    and nested: "nested_ok M owners (tasks_of (ls_threads s))"
    and rounds: "list_all (is_round (length (ls_threads s))) rounds" "work_left s \<le> length rounds"
    and run: "interleave M (concat rounds) s = Inr s'"
  shows "all_finished s'"
  using assms(2-)
proof (induction rounds arbitrary: s)
  case Nil
  then have "work_left s' = 0" by (simp add: interleave_def)
  then have "steps_left x = 0" if "x \<in> set (ls_threads s')" for x
    using that by (auto simp: work_left_def)
  moreover have "p = Finished" if "steps_left (k, p) = 0" for k p
    using that by (cases p) (auto split: raw_place.splits)
  ultimately show ?case by (fastforce simp: all_finished_def list_all_iff)
next
  case (Cons r rounds)
  from Cons.prems(5) obtain s1 where s1: "interleave M r s = Inr s1" "interleave M (concat rounds) s1 = Inr s'"
    by (auto simp: interleave_def fold_outcome_append)
  have keeps: "lock_inv owners s1" "length (ls_threads s1) = length (ls_threads s)"
    "nested_ok M owners (tasks_of (ls_threads s1))"
    using interleave_keeps [OF M Cons.prems(1), of r] s1 Cons.prems(2) by simp_all
  show ?case
  proof (cases "all_finished s")
    case True
    have "thread_step M t s = None" for t
    proof -
      have "task_step M k Finished g = None" for k and g :: "'a closing" by (cases k) simp_all
      then show ?thesis
        using True by (cases "ls_threads s ! t") (auto simp: thread_step_def all_finished_def list_all_length)
    qed
    then have "interleave M ts s = Inr s" for ts
      by (induction ts) (simp_all add: interleave_def schedule_step_def)
    then have "s' = s" using Cons.prems(5) by simp
    then show ?thesis using True by simp
  next
    case False
    obtain t where "t < length (ls_threads s)" "can_step M s t" using somebody_steps [OF M Cons.prems(1) False Cons.prems(2)] by auto
    moreover have "t \<in> set r" using Cons.prems(3) calculation by (auto simp: is_round_def)
    ultimately have "work_left s1 < work_left s"
      using interleave_work [OF s1(1)] by (auto simp: list_all_iff)
    then show ?thesis
      using Cons.IH [OF keeps(1,3) _ _ s1(2)] Cons.prems(3,4) keeps(2) by simp
  qed
qed

definition total_work :: "task list \<Rightarrow> nat" where
  "total_work tasks = sum_list (map (\<lambda>k. task_work k + 15) tasks)"

lemma work_left_start: "work_left (lock_start m tasks) \<le> total_work tasks"
proof -
  have "steps_left (k, task_entry k) \<le> task_work k + 15" for k by (cases k) simp_all
  then show ?thesis
    by (simp add: work_left_def total_work_def lock_start_def comp_def sum_list_mono)
qed

section \<open>What the lock promises\<close>

lemma no_race:
  assumes M: "mutex_ok M owners" and m: "owners m = (0, False, False)"
    and tasks: "\<not> race_possible (set tasks)"
  shows "\<exists>s. interleave M sched (lock_start m tasks) = Inr s \<and> lock_inv owners s \<and>
    tasks_of (ls_threads s) = set tasks"
  using interleave_keeps [OF M lock_start_inv(1) [of owners m tasks, OF m], of sched] tasks
    lock_start_inv(2) [of owners m tasks, OF m]
  by (auto split: sum.splits)

text \<open>
  C3. \<^bold>\<open>A connection is closed once, whatever the schedule.\<close> Any number of handlers, timer expiries and sends run on one connection, each by a
  thread of its own, interleaved statement by statement; any of them may end in \<open>Disconnect\<close>. No thread touches the raw connection after it is deleted
  or dereferences \<open>impl_\<close> or \<open>connection_\<close> when they are empty. \<open>ImplClosed\<close> runs at most once, and exactly when the raw connection is gone; a
  connection that is not closing is untouched; and when all threads are through, the socket is closed, the connection dropped and the listeners told, if one of the tasks closes, and nothing is, if none does.
\<close>

theorem closed_once:
  assumes "mutex_ok M owners" and "owners m = (0, False, False)" and "RunDisconnect \<notin> set tasks"
  shows "\<exists>s. interleave M sched (lock_start m tasks) = Inr s \<and> (let g = ls_shared s in
           cl_told g = (if cl_impl g then 0 else 1) \<and>
           (cl_closing g \<or> cl_impl g \<and> cl_socket g \<and> cl_connection g) \<and>
           (\<not> all_finished s \<or> (if list_ex closes tasks
              then cl_closing g \<and> \<not> cl_socket g \<and> \<not> cl_connection g \<and> cl_told g = 1
              else \<not> cl_closing g \<and> cl_told g = 0)))"
proof -
  have "\<not> race_possible (set tasks)" using assms(3) by (simp add: race_possible_def)
  then obtain s where s: "interleave M sched (lock_start m tasks) = Inr s" "lock_inv owners s"
      "tasks_of (ls_threads s) = set tasks"
    using no_race [OF assms(1,2)] by blast
  have g: "cl_told (ls_shared s) = (if cl_impl (ls_shared s) then 0 else 1)"
    "cl_closing (ls_shared s) \<or> cl_impl (ls_shared s) \<and> cl_socket (ls_shared s) \<and> cl_connection (ls_shared s)"
    "cl_closing (ls_shared s) \<Longrightarrow> list_ex closes tasks"
    using s(2,3) by (auto simp: lock_inv_def Let_def list_ex_iff)
  have fin: "cl_closing (ls_shared s) \<and> \<not> cl_socket (ls_shared s) \<and> \<not> cl_connection (ls_shared s) \<and> \<not> cl_impl (ls_shared s)"
    if "all_finished s" "list_ex closes tasks"
  proof -
    obtain k where "k \<in> set tasks" "closes k" using \<open>list_ex closes tasks\<close> by (auto simp: list_ex_iff)
    then show ?thesis using finished_state [OF s(2) \<open>all_finished s\<close>, of k] s(3) assms(3) by simp
  qed
  show ?thesis
  proof (intro exI conjI)
    show "interleave M sched (lock_start m tasks) = Inr s" by (rule s)
    show "let g = ls_shared s in
           cl_told g = (if cl_impl g then 0 else 1) \<and>
           (cl_closing g \<or> cl_impl g \<and> cl_socket g \<and> cl_connection g) \<and>
           (\<not> all_finished s \<or> (if list_ex closes tasks
              then cl_closing g \<and> \<not> cl_socket g \<and> \<not> cl_connection g \<and> cl_told g = 1
              else \<not> cl_closing g \<and> cl_told g = 0))"
      using g fin by (auto simp: Let_def)
  qed
qed

text \<open>A mutex that grants whatever the laws allow.\<close>

definition plain_mutex :: "(nat \<times> bool \<times> bool) mutex_api" where
  "plain_mutex = \<lparr>
     ma_lock_shared = (\<lambda>(n, u, e). if e then None else Some (Suc n, u, e)),
     ma_unlock_shared = (\<lambda>(n, u, e). (n - 1, u, e)),
     ma_lock_upgrade = (\<lambda>(n, u, e). if u \<or> e then None else Some (n, True, e)),
     ma_upgrade = (\<lambda>(n, u, e). if n = 0 \<and> u \<and> \<not> e then Some (0, False, True) else None),
     ma_unlock = (\<lambda>(n, u, e). (n, u, False))\<rparr>"

lemma plain_mutex_ok: "mutex_ok plain_mutex (\<lambda>m. m)"
  by (auto simp: mutex_ok_def plain_mutex_def split: if_splits)

lemma plain_mutex_shares: "mutex_shares plain_mutex (\<lambda>m. m)"
  by (simp add: mutex_shares_def plain_mutex_def)

text \<open>Two handlers that both meet an error, the second scheduled between the steps of the first.\<close>

theorem closed_once_witness:
  "\<exists>s. interleave plain_mutex [0, 1, 0, 1, 0, 0, 1, 0, 1, 1]
         (lock_start (0, False, False) [RunHandler 0 True, RunHandler 0 True]) = Inr s \<and> (let g = ls_shared s in
     cl_told g = (if cl_impl g then 0 else 1) \<and>
     (cl_closing g \<or> cl_impl g \<and> cl_socket g \<and> cl_connection g) \<and>
     (\<not> all_finished s \<or> (if list_ex closes [RunHandler 0 True, RunHandler 0 True]
        then cl_closing g \<and> \<not> cl_socket g \<and> \<not> cl_connection g \<and> cl_told g = 1
        else \<not> cl_closing g \<and> cl_told g = 0)))"
  by (rule closed_once [OF plain_mutex_ok]) simp_all

text \<open>
  C7. \<^bold>\<open>Closing does not block.\<close> Any number of handlers, reads that answer requests, timer expiries, sends and calls of \<open>Connection::Disconnect\<close> run on one
  connection, each by a thread of its own. When every thread gets its turn in each of as many rounds as there are statements to run, in any order and with any repetitions, all threads
  get through; then the closing flag says whether one of the tasks closes, and if one does the socket is closed and the connection dropped. There are two exceptions. A \<open>Disconnect\<close>
  beside a task of another kind that closes may instead end with the null dereference of C31. And a read that answers a request takes the lock a second time: with such a task the mutex must grant shared ownership beside an upgrade owner
  (\<open>nested_lock_blocks\<close> shows that otherwise two threads can wait for each other). Apart from that the mutex may let a thread wait as long as somebody stands against it.
\<close>

theorem closing_finishes:
  assumes "mutex_ok M owners" and "owners m = (0, False, False)"
    and "(\<forall>k\<in>set tasks. \<not> nests k) \<or> mutex_shares M owners"
    and "list_all (is_round (length tasks)) rounds" and "total_work tasks \<le> length rounds"
  shows "race_possible (set tasks) \<and> interleave M (concat rounds) (lock_start m tasks) = Inl NullDeref \<or>
    (\<exists>s. interleave M (concat rounds) (lock_start m tasks) = Inr s \<and> all_finished s \<and>
      (cl_closing (ls_shared s) \<longleftrightarrow> list_ex closes tasks) \<and>
      (list_ex closes tasks \<longrightarrow> \<not> cl_socket (ls_shared s) \<and> \<not> cl_connection (ls_shared s)))"
proof (cases "interleave M (concat rounds) (lock_start m tasks)")
  case (Inl f)
  then show ?thesis
    using interleave_keeps [OF assms(1) lock_start_inv(1) [of owners m tasks, OF assms(2)], of "concat rounds"]
      lock_start_inv(2) [of owners m tasks, OF assms(2)] by simp
next
  case (Inr s)
  note start = lock_start_inv [of owners m tasks, OF assms(2)]
  have s: "lock_inv owners s" "tasks_of (ls_threads s) = set tasks"
    using interleave_keeps [OF assms(1) start(1), of "concat rounds"] start(2) Inr by simp_all
  have "length (ls_threads (lock_start m tasks)) = length tasks" by (simp add: lock_start_def)
  moreover have "work_left (lock_start m tasks) \<le> length rounds"
    using work_left_start [of m tasks] assms(5) by simp
  moreover have "nested_ok M owners (tasks_of (ls_threads (lock_start m tasks)))"
    unfolding start(2) nested_ok_def by (rule assms(3))
  ultimately have fin: "all_finished s"
    using rounds_finish [OF assms(1) start(1) _ _ _ Inr] assms(4) by simp
  have "cl_closing (ls_shared s) \<longrightarrow> list_ex closes tasks"
    using s by (simp add: lock_inv_def Let_def list_ex_iff)
  moreover have "cl_closing (ls_shared s) \<and> \<not> cl_socket (ls_shared s) \<and> \<not> cl_connection (ls_shared s)"
    if closes: "list_ex closes tasks"
  proof -
    obtain k where "k \<in> set tasks" "closes k" using closes by (auto simp: list_ex_iff)
    then show ?thesis using finished_state [OF s(1) fin, of k] s(2) by simp
  qed
  ultimately show ?thesis using Inr fin by blast
qed

theorem closing_finishes_witness:
  "let tasks = [RunReader 1 False, RunExpired 0 True, RunSend 1];
       run = interleave plain_mutex (concat (replicate 52 [1, 0, 2])) (lock_start (0, False, False) tasks) in
    race_possible (set tasks) \<and> run = Inl NullDeref \<or>
    (\<exists>s. run = Inr s \<and> all_finished s \<and> (cl_closing (ls_shared s) \<longleftrightarrow> list_ex closes tasks) \<and>
      (list_ex closes tasks \<longrightarrow> \<not> cl_socket (ls_shared s) \<and> \<not> cl_connection (ls_shared s)))"
  unfolding Let_def
  by (rule closing_finishes [OF plain_mutex_ok])
     (auto simp: plain_mutex_shares is_round_def total_work_def list_all_iff)

text \<open>
  The laws of \<open>mutex_ok\<close> alone do not carry a nested call. With a mutex that lets no new shared owner pass
  an upgrade owner, a handler that answers a request and a handler that closes wait for each other for ever:
  the first holds the lock and wants it again, the second waits for the shared holds to go.
\<close>

definition blocked :: "'m mutex_api \<Rightarrow> 'm lock_state \<Rightarrow> bool" where
  "blocked M s \<longleftrightarrow> \<not> all_finished s \<and> (\<forall>sched. interleave M sched s = Inr s)"

lemma blockedI:
  assumes "\<not> all_finished s" "\<And>t. t < length (ls_threads s) \<Longrightarrow> thread_step M t s = None"
  shows "blocked M s"
proof -
  have "thread_step M t s = None" for t
    using assms(2) by (cases "t < length (ls_threads s)") (simp_all add: thread_step_def)
  then have "interleave M sched s = Inr s" for sched
    by (induction sched) (simp_all add: interleave_def schedule_step_def)
  then show ?thesis using assms(1) by (simp add: blocked_def)
qed

theorem nested_lock_blocks:
  assumes M: "mutex_ok M owners" and m: "owners m = (0, False, False)"
    and second: "\<And>m. owners m = (1, False, False) \<Longrightarrow> ma_lock_shared M m \<noteq> None \<and> ma_lock_upgrade M m \<noteq> None"
    and first: "\<And>m n. owners m = (n, True, False) \<Longrightarrow> ma_lock_shared M m = None"
  shows "\<exists>s. interleave M [0, 0, 0, 1, 1, 1, 1, 1, 1] (lock_start m [RunReader 1 False, RunHandler 0 True]) = Inr s \<and>
    blocked M s"
proof -
  obtain m1 where m1: "ma_lock_shared M m = Some m1" using free_law [OF M m] by auto
  then have o1: "owners m1 = (1, False, False)" using lock_shared_law [OF M] m by fastforce
  obtain m2 where m2: "ma_lock_shared M m1 = Some m2" using second [OF o1] by auto
  then have o2: "owners m2 = (Suc 1, False, False)" using lock_shared_law [OF M] o1 by fastforce
  let ?m3 = "ma_unlock_shared M m2"
  have o3: "owners ?m3 = (1, False, False)" using unlock_shared_law [OF M o2] .
  obtain m4 where m4: "ma_lock_upgrade M ?m3 = Some m4" using second [OF o3] by auto
  then have o4: "owners m4 = (1, True, False)" using lock_upgrade_law [OF M] o3 by fastforce
  have stuck: "ma_lock_shared M m4 = None" "ma_upgrade M m4 = None"
    using first [OF o4] upgrade_law [OF M, of m4] o4 by (auto, cases "ma_upgrade M m4") auto
  let ?s = "\<lparr>ls_shared = \<lparr>cl_mutex = m4, cl_closing = False, cl_impl = True, cl_socket = True,
      cl_connection = True, cl_told = 0\<rparr>,
    ls_threads = [(RunReader 1 False, Again 0 AgainLock), (RunHandler 0 True, InDisconnect Upgrade)]\<rparr>"
  have "interleave M [0, 0, 0, 1, 1, 1, 1, 1, 1] (lock_start m [RunReader 1 False, RunHandler 0 True]) = Inr ?s"
    by (simp add: interleave_def schedule_step_def thread_step_def lock_start_def
        enter_shared_def leave_shared_def member_step_def m1 m2 m4)
  moreover have "blocked M ?s"
    by (rule blockedI) (auto simp: all_finished_def thread_step_def less_Suc_eq enter_shared_def stuck)
  ultimately show ?thesis by blast
qed

definition upgrade_first_mutex :: "(nat \<times> bool \<times> bool) mutex_api" where
  "upgrade_first_mutex =
     plain_mutex\<lparr>ma_lock_shared := (\<lambda>(n, u, e). if u \<or> e then None else Some (Suc n, u, e))\<rparr>"

lemma upgrade_first_mutex_ok: "mutex_ok upgrade_first_mutex (\<lambda>m. m)"
  by (auto simp: mutex_ok_def upgrade_first_mutex_def plain_mutex_def split: if_splits)

theorem nested_lock_blocks_witness:
  "\<exists>s. interleave upgrade_first_mutex [0, 0, 0, 1, 1, 1, 1, 1, 1]
      (lock_start (0, False, False) [RunReader 1 False, RunHandler 0 True]) = Inr s \<and> blocked upgrade_first_mutex s"
  by (rule nested_lock_blocks [OF upgrade_first_mutex_ok])
     (simp_all add: upgrade_first_mutex_def plain_mutex_def)

text \<open>
  C31. \<^bold>\<open>\<open>Connection::Disconnect\<close> races with a handler.\<close> \<open>Connection::Disconnect\<close> tests the closing flag before it takes the lock and
  not again, so it can see \<open>impl_\<close> set after another thread has set the flag and before that thread deletes the raw connection:
  it then calls a member of the object that is gone. With any mutex that keeps its laws this schedule of one \<open>Disconnect\<close> and one handler that meets an error ends so.
\<close>

theorem disconnect_race:
  assumes "mutex_ok M owners" and "owners m = (0, False, False)"
  shows "interleave M ([0] @ replicate 10 1 @ [0, 0] @ replicate 3 1 @ [0])
           (lock_start m [RunDisconnect, RunHandler 0 True]) = Inl NullDeref"
proof -
  obtain m1 where m1: "ma_lock_shared M m = Some m1" using free_law [OF assms] by auto
  then have o1: "owners m1 = (Suc 0, False, False)" using lock_shared_law [OF assms(1)] assms(2) by fastforce
  let ?m2 = "ma_unlock_shared M m1"
  have o2: "owners ?m2 = (0, False, False)" using unlock_shared_law [OF assms(1) o1] .
  obtain m3 where m3: "ma_lock_upgrade M ?m2 = Some m3" using free_law [OF assms(1) o2] by auto
  then have o3: "owners m3 = (0, True, False)" using lock_upgrade_law [OF assms(1)] o2 by fastforce
  obtain m4 where m4: "ma_upgrade M m3 = Some m4" using upgrade_free_law [OF assms(1) o3] by auto
  then have o4: "owners m4 = (0, False, True)" using upgrade_law [OF assms(1)] by fastforce
  have o5: "owners (ma_unlock M m4) = (0, False, False)" using unlock_law [OF assms(1) o4] .
  obtain m6 where m6: "ma_lock_shared M (ma_unlock M m4) = Some m6" using free_law [OF assms(1) o5] by auto
  show ?thesis
    by (simp add: interleave_def schedule_step_def thread_step_def lock_start_def numeral_eq_Suc
        enter_shared_def leave_shared_def member_step_def m1 m3 m4 m6)
qed

theorem disconnect_race_witness:
  "interleave plain_mutex ([0] @ replicate 10 1 @ [0, 0] @ replicate 3 1 @ [0])
     (lock_start (0, False, False) [RunDisconnect, RunHandler 0 True]) = Inl NullDeref"
  by (rule disconnect_race [OF plain_mutex_ok]) simp

end
