(* ===== verification/Raw_Connection.thy ===== *)
theory Raw_Connection
  imports Shared_Const_Buffers
begin

text \<open>
  \<open>src/core/network/RawConnection.hpp\<close>, \<open>RawConnection.cpp\<close>, the shared status with its
  reader/writer lock, and the class \<open>Connection\<close> of \<open>Connection.hpp\<close> that owns both. A
  state is one connection with its status, the raw implementation it owns and the operations
  that asio still holds for it; a step is one completion handler, one heartbeat, or one call
  of the public interface, run to its end. The lock counts the shared holds of the running
  call chain, so that every early return has to give back exactly what it took.
\<close>

section \<open>RawConnectionStatus\<close>

definition IDLE :: u32 where "IDLE = 0"
definition READING :: u32 where "READING = 1"
definition WRITTING :: u32 where "WRITTING = push_bit 1 1"
definition CLOSING :: u32 where "CLOSING = push_bit 2 1"

lemmas status_bits = IDLE_def READING_def WRITTING_def CLOSING_def

record raw_status =
  st_flags :: u32
  st_shared :: nat      \<comment> \<open>shared holds of \<open>mutex_\<close>\<close>

definition status_new :: raw_status where
  "status_new = \<lparr>st_flags = 0, st_shared = 0\<rparr>"

definition is_reading :: "raw_status \<Rightarrow> bool" where
  "is_reading st \<longleftrightarrow> st_flags st AND READING \<noteq> 0"

definition is_writing :: "raw_status \<Rightarrow> bool" where
  "is_writing st \<longleftrightarrow> st_flags st AND WRITTING \<noteq> 0"

definition is_closing :: "raw_status \<Rightarrow> bool" where
  "is_closing st \<longleftrightarrow> st_flags st AND CLOSING \<noteq> 0"

definition is_idle :: "raw_status \<Rightarrow> bool" where
  "is_idle st \<longleftrightarrow> st_flags st = IDLE"

definition set_flag :: "u32 \<Rightarrow> raw_status \<Rightarrow> raw_status" where
  "set_flag b st = st\<lparr>st_flags := st_flags st OR b\<rparr>"

definition clear_flag :: "u32 \<Rightarrow> raw_status \<Rightarrow> raw_status" where
  "clear_flag b st = st\<lparr>st_flags := st_flags st AND NOT b\<rparr>"

abbreviation "set_reading \<equiv> set_flag READING"
abbreviation "set_writing \<equiv> set_flag WRITTING"
abbreviation "set_closing \<equiv> set_flag CLOSING"
abbreviation "clear_reading \<equiv> clear_flag READING"
abbreviation "clear_writing \<equiv> clear_flag WRITTING"

definition lock_shared :: "raw_status \<Rightarrow> raw_status" where
  "lock_shared st = st\<lparr>st_shared := st_shared st + 1\<rparr>"

definition unlock_shared :: "raw_status \<Rightarrow> raw_status outcome" where
  "unlock_shared st =
     (if st_shared st = 0 then Inl LockError else Inr (st\<lparr>st_shared := st_shared st - 1\<rparr>))"

text \<open>
  \<open>lock_upgrade\<close> followed by \<open>unlock_upgrade_and_lock\<close> waits for the shared holds to
  drain; a hold of the waiting thread itself never does.
\<close>

definition lock_exclusive :: "raw_status \<Rightarrow> raw_status outcome" where
  "lock_exclusive st = (if st_shared st \<noteq> 0 then Inl SelfDeadlock else Inr st)"

text \<open>The flag operations, read back bit by bit.\<close>

lemma status_as_bits:
  "is_reading st \<longleftrightarrow> bit (st_flags st) 0" "is_writing st \<longleftrightarrow> bit (st_flags st) 1"
  "is_closing st \<longleftrightarrow> bit (st_flags st) 2"
  unfolding is_reading_def is_writing_def is_closing_def WRITTING_def CLOSING_def
    bit_iff_and_push_bit_not_eq_0 READING_def
  by simp_all

lemma flag_bits:
  "bit READING n \<longleftrightarrow> n = 0" "bit WRITTING n \<longleftrightarrow> n = 1" "bit CLOSING n \<longleftrightarrow> n = 2"
  unfolding status_bits bit_push_bit_iff bit_1_iff by auto

lemma flags_after [simp]:
  "is_reading (set_reading st)" "is_writing (set_writing st)" "is_closing (set_closing st)"
  "\<not> is_reading (clear_reading st)" "\<not> is_writing (clear_writing st)"
  "is_reading (set_writing st) = is_reading st" "is_reading (clear_writing st) = is_reading st"
  "is_writing (set_reading st) = is_writing st" "is_writing (clear_reading st) = is_writing st"
  "is_closing (set_reading st) = is_closing st" "is_closing (clear_reading st) = is_closing st"
  "is_closing (set_writing st) = is_closing st" "is_closing (clear_writing st) = is_closing st"
  "is_reading (set_closing st) = is_reading st" "is_writing (set_closing st) = is_writing st"
  by (simp_all add: status_as_bits set_flag_def clear_flag_def flag_bits bit_simps
      del: bit_0_eq bit_0)

lemma shared_after [simp]:
  "st_shared (set_flag b st) = st_shared st" "st_shared (clear_flag b st) = st_shared st"
  "is_reading (lock_shared st) = is_reading st" "is_writing (lock_shared st) = is_writing st"
  "is_closing (lock_shared st) = is_closing st" "is_idle (lock_shared st) = is_idle st"
  "st_shared (lock_shared st) = Suc (st_shared st)"
  by (simp_all add: set_flag_def clear_flag_def lock_shared_def is_reading_def is_writing_def
      is_closing_def is_idle_def)

lemma unlock_lock [simp]: "unlock_shared (lock_shared st) = Inr st"
  by (simp add: unlock_shared_def lock_shared_def)

section \<open>The state of a connection\<close>

text \<open>
  \<open>RawConnection\<close>. \<open>r_socket\<close> and \<open>r_conn\<close> tell whether \<open>mSocket\<close> and \<open>connection_\<close> are
  set; the queues \<open>duplex_\<close> are indexed by \<open>0\<close> and \<open>1\<close>. The constructor leaves the package
  counters as the memory had them.
\<close>

record 'b raw =
  r_name :: string
  r_socket :: bool
  r_conn :: bool
  r_index :: nat
  r_duplex :: "nat \<Rightarrow> 'b scb"
  r_send :: int
  r_recv :: int

definition kHeartbeatUnsyncWindow :: int where "kHeartbeatUnsyncWindow = 2"

definition incoming :: "('b, 'z) raw_scheme \<Rightarrow> 'b scb" where
  "incoming r = r_duplex r (r_index r)"

definition outcoming :: "('b, 'z) raw_scheme \<Rightarrow> 'b scb" where
  "outcoming r = r_duplex r (1 - r_index r)"

definition set_incoming :: "'b scb \<Rightarrow> ('b, 'z) raw_scheme \<Rightarrow> ('b, 'z) raw_scheme" where
  "set_incoming q r = r\<lparr>r_duplex := (r_duplex r)(r_index r := q)\<rparr>"

definition set_outcoming :: "'b scb \<Rightarrow> ('b, 'z) raw_scheme \<Rightarrow> ('b, 'z) raw_scheme" where
  "set_outcoming q r = r\<lparr>r_duplex := (r_duplex r)(1 - r_index r := q)\<rparr>"

definition switch_io :: "('b, 'z) raw_scheme \<Rightarrow> ('b, 'z) raw_scheme" where
  "switch_io r = r\<lparr>r_index := 1 - r_index r\<rparr>"

text \<open>
  \<open>Connection\<close>. \<open>c_impl\<close> is \<open>impl_\<close>, \<open>c_listeners\<close> the weak pointers of
  \<open>mListeners\<close>. The last four fields are not of the class: what asio still holds for the
  connection (its reads, its writes each with the buffers it was given, its out-of-band
  reads), and the world that listeners and response handlers act upon.
\<close>

record ('b, 'z, 'w) conn =
  c_name :: string
  c_id :: int
  c_status :: raw_status
  c_impl :: "('b, 'z) raw_scheme option"
  c_listeners :: "nat list"
  c_reads :: nat
  c_writes :: "'b scb list"
  c_oobs :: nat
  c_world :: 'w

text \<open>
  What the code calls without knowing the implementation: the buffers of asio, the virtual
  \<open>Decode\<close> and destructor of the raw connection, and the listeners.
\<close>

record ('b, 'z, 'w) conn_env =
  e_buf :: "'b buffer_api"
  e_decode :: "string \<Rightarrow> ('b, 'z, 'w) conn \<Rightarrow> (bool \<times> ('b, 'z, 'w) conn) outcome"
  e_dtor :: "('b, 'z) raw_scheme \<Rightarrow> 'w \<Rightarrow> 'w"
  e_alive :: "nat \<Rightarrow> 'w \<Rightarrow> bool"                  \<comment> \<open>\<open>weak_ptr::lock\<close> succeeds\<close>
  e_closed :: "nat \<Rightarrow> 'w \<Rightarrow> 'w"                    \<comment> \<open>\<open>ConnectionClosed\<close> of a listener\<close>

definition conn_new :: "string \<Rightarrow> int \<Rightarrow> 'w \<Rightarrow> ('b, 'z, 'w) conn" where
  "conn_new name globalConnectionId w =
     \<lparr>c_name = name, c_id = globalConnectionId + 1, c_status = status_new, c_impl = None,
      c_listeners = [], c_reads = 0, c_writes = [], c_oobs = 0, c_world = w\<rparr>"

abbreviation conn_closing :: "('b, 'z, 'w) conn \<Rightarrow> bool" where
  "conn_closing c \<equiv> is_closing (c_status c)"

definition on_status :: "(raw_status \<Rightarrow> raw_status) \<Rightarrow> ('b, 'z, 'w) conn \<Rightarrow> ('b, 'z, 'w) conn" where
  "on_status f c = c\<lparr>c_status := f (c_status c)\<rparr>"

definition conn_unlock :: "('b, 'z, 'w) conn \<Rightarrow> ('b, 'z, 'w) conn outcome" where
  "conn_unlock c = bind_outcome (unlock_shared (c_status c)) (\<lambda>st. Inr (c\<lparr>c_status := st\<rparr>))"

definition conn_lock_exclusive :: "('b, 'z, 'w) conn \<Rightarrow> ('b, 'z, 'w) conn outcome" where
  "conn_lock_exclusive c =
     bind_outcome (lock_exclusive (c_status c)) (\<lambda>st. Inr (c\<lparr>c_status := st\<rparr>))"

text \<open>A member function of the raw connection runs on an object that exists.\<close>

definition raw_this :: "('b, 'z, 'w) conn \<Rightarrow> ('b, 'z) raw_scheme outcome" where
  "raw_this c = (case c_impl c of None \<Rightarrow> Inl UseAfterFree | Some r \<Rightarrow> Inr r)"

definition socket_this :: "('b, 'z, 'w) conn \<Rightarrow> ('b, 'z) raw_scheme outcome" where
  "socket_this c = bind_outcome (raw_this c) (\<lambda>r. if r_socket r then Inr r else Inl NullDeref)"

section \<open>RawConnection\<close>

definition raw_new :: "string \<Rightarrow> int \<Rightarrow> int \<Rightarrow> 'z \<Rightarrow> ('b, 'z) raw_scheme" where
  "raw_new name s0 r0 z =
     \<lparr>r_name = name, r_socket = False, r_conn = True, r_index = 0, r_duplex = (\<lambda>_. scb_new),
      r_send = s0, r_recv = r0, \<dots> = z\<rparr>"

definition start_oob_recv :: "('b, 'z, 'w) conn \<Rightarrow> ('b, 'z, 'w) conn outcome" where
  "start_oob_recv c = bind_outcome (socket_this c) (\<lambda>_. Inr (c\<lparr>c_oobs := c_oobs c + 1\<rparr>))"

definition async_read :: "('b, 'z, 'w) conn \<Rightarrow> ('b, 'z, 'w) conn outcome" where
  "async_read c = bind_outcome (socket_this c) (\<lambda>_. Inr (c\<lparr>c_reads := c_reads c + 1\<rparr>))"

definition async_write :: "('b, 'z, 'w) conn \<Rightarrow> ('b, 'z, 'w) conn outcome" where
  "async_write c = bind_outcome (socket_this c) (\<lambda>r. Inr (c\<lparr>c_writes := c_writes c @ [outcoming r]\<rparr>))"

definition init_socket :: "('b, 'z, 'w) conn \<Rightarrow> ('b, 'z, 'w) conn outcome" where
  "init_socket c =
     (let c = on_status lock_shared c in
      bind_outcome (check AssertFailed (\<not> conn_closing c)) (\<lambda>_.
      bind_outcome (raw_this c) (\<lambda>r.
      let c = c\<lparr>c_impl := Some (r\<lparr>r_socket := True, r_send := 0, r_recv := 0\<rparr>)\<rparr> in
      bind_outcome (start_oob_recv c) (\<lambda>c.
      bind_outcome (async_read (on_status set_reading c)) conn_unlock))))"

text \<open>
  \<open>ImplClosed\<close> of \<open>Connection.hpp\<close>: tells the listeners still alive, forgets them and
  deletes the raw connection.
\<close>

definition notify_listeners ::
  "('b, 'z, 'w) conn_env \<Rightarrow> nat list \<Rightarrow> 'w \<Rightarrow> 'w" where
  "notify_listeners env ls w = fold (\<lambda>l w. if e_alive env l w then e_closed env l w else w) ls w"

definition impl_reset :: "('b, 'z, 'w) conn_env \<Rightarrow> ('b, 'z, 'w) conn \<Rightarrow> ('b, 'z, 'w) conn" where
  "impl_reset env c =
     (case c_impl c of
        None \<Rightarrow> c
      | Some r \<Rightarrow> c\<lparr>c_impl := None, c_world := e_dtor env r (c_world c)\<rparr>)"

definition impl_closed :: "('b, 'z, 'w) conn_env \<Rightarrow> ('b, 'z, 'w) conn \<Rightarrow> ('b, 'z, 'w) conn" where
  "impl_closed env c =
     impl_reset env (c\<lparr>c_world := notify_listeners env (c_listeners c) (c_world c), c_listeners := []\<rparr>)"

text \<open>
  \<open>RawConnection::Disconnect\<close>, entered with the lock held shared once. Closing the socket
  makes the operations asio holds complete later, with an error.
\<close>

definition disconnect ::
  "('b, 'z, 'w) conn_env \<Rightarrow> bool \<Rightarrow> ('b, 'z, 'w) conn \<Rightarrow> ('b, 'z, 'w) conn outcome" where
  "disconnect env async c =
     (if conn_closing c then conn_unlock c
      else
        bind_outcome (conn_unlock c) (\<lambda>c.
        bind_outcome (conn_lock_exclusive c) (\<lambda>c.
        if conn_closing c then Inr c
        else
          let c = on_status set_closing c in
          bind_outcome (raw_this c) (\<lambda>r.
          let c = c\<lparr>c_impl := Some (r\<lparr>r_socket := False, r_conn := False\<rparr>)\<rparr> in
          if async then
            (if r_conn r then Inr (impl_closed env c) else Inl NullDeref)
          else Inr c))))"

text \<open>
  \<open>Heartbeat\<close>, entered with the lock held; \<open>sent\<close> tells whether the out-of-band byte went
  out without an error.
\<close>

definition heartbeat ::
  "('b, 'z, 'w) conn_env \<Rightarrow> bool \<Rightarrow> ('b, 'z, 'w) conn \<Rightarrow> ('b, 'z, 'w) conn outcome" where
  "heartbeat env sent c =
     bind_outcome (socket_this c) (\<lambda>r.
     if \<not> sent then disconnect env True c
     else
       bind_outcome (i32 (r_send r + 1)) (\<lambda>send.
       bind_outcome (i32 (send - r_recv r)) (\<lambda>diff.
       let c = c\<lparr>c_impl := Some (r\<lparr>r_send := send\<rparr>)\<rparr> in
       bind_outcome (i32 (abs diff)) (\<lambda>gap.
       if gap > kHeartbeatUnsyncWindow then disconnect env True c
       else conn_unlock c))))"

definition oob_recv ::
  "('b, 'z, 'w) conn_env \<Rightarrow> bool \<Rightarrow> ('b, 'z, 'w) conn \<Rightarrow> ('b, 'z, 'w) conn outcome" where
  "oob_recv env err c =
     (if err then disconnect env True c
      else
        bind_outcome (raw_this c) (\<lambda>r.
        bind_outcome (i32 (r_recv r + 1)) (\<lambda>recv.
        bind_outcome (start_oob_recv (c\<lparr>c_impl := Some (r\<lparr>r_recv := recv\<rparr>)\<rparr>)) conn_unlock)))"

definition handle_read ::
  "('b, 'z, 'w) conn_env \<Rightarrow> bool \<Rightarrow> string \<Rightarrow> ('b, 'z, 'w) conn \<Rightarrow> ('b, 'z, 'w) conn outcome" where
  "handle_read env err bytes c =
     bind_outcome (check AssertFailed (is_reading (c_status c))) (\<lambda>_.
     if err then disconnect env True (on_status clear_reading c)
     else
       bind_outcome (e_decode env bytes c) (\<lambda>(ok, c).
       if \<not> ok then disconnect env True (on_status clear_reading c)
       else bind_outcome (async_read c) conn_unlock))"

definition raw_schedule_write :: "('b, 'z, 'w) conn \<Rightarrow> (bool \<times> ('b, 'z, 'w) conn) outcome" where
  "raw_schedule_write c =
     (if is_writing (c_status c) then Inr (True, c)
      else
        let c = on_status set_writing c in
        bind_outcome (raw_this c) (\<lambda>r.
        let r = switch_io r; c = c\<lparr>c_impl := Some r\<rparr> in
        if scb_empty (outcoming r) then Inr (True, on_status clear_writing c)
        else bind_outcome (async_write c) (\<lambda>c. Inr (True, c))))"

definition handle_write ::
  "('b, 'z, 'w) conn_env \<Rightarrow> bool \<Rightarrow> int \<Rightarrow> ('b, 'z, 'w) conn \<Rightarrow> ('b, 'z, 'w) conn outcome" where
  "handle_write env err n c =
     bind_outcome (check AssertFailed (is_writing (c_status c))) (\<lambda>_.
     if err then disconnect env True (on_status clear_writing c)
     else
       bind_outcome (raw_this c) (\<lambda>r.
       let r = set_outcoming (scb_consume (e_buf env) n (outcoming r)) r;
           c = c\<lparr>c_impl := Some r\<rparr> in
       if \<not> scb_empty (outcoming r) then bind_outcome (async_write c) conn_unlock
       else
         let r = switch_io r; c = c\<lparr>c_impl := Some r\<rparr> in
         if \<not> scb_empty (outcoming r) then bind_outcome (async_write c) conn_unlock
         else conn_unlock (on_status clear_writing c)))"

text \<open>
  \<open>InternalPushData< EncodeData >\<close>: the pair of the header and the content, null together
  when the message did not serialise.
\<close>

definition raw_push_data ::
  "'b buffer_api \<Rightarrow> cstr option \<times> cstr option \<Rightarrow> ('b, 'z) raw_scheme
     \<Rightarrow> ('b, 'z) raw_scheme outcome" where
  "raw_push_data A data r =
     (case fst data of
        None \<Rightarrow> Inr r
      | Some header \<Rightarrow>
          (case snd data of
             None \<Rightarrow> Inl NullDeref
           | Some content \<Rightarrow>
               Inr (set_incoming (scb_push A content (scb_push A header (incoming r))) r)))"

section \<open>Completion handlers\<close>

text \<open>
  \<open>ExecuteHandler\<close>, \<open>ReadHandler\<close> and \<open>WriteHandler\<close>: the lock is taken for the member,
  which gives it back; a closed connection is not touched.
\<close>

definition guarded ::
  "(('b, 'z, 'w) conn \<Rightarrow> ('b, 'z, 'w) conn outcome) \<Rightarrow> ('b, 'z, 'w) conn \<Rightarrow> ('b, 'z, 'w) conn outcome" where
  "guarded member c =
     (let c = on_status lock_shared c in
      if conn_closing c then conn_unlock c else member c)"

definition read_done where
  "read_done env err bytes c = guarded (handle_read env err bytes) (c\<lparr>c_reads := c_reads c - 1\<rparr>)"

definition write_done where
  "write_done env err n c = guarded (handle_write env err n) (c\<lparr>c_writes := tl (c_writes c)\<rparr>)"

definition oob_done where
  "oob_done env err c = guarded (oob_recv env err) (c\<lparr>c_oobs := c_oobs c - 1\<rparr>)"

section \<open>Connection\<close>

definition register_listener :: "nat \<Rightarrow> ('b, 'z, 'w) conn \<Rightarrow> bool \<times> ('b, 'z, 'w) conn" where
  "register_listener l c = (True, c\<lparr>c_listeners := c_listeners c @ [l]\<rparr>)"

definition conn_disconnect ::
  "('b, 'z, 'w) conn_env \<Rightarrow> ('b, 'z, 'w) conn \<Rightarrow> ('b, 'z, 'w) conn outcome" where
  "conn_disconnect env c =
     (if conn_closing c then Inr c
      else
        let c = on_status lock_shared c in
        if c_impl c \<noteq> None then disconnect env False c
        else conn_unlock c)"

definition is_connected :: "('b, 'z, 'w) conn \<Rightarrow> bool" where
  "is_connected c \<longleftrightarrow> \<not> is_idle (c_status c) \<and> \<not> conn_closing c"

definition conn_full_name :: "('b, 'z, 'w) conn \<Rightarrow> string" where
  "conn_full_name c = (case c_impl c of Some r \<Rightarrow> r_name r | None \<Rightarrow> c_name c)"

definition kTimeoutSec :: int where "kTimeoutSec = 30"

definition conn_timeout :: "('b, 'z, 'w) conn \<Rightarrow> int" where
  "conn_timeout c = kTimeoutSec"

definition conn_period :: "('b, 'z, 'w) conn \<Rightarrow> bool" where
  "conn_period c = is_connected c"

definition conn_expired ::
  "('b, 'z, 'w) conn_env \<Rightarrow> bool \<Rightarrow> ('b, 'z, 'w) conn \<Rightarrow> ('b, 'z, 'w) conn outcome" where
  "conn_expired env sent c =
     (let c = on_status lock_shared c in
      if conn_closing c then conn_unlock c
      else if c_impl c = None then conn_unlock c
      else heartbeat env sent c)"

definition conn_schedule_write :: "('b, 'z, 'w) conn \<Rightarrow> (bool \<times> ('b, 'z, 'w) conn) outcome" where
  "conn_schedule_write c =
     (let c = on_status lock_shared c in
      bind_outcome
        (if conn_closing c then Inr (False, c)
         else if c_impl c = None then Inr (False, c)
         else raw_schedule_write c)
        (\<lambda>(b, c). bind_outcome (conn_unlock c) (\<lambda>c. Inr (b, c))))"

definition conn_push_data ::
  "'b buffer_api \<Rightarrow> cstr option \<times> cstr option \<Rightarrow> ('b, 'z, 'w) conn
     \<Rightarrow> (bool \<times> ('b, 'z, 'w) conn) outcome" where
  "conn_push_data A data c =
     (let c = on_status lock_shared c in
      bind_outcome
        (if conn_closing c then Inr (False, c)
         else case c_impl c of
           None \<Rightarrow> Inr (False, c)
         | Some r \<Rightarrow> bind_outcome (raw_push_data A data r) (\<lambda>r. Inr (True, c\<lparr>c_impl := Some r\<rparr>)))
        (\<lambda>(b, c). bind_outcome (conn_unlock c) (\<lambda>c. Inr (b, c))))"

text \<open>\<open>~Connection\<close>: aborts on a connected connection, then deletes the raw connection.\<close>

definition delete_conn ::
  "('b, 'z, 'w) conn_env \<Rightarrow> ('b, 'z, 'w) conn \<Rightarrow> 'w outcome" where
  "delete_conn env c =
     bind_outcome (check CheckFailed (\<not> is_connected c)) (\<lambda>_. Inr (c_world (impl_reset env c)))"

section \<open>Invariant\<close>

text \<open>
  \<open>M\<close> is the invariant that the class derived from \<open>RawConnection\<close> keeps on its own
  members. A connection at work, seen with \<open>k\<close> shared holds of its lock and \<open>a\<close> reads and \<open>b\<close>
  out-of-band reads outstanding. A write is outstanding exactly when the writing bit is set,
  and it was given the bytes that are now in the outgoing queue; otherwise that queue is empty.
\<close>

definition raw_ok :: "'b buffer_api \<Rightarrow> ('z \<Rightarrow> bool) \<Rightarrow> ('b, 'z) raw_scheme \<Rightarrow> bool" where
  "raw_ok A M r \<longleftrightarrow> r_socket r \<and> r_conn r \<and> r_index r < 2 \<and>
     (\<forall>i. scb_inv A (r_duplex r i)) \<and> M (raw.more r)"

definition writes_ok :: "('b, 'z, 'w) conn \<Rightarrow> ('b, 'z) raw_scheme \<Rightarrow> bool" where
  "writes_ok c r \<longleftrightarrow> c_writes c = (if is_writing (c_status c) then [outcoming r] else []) \<and>
     (\<not> is_writing (c_status c) \<longrightarrow> scb_empty (outcoming r))"

definition conn_ok :: "'b buffer_api \<Rightarrow> ('z \<Rightarrow> bool) \<Rightarrow> nat \<Rightarrow> nat \<Rightarrow> nat \<Rightarrow> ('b, 'z, 'w) conn \<Rightarrow> bool" where
  "conn_ok A M k a b c \<longleftrightarrow> st_shared (c_status c) = k \<and> \<not> conn_closing c \<and> is_reading (c_status c) \<and>
     c_reads c = a \<and> c_oobs c = b \<and>
     (\<exists>r. c_impl c = Some r \<and> raw_ok A M r \<and> writes_ok c r)"

text \<open>Between two steps: new, at work with one read and one out-of-band read, or closed.\<close>

definition conn_inv :: "'b buffer_api \<Rightarrow> ('z \<Rightarrow> bool) \<Rightarrow> ('b, 'z, 'w) conn \<Rightarrow> bool" where
  "conn_inv A M c \<longleftrightarrow> st_shared (c_status c) = 0 \<and>
     (conn_closing c \<or>
      (c_impl c = None \<and> st_flags (c_status c) = 0 \<and> c_reads c = 0 \<and> c_writes c = [] \<and> c_oobs c = 0) \<or>
      conn_ok A M 0 1 1 c)"

text \<open>The bytes accepted by \<open>PushData\<close> that no completed write has taken.\<close>

definition raw_unsent :: "'b buffer_api \<Rightarrow> ('b, 'z) raw_scheme \<Rightarrow> string" where
  "raw_unsent A r = scb_content A (outcoming r) @ scb_content A (incoming r)"

definition unsent :: "'b buffer_api \<Rightarrow> ('b, 'z, 'w) conn \<Rightarrow> string" where
  "unsent A c = (case c_impl c of None \<Rightarrow> [] | Some r \<Rightarrow> raw_unsent A r)"

definition data_text :: "cstr option \<times> cstr option \<Rightarrow> string" where
  "data_text d = (case d of (Some h, Some t) \<Rightarrow> cs_text h @ cs_text t | _ \<Rightarrow> [])"

definition data_ok :: "cstr option \<times> cstr option \<Rightarrow> bool" where
  "data_ok d \<longleftrightarrow> (fst d = None) = (snd d = None)"

text \<open>
  What the steps need of \<open>Decode\<close>: from a working connection it faults only as \<open>E\<close>
  allows, and otherwise leaves a working connection, its lock as it was, whose outgoing bytes
  it has at most appended to.
\<close>

definition decode_ok :: "('b, 'z, 'w) conn_env \<Rightarrow> ('z \<Rightarrow> bool) \<Rightarrow> (fault \<Rightarrow> bool) \<Rightarrow> bool" where
  "decode_ok env M E \<longleftrightarrow> (\<forall>k a b bytes c. conn_ok (e_buf env) M k a b c \<longrightarrow>
     (case e_decode env bytes c of
        Inl e \<Rightarrow> E e
      | Inr (ok, c') \<Rightarrow> conn_ok (e_buf env) M k a b c' \<and> c_listeners c' = c_listeners c \<and>
          (\<exists>q. unsent (e_buf env) c' = unsent (e_buf env) c @ q)))"

section \<open>Steps\<close>

datatype conn_event =
    ReadDone bool string      \<comment> \<open>error, bytes\<close>
  | WriteDone bool nat        \<comment> \<open>error, number of bytes\<close>
  | OobDone bool
  | Beat bool                 \<comment> \<open>\<open>Expired\<close>, the heartbeat sent without error\<close>
  | PushEv "cstr option \<times> cstr option"
  | ScheduleEv
  | CloseEv                   \<comment> \<open>\<open>Connection::Disconnect\<close>\<close>

fun conn_exec :: "('b, 'z, 'w) conn_env \<Rightarrow> conn_event \<Rightarrow> ('b, 'z, 'w) conn \<Rightarrow> ('b, 'z, 'w) conn outcome" where
  "conn_exec env (ReadDone err bytes) c = read_done env err bytes c"
| "conn_exec env (WriteDone err n) c = write_done env err (int n) c"
| "conn_exec env (OobDone err) c = oob_done env err c"
| "conn_exec env (Beat sent) c = conn_expired env sent c"
| "conn_exec env (PushEv d) c = bind_outcome (conn_push_data (e_buf env) d c) (\<lambda>(b, c). Inr c)"
| "conn_exec env ScheduleEv c = bind_outcome (conn_schedule_write c) (\<lambda>(b, c). Inr c)"
| "conn_exec env CloseEv c = conn_disconnect env c"

text \<open>
  When an event can occur: asio completes what it holds, a write by at most the bytes it was
  given; and the package counters have not run out of \<open>int\<close>.
\<close>

fun event_ok :: "'b buffer_api \<Rightarrow> conn_event \<Rightarrow> ('b, 'z, 'w) conn \<Rightarrow> bool" where
  "event_ok A (ReadDone err bytes) c \<longleftrightarrow> c_reads c > 0"
| "event_ok A (WriteDone err n) c \<longleftrightarrow> c_writes c \<noteq> [] \<and>
     n \<le> length (scb_content A (hd (c_writes c))) \<and> int n \<le> INT_MAX"
| "event_ok A (OobDone err) c \<longleftrightarrow> c_oobs c > 0 \<and>
     (case c_impl c of None \<Rightarrow> True | Some r \<Rightarrow> in_i32 (r_recv r + 1))"
| "event_ok A (Beat sent) c \<longleftrightarrow>
     (case c_impl c of None \<Rightarrow> True | Some r \<Rightarrow> in_i32 (r_send r + 1) \<and>
        in_i32 (r_send r + 1 - r_recv r) \<and> in_i32 (abs (r_send r + 1 - r_recv r)))"
| "event_ok A (PushEv d) c \<longleftrightarrow> data_ok d"
| "event_ok A ScheduleEv c \<longleftrightarrow> True"
| "event_ok A CloseEv c \<longleftrightarrow> True"

fun wire_of :: "'b buffer_api \<Rightarrow> conn_event \<Rightarrow> ('b, 'z, 'w) conn \<Rightarrow> string" where
  "wire_of A (WriteDone False n) c = take n (scb_content A (hd (c_writes c)))"
| "wire_of A ev c = []"

text \<open>A read queues the answers of the handlers it runs: what it adds to the unsent bytes.\<close>

fun queued_of :: "'b buffer_api \<Rightarrow> conn_event \<Rightarrow> ('b, 'z, 'w) conn \<Rightarrow> ('b, 'z, 'w) conn \<Rightarrow> string" where
  "queued_of A (PushEv d) c c' = data_text d"
| "queued_of A (ReadDone err bytes) c c' = drop (length (unsent A c)) (unsent A c')"
| "queued_of A ev c c' = []"

section \<open>Each operation keeps the invariant\<close>

lemma conn_unlock_Inr:
  assumes "st_shared (c_status c) = Suc k"
  shows "conn_unlock c = Inr (c\<lparr>c_status := (c_status c)\<lparr>st_shared := k\<rparr>\<rparr>)"
  using assms by (simp add: conn_unlock_def unlock_shared_def)

lemma flags_cong [simp]:
  "is_reading (st\<lparr>st_shared := k\<rparr>) = is_reading st" "is_writing (st\<lparr>st_shared := k\<rparr>) = is_writing st"
  "is_closing (st\<lparr>st_shared := k\<rparr>) = is_closing st" "is_idle (st\<lparr>st_shared := k\<rparr>) = is_idle st"
  by (simp_all add: is_reading_def is_writing_def is_closing_def is_idle_def)

lemma impl_closed_simps [simp]:
  "c_status (impl_closed env c) = c_status c" "c_impl (impl_closed env c) = None"
  "c_listeners (impl_closed env c) = []"
  by (simp_all add: impl_closed_def impl_reset_def split: option.splits)

lemma disconnect_Inr:
  assumes "st_shared (c_status c) = Suc 0" and "\<not> conn_closing c" and "c_impl c = Some r" and "r_conn r"
  shows "\<exists>c'. disconnect env async c = Inr c' \<and> conn_closing c' \<and> st_shared (c_status c') = 0 \<and>
     (async \<longrightarrow> c_impl c' = None \<and> c_listeners c' = [])"
  using assms
  by (simp add: disconnect_def conn_unlock_Inr conn_lock_exclusive_def lock_exclusive_def
      raw_this_def on_status_def Let_def)

lemma disconnect_inv:
  assumes "st_shared (c_status c) = Suc 0" and "\<not> conn_closing c" and "c_impl c = Some r" and "r_conn r"
  shows "\<exists>c'. disconnect env async c = Inr c' \<and> conn_inv A M c'"
  using disconnect_Inr [OF assms, of env async] by (auto simp: conn_inv_def)

lemma guarded_closing:
  "conn_closing c \<Longrightarrow> guarded member c = Inr c"
  by (simp add: guarded_def on_status_def conn_unlock_def)

lemma guarded_live:
  "\<not> conn_closing c \<Longrightarrow> guarded member c = member (on_status lock_shared c)"
  by (simp add: guarded_def on_status_def)

text \<open>Closed connections are left alone by every step.\<close>

lemma conn_exec_closing:
  assumes "conn_closing c"
  shows "\<exists>c'. conn_exec env ev c = Inr c' \<and> c_status c' = c_status c \<and> c_impl c' = c_impl c \<and>
    c_listeners c' = c_listeners c \<and> c_world c' = c_world c"
  using assms
  by (cases ev) (simp_all add: read_done_def write_done_def oob_done_def guarded_closing
      conn_expired_def conn_push_data_def conn_schedule_write_def conn_disconnect_def
      on_status_def conn_unlock_def)

text \<open>The two queues of \<open>duplex_\<close>.\<close>

lemma duplex_simps [simp]:
  assumes "r_index r < 2"
  shows "outcoming (switch_io r) = incoming r" "incoming (switch_io r) = outcoming r"
    "incoming (set_incoming q r) = q" "outcoming (set_incoming q r) = outcoming r"
    "outcoming (set_outcoming q r) = q" "incoming (set_outcoming q r) = incoming r"
    "r_index (switch_io r) < 2"
proof -
  from assms have "r_index r = 0 \<or> r_index r = 1" by auto
  then show "outcoming (switch_io r) = incoming r" "incoming (switch_io r) = outcoming r"
    "incoming (set_incoming q r) = q" "outcoming (set_incoming q r) = outcoming r"
    "outcoming (set_outcoming q r) = q" "incoming (set_outcoming q r) = incoming r"
    "r_index (switch_io r) < 2"
    by (auto simp: incoming_def outcoming_def switch_io_def set_incoming_def set_outcoming_def)
qed

lemma duplex_fields [simp]:
  "r_socket (switch_io r) = r_socket r" "r_conn (switch_io r) = r_conn r"
  "r_socket (set_incoming q r) = r_socket r" "r_conn (set_incoming q r) = r_conn r"
  "r_socket (set_outcoming q r) = r_socket r" "r_conn (set_outcoming q r) = r_conn r"
  "r_index (set_incoming q r) = r_index r" "r_index (set_outcoming q r) = r_index r"
  "raw.more (switch_io r) = raw.more r"
  by (simp_all add: switch_io_def set_incoming_def set_outcoming_def)

lemma raw_ok_queues:
  "raw_ok A M r \<Longrightarrow> scb_inv A (incoming r)" "raw_ok A M r \<Longrightarrow> scb_inv A (outcoming r)"
  "raw_ok A M r \<Longrightarrow> r_index r < 2"
  by (simp_all add: raw_ok_def incoming_def outcoming_def)

lemma raw_ok_after:
  assumes "raw_ok A M r"
  shows "raw_ok A M (switch_io r)" "scb_inv A q \<Longrightarrow> raw_ok A M (set_incoming q r)"
    "scb_inv A q \<Longrightarrow> raw_ok A M (set_outcoming q r)"
    "raw_ok A M (r\<lparr>r_send := x\<rparr>)" "raw_ok A M (r\<lparr>r_recv := x\<rparr>)"
  using assms
  by (auto simp: raw_ok_def switch_io_def set_incoming_def set_outcoming_def)

lemma counters_keep [simp]:
  "outcoming (r\<lparr>r_send := x\<rparr>) = outcoming r" "outcoming (r\<lparr>r_recv := x\<rparr>) = outcoming r"
  "incoming (r\<lparr>r_send := x\<rparr>) = incoming r" "incoming (r\<lparr>r_recv := x\<rparr>) = incoming r"
  by (simp_all add: outcoming_def incoming_def)

lemma raw_push_data_ok:
  assumes "raw_ok A M r" and "data_ok d"
  shows "\<exists>r'. raw_push_data A d r = Inr r' \<and> raw_ok A M r' \<and> outcoming r' = outcoming r \<and>
    raw_unsent A r' = raw_unsent A r @ data_text d \<and> raw.more r' = raw.more r"
proof (cases d)
  case (Pair h t)
  note q = raw_ok_queues [OF assms(1)]
  show ?thesis
  proof (cases h)
    case None
    with Pair assms show ?thesis by (auto simp: raw_push_data_def data_text_def data_ok_def)
  next
    case (Some header)
    with Pair assms(2) obtain content where t: "t = Some content" by (auto simp: data_ok_def)
    have "scb_inv A (scb_push A content (scb_push A header (incoming r)))"
      by (intro scb.inv_push q)
    then show ?thesis
      using Some Pair t q(3) raw_ok_after(2) [OF assms(1)]
      by (simp add: raw_push_data_def data_text_def raw_unsent_def scb.content_push scb.inv_push q)
        (simp add: set_incoming_def)
  qed
qed

lemma conn_push_data_ok:
  assumes "conn_ok A M k a b c" and "data_ok d"
  shows "\<exists>c'. conn_push_data A d c = Inr (True, c') \<and> conn_ok A M k a b c' \<and>
    c_listeners c' = c_listeners c \<and> c_world c' = c_world c \<and>
    map_option raw.more (c_impl c') = map_option raw.more (c_impl c) \<and>
    unsent A c' = unsent A c @ data_text d"
proof -
  from assms(1) obtain r where r: "c_impl c = Some r" "raw_ok A M r" "writes_ok c r"
    by (auto simp: conn_ok_def)
  from raw_push_data_ok [OF r(2) assms(2)] obtain r' where
    r': "raw_push_data A d r = Inr r'" "raw_ok A M r'" "outcoming r' = outcoming r"
    "raw_unsent A r' = raw_unsent A r @ data_text d" "raw.more r' = raw.more r" by blast
  with r assms(1) show ?thesis
    by (simp add: conn_push_data_def on_status_def conn_unlock_def conn_ok_def writes_ok_def unsent_def)
qed

lemma raw_schedule_write_ok:
  assumes "conn_ok A M k a b c"
  shows "\<exists>c'. raw_schedule_write c = Inr (True, c') \<and> conn_ok A M k a b c' \<and>
    c_listeners c' = c_listeners c \<and> c_world c' = c_world c \<and>
    map_option raw.more (c_impl c') = map_option raw.more (c_impl c) \<and> unsent A c' = unsent A c \<and>
    (is_writing (c_status c') \<or> unsent A c' = [])"
proof (cases "is_writing (c_status c)")
  case True
  with assms show ?thesis by (simp add: raw_schedule_write_def)
next
  case False
  from assms obtain r where r: "c_impl c = Some r" "raw_ok A M r" "writes_ok c r"
    by (auto simp: conn_ok_def)
  note q = raw_ok_queues [OF r(2)]
  from False r(3) have e: "scb_empty (outcoming r)" "c_writes c = []" by (auto simp: writes_ok_def)
  then have "scb_content A (outcoming r) = []" using scb.empty_content q by blast
  then have u: "raw_unsent A (switch_io r) = raw_unsent A r" by (simp add: raw_unsent_def q)
  note ok = raw_ok_after(1) [OF r(2)]
  show ?thesis
  proof (cases "scb_empty (incoming r)")
    case True
    then have "scb_content A (incoming r) = []" using scb.empty_content q by blast
    with False assms r e u ok True \<open>scb_content A (outcoming r) = []\<close> q show ?thesis
      by (simp add: raw_schedule_write_def on_status_def raw_this_def Let_def conn_ok_def writes_ok_def
          unsent_def raw_unsent_def)
  next
    case nonempty: False
    have "r_socket (switch_io r)" using r(2) by (simp add: raw_ok_def)
    with False nonempty assms r e u ok q show ?thesis
      by (simp add: raw_schedule_write_def on_status_def raw_this_def socket_this_def async_write_def
          Let_def conn_ok_def writes_ok_def unsent_def)
  qed
qed

lemma conn_ok_lock:
  "conn_ok A M k a b c \<Longrightarrow> conn_ok A M (Suc k) a b (on_status lock_shared c)"
  by (auto simp: conn_ok_def on_status_def writes_ok_def)

lemma conn_ok_unlock:
  assumes "conn_ok A M (Suc k) a b c"
  shows "\<exists>c'. conn_unlock c = Inr c' \<and> conn_ok A M k a b c' \<and> c_listeners c' = c_listeners c \<and>
    c_world c' = c_world c \<and> c_impl c' = c_impl c \<and> is_writing (c_status c') = is_writing (c_status c)"
  using assms conn_unlock_Inr [of c k] by (auto simp: conn_ok_def writes_ok_def)

lemma unsent_on_status [simp]: "unsent A (on_status f c) = unsent A c"
  by (simp add: unsent_def on_status_def)

lemma unsent_impl: "c_impl c' = c_impl c \<Longrightarrow> unsent A c' = unsent A c"
  by (simp add: unsent_def)

lemma conn_schedule_write_ok:
  assumes "conn_ok A M k a b c"
  shows "\<exists>c'. conn_schedule_write c = Inr (True, c') \<and> conn_ok A M k a b c' \<and>
    c_listeners c' = c_listeners c \<and> c_world c' = c_world c \<and>
    map_option raw.more (c_impl c') = map_option raw.more (c_impl c) \<and> unsent A c' = unsent A c \<and>
    (is_writing (c_status c') \<or> unsent A c' = [])"
proof -
  let ?c = "on_status lock_shared c"
  from raw_schedule_write_ok [OF conn_ok_lock [OF assms]] obtain c1 where
    1: "raw_schedule_write ?c = Inr (True, c1)" "conn_ok A M (Suc k) a b c1"
    "c_listeners c1 = c_listeners c" "unsent A c1 = unsent A c"
    "is_writing (c_status c1) \<or> unsent A c1 = []" "c_world c1 = c_world c"
    "map_option raw.more (c_impl c1) = map_option raw.more (c_impl c)"
    by (auto simp: on_status_def unsent_def)
  from conn_ok_unlock [OF 1(2)] obtain c2 where
    2: "conn_unlock c1 = Inr c2" "conn_ok A M k a b c2" "c_listeners c2 = c_listeners c1"
    "c_world c2 = c_world c1" "c_impl c2 = c_impl c1" "is_writing (c_status c2) = is_writing (c_status c1)" by blast
  have "\<not> conn_closing ?c" "c_impl ?c \<noteq> None"
    using assms by (auto simp: conn_ok_def on_status_def)
  then have "conn_schedule_write c = Inr (True, c2)"
    by (simp only: conn_schedule_write_def Let_def if_False 1(1) 2(1) bind_outcome_simps
        prod.case)
  with 1 2 unsent_impl [OF 2(5), of A] show ?thesis
    by (intro exI [of _ c2]) simp
qed

text \<open>A write completes: what it took leaves the queue, and the next write starts if any byte is left.\<close>

lemma handle_write_ok:
  assumes "conn_ok A M (Suc k) a b c" and "is_writing (c_status c)" and "A = e_buf env"
    and "n \<le> length (scb_content A (hd (c_writes c)))" and "int n \<le> INT_MAX"
  shows "\<exists>c'. handle_write env False (int n) (c\<lparr>c_writes := tl (c_writes c)\<rparr>) = Inr c' \<and>
    conn_ok A M k a b c' \<and> c_listeners c' = c_listeners c \<and>
    take n (scb_content A (hd (c_writes c))) @ unsent A c' = unsent A c \<and>
    (is_writing (c_status c') \<or> unsent A c' = [])"
proof -
  from assms(1) obtain r where r: "c_impl c = Some r" "raw_ok A M r" "writes_ok c r"
    by (auto simp: conn_ok_def)
  note q = raw_ok_queues [OF r(2)]
  from r(3) assms(2) have w: "c_writes c = [outcoming r]" by (simp add: writes_ok_def)
  have n: "0 \<le> int n" "int n < 2 ^ 64" using assms(5) by (simp_all add: INT_MAX_def)
  let ?out = "scb_consume A (int n) (outcoming r)"
  let ?r = "set_outcoming ?out r"
  have out: "scb_inv A ?out" "scb_content A ?out = drop n (scb_content A (outcoming r))"
    using scb.inv_consume [OF q(2) n] scb.content_consume [OF q(2) n] by simp_all
  have r': "raw_ok A M ?r" using raw_ok_after(3) [OF r(2) out(1)] .
  have u: "raw_unsent A r = take n (scb_content A (outcoming r)) @ raw_unsent A ?r"
    by (simp add: raw_unsent_def q out)
  have sock: "r_socket r" using r(2) by (simp add: raw_ok_def)
  show ?thesis
  proof (cases "scb_empty ?out")
    case False
    with assms r w q r' u sock show ?thesis
      by (simp add: handle_write_def raw_this_def Let_def async_write_def socket_this_def
          conn_unlock_def unlock_shared_def conn_ok_def writes_ok_def unsent_def)
  next
    case True
    then have e: "scb_content A ?out = []" using scb.empty_content out(1) by blast
    have u': "raw_unsent A (switch_io ?r) = raw_unsent A ?r"
      by (simp add: raw_unsent_def q e)
    show ?thesis
    proof (cases "scb_empty (incoming r)")
      case False
      with True assms r w q raw_ok_after(1) [OF r'] u u' sock show ?thesis
        by (simp add: handle_write_def raw_this_def Let_def async_write_def socket_this_def
            conn_unlock_def unlock_shared_def conn_ok_def writes_ok_def unsent_def)
    next
      case e2: True
      then have "scb_content A (incoming r) = []" using scb.empty_content q by blast
      with e2 True assms r w q raw_ok_after(1) [OF r'] u u' e show ?thesis
        by (simp add: handle_write_def raw_this_def Let_def on_status_def
            conn_unlock_def unlock_shared_def conn_ok_def writes_ok_def unsent_def raw_unsent_def)
    qed
  qed
qed

lemma conn_okD:
  assumes "conn_ok A M k a b c"
  shows "st_shared (c_status c) = k" "\<not> conn_closing c" "is_reading (c_status c)" "c_reads c = a"
    "c_oobs c = b" "\<exists>r. c_impl c = Some r \<and> raw_ok A M r \<and> writes_ok c r"
  using assms by (auto simp: conn_ok_def)

text \<open>From a working connection that holds the lock once, \<open>Disconnect\<close> closes.\<close>

lemma disconnect_ok:
  assumes "st_shared (c_status c) = Suc 0" and "\<not> conn_closing c"
    and "\<exists>r. c_impl c = Some r \<and> raw_ok A M r \<and> P r"
  shows "\<exists>c'. disconnect env async c = Inr c' \<and> conn_inv A M c' \<and> conn_closing c'"
proof -
  from assms(3) obtain r where "c_impl c = Some r" "r_conn r" by (auto simp: raw_ok_def)
  with disconnect_Inr [OF assms(1,2), of r env async] show ?thesis by (auto simp: conn_inv_def)
qed

lemma async_read_ok:
  assumes "conn_ok A M k a b c"
  shows "\<exists>c'. async_read c = Inr c' \<and> conn_ok A M k (Suc a) b c' \<and> c_listeners c' = c_listeners c \<and>
    unsent A c' = unsent A c"
proof -
  from assms obtain r where r: "c_impl c = Some r" "raw_ok A M r" "writes_ok c r"
    by (auto simp: conn_ok_def)
  then have "socket_this c = Inr r" by (simp add: socket_this_def raw_this_def raw_ok_def)
  with assms r show ?thesis by (simp add: async_read_def conn_ok_def writes_ok_def unsent_def)
qed

lemma heartbeat_ok:
  assumes "conn_ok A M (Suc 0) a b c" and "event_ok A (Beat sent) c"
  shows "\<exists>c'. heartbeat env sent c = Inr c' \<and>
    (conn_ok A M 0 a b c' \<and> c_listeners c' = c_listeners c \<and> unsent A c' = unsent A c \<or>
     conn_inv A M c' \<and> conn_closing c')"
proof -
  note ok = conn_okD [OF assms(1)]
  from ok(6) obtain r where r: "c_impl c = Some r" "raw_ok A M r" "writes_ok c r" by blast
  have sock: "socket_this c = Inr r" using r by (simp add: socket_this_def raw_this_def raw_ok_def)
  let ?r = "r\<lparr>r_send := r_send r + 1\<rparr>"
  let ?c = "c\<lparr>c_impl := Some ?r\<rparr>"
  have c: "conn_ok A M (Suc 0) a b ?c"
    using assms(1) r raw_ok_after(4) [OF r(2)] by (simp add: conn_ok_def writes_ok_def)
  have u: "unsent A ?c = unsent A c" using r by (simp add: unsent_def raw_unsent_def)
  show ?thesis
  proof (cases "sent \<and> abs (r_send r + 1 - r_recv r) \<le> kHeartbeatUnsyncWindow")
    case True
    from conn_ok_unlock [OF c] obtain c' where "conn_unlock ?c = Inr c'" "conn_ok A M 0 a b c'"
      "c_listeners c' = c_listeners c" "c_impl c' = c_impl ?c" by auto
    with True assms(2) r sock u unsent_impl [of c' ?c A] show ?thesis
      by (auto simp: heartbeat_def Let_def)
  next
    case False
    obtain c1 where 1: "disconnect env True c = Inr c1" "conn_inv A M c1" "conn_closing c1"
      using disconnect_ok [OF ok(1,2,6), of env True] by blast
    obtain c2 where 2: "disconnect env True ?c = Inr c2" "conn_inv A M c2" "conn_closing c2"
      using disconnect_ok [OF conn_okD(1,2,6) [OF c], of env True] by blast
    from False 1 2 assms(2) r sock show ?thesis
      by (cases sent) (auto simp: heartbeat_def Let_def)
  qed
qed

definition step_good :: "'b buffer_api \<Rightarrow> ('z \<Rightarrow> bool) \<Rightarrow> conn_event \<Rightarrow> ('b, 'z, 'w) conn \<Rightarrow> ('b, 'z, 'w) conn \<Rightarrow> bool" where
  "step_good A M ev c c' \<longleftrightarrow> conn_inv A M c' \<and>
     (\<not> conn_closing c' \<longrightarrow> conn_ok A M 0 1 1 c' \<and> c_listeners c' = c_listeners c \<and>
        wire_of A ev c @ unsent A c' = unsent A c @ queued_of A ev c c')"

lemma conn_ok_inv: "conn_ok A M 0 1 1 c \<Longrightarrow> conn_inv A M c"
  by (simp add: conn_inv_def conn_ok_def)

lemma closed_good: "conn_inv A M c' \<Longrightarrow> conn_closing c' \<Longrightarrow> step_good A M ev c c'"
  by (simp add: step_good_def)

lemma conn_ok_reads:
  "conn_ok A M k a b c \<Longrightarrow> conn_ok A M k a' b (c\<lparr>c_reads := a'\<rparr>)"
  "conn_ok A M k a b c \<Longrightarrow> conn_ok A M k a b' (c\<lparr>c_oobs := b'\<rparr>)"
  by (auto simp: conn_ok_def writes_ok_def)

lemma unsent_counts [simp]:
  "unsent A (c\<lparr>c_reads := a\<rparr>) = unsent A c" "unsent A (c\<lparr>c_oobs := b\<rparr>) = unsent A c"
  "unsent A (c\<lparr>c_writes := ws\<rparr>) = unsent A c"
  by (simp_all add: unsent_def)

lemma on_status_writes:
  "on_status f (c\<lparr>c_writes := ws\<rparr>) = (on_status f c)\<lparr>c_writes := ws\<rparr>"
  by (cases c) (simp add: on_status_def)

lemma disconnect_after_clear:
  assumes "conn_ok A M (Suc 0) a b c" and "f = READING \<or> f = WRITTING"
  shows "\<exists>c'. disconnect env True (on_status (clear_flag f) c) = Inr c' \<and> conn_inv A M c' \<and> conn_closing c'"
  using assms(2) conn_okD [OF assms(1)]
  by (intro disconnect_ok [where P = "writes_ok c"]) (auto simp: on_status_def)

lemma read_good:
  assumes "conn_ok A M 0 1 1 c" and "decode_ok env M E" and A: "A = e_buf env"
  shows "case conn_exec env (ReadDone err bytes) c of
      Inl e \<Rightarrow> E e \<and> \<not> err | Inr c' \<Rightarrow> step_good A M (ReadDone err bytes) c c'"
proof -
  let ?c = "on_status lock_shared (c\<lparr>c_reads := 0\<rparr>)"
  have ok: "conn_ok A M (Suc 0) 0 1 ?c"
    by (rule conn_ok_lock [OF conn_ok_reads(1) [OF assms(1)]])
  have exec: "conn_exec env (ReadDone err bytes) c = handle_read env err bytes ?c"
    using conn_okD [OF assms(1)] by (simp add: read_done_def guarded_live)
  have u: "unsent A ?c = unsent A c" by simp
  have l: "c_listeners ?c = c_listeners c" by (simp add: on_status_def)
  show ?thesis
  proof (cases err)
    case True
    with disconnect_after_clear [OF ok, of READING env] conn_okD(3) [OF ok] show ?thesis
      unfolding exec by (auto simp: handle_read_def closed_good)
  next
    case False
    note dec = assms(2) [unfolded decode_ok_def, rule_format, OF ok [unfolded A], of bytes, folded A]
    show ?thesis
    proof (cases "e_decode env bytes ?c")
      case (Inl e)
      with dec False conn_okD(3) [OF ok] show ?thesis unfolding exec by (simp add: handle_read_def)
    next
      case (Inr t)
      obtain g c1 where t: "t = (g, c1)" by (cases t)
      with dec Inr obtain q where c1: "conn_ok A M (Suc 0) 0 1 c1" "c_listeners c1 = c_listeners c"
        "unsent A c1 = unsent A c @ q" by (auto simp: u l)
      show ?thesis
      proof (cases g)
        case False
        with disconnect_after_clear [OF c1(1), of READING env] conn_okD(3) [OF ok] \<open>\<not> err\<close> Inr t
        show ?thesis unfolding exec by (auto simp: handle_read_def closed_good)
      next
        case True
        from async_read_ok [OF c1(1)] obtain c2 where 2: "async_read c1 = Inr c2"
          "conn_ok A M (Suc 0) (Suc 0) 1 c2" "c_listeners c2 = c_listeners c1" "unsent A c2 = unsent A c1"
          by blast
        from conn_ok_unlock [OF 2(2)] obtain c3 where 3: "conn_unlock c2 = Inr c3"
          "conn_ok A M 0 (Suc 0) 1 c3" "c_listeners c3 = c_listeners c2" "c_impl c3 = c_impl c2" by blast
        from unsent_impl [OF 3(4), of A] 2 3 c1 True False Inr t conn_okD(3) [OF ok] show ?thesis
          unfolding exec by (simp add: handle_read_def step_good_def conn_ok_inv)
      qed
    qed
  qed
qed

lemma write_good:
  assumes "conn_ok A M 0 1 1 c" and A: "A = e_buf env" and ev: "event_ok A (WriteDone err n) c"
  shows "\<exists>c'. conn_exec env (WriteDone err n) c = Inr c' \<and> step_good A M (WriteDone err n) c c'"
proof -
  let ?c = "on_status lock_shared c"
  have ok: "conn_ok A M (Suc 0) 1 1 ?c" by (rule conn_ok_lock [OF assms(1)])
  have w: "is_writing (c_status ?c)" "c_writes ?c = c_writes c"
    using ev assms(1) by (auto simp: conn_ok_def writes_ok_def on_status_def split: if_splits)
  have exec: "conn_exec env (WriteDone err n) c =
      handle_write env err (int n) (?c\<lparr>c_writes := tl (c_writes ?c)\<rparr>)"
    using conn_okD [OF assms(1)] by (simp add: write_done_def guarded_live on_status_writes w(2))
  show ?thesis
  proof (cases err)
    case True
    let ?d = "on_status clear_writing (?c\<lparr>c_writes := tl (c_writes ?c)\<rparr>)"
    have "\<exists>c'. disconnect env True ?d = Inr c' \<and> conn_inv A M c' \<and> conn_closing c'"
      using conn_okD [OF ok]
      by (intro disconnect_ok [where P = "\<lambda>_. True"]) (auto simp: on_status_def)
    with True w show ?thesis
      unfolding exec by (auto simp: handle_write_def on_status_def closed_good)
  next
    case False
    from handle_write_ok [OF ok w(1) A, of n] ev False obtain c' where
      "handle_write env False (int n) (?c\<lparr>c_writes := tl (c_writes ?c)\<rparr>) = Inr c'"
      "conn_ok A M 0 1 1 c'" "c_listeners c' = c_listeners ?c"
      "take n (scb_content A (hd (c_writes c))) @ unsent A c' = unsent A c"
      by (auto simp: w(2))
    with False show ?thesis
      unfolding exec by (simp add: step_good_def conn_ok_inv on_status_def)
  qed
qed

lemma oob_good:
  assumes "conn_ok A M 0 1 1 c" and ev: "event_ok A (OobDone err) c"
  shows "\<exists>c'. conn_exec env (OobDone err) c = Inr c' \<and> step_good A M (OobDone err) c c'"
proof -
  let ?c = "on_status lock_shared (c\<lparr>c_oobs := 0\<rparr>)"
  have ok: "conn_ok A M (Suc 0) 1 0 ?c"
    by (rule conn_ok_lock [OF conn_ok_reads(2) [OF assms(1)]])
  have exec: "conn_exec env (OobDone err) c = oob_recv env err ?c"
    using conn_okD [OF assms(1)] by (simp add: oob_done_def guarded_live)
  show ?thesis
  proof (cases err)
    case True
    obtain c' where "disconnect env True ?c = Inr c'" "conn_inv A M c'" "conn_closing c'"
      using disconnect_ok [OF conn_okD(1,2,6) [OF ok], of env True] by blast
    with True show ?thesis unfolding exec by (auto simp: oob_recv_def closed_good)
  next
    case False
    from conn_okD(6) [OF ok] obtain r where r: "c_impl ?c = Some r" "raw_ok A M r" "writes_ok ?c r" by blast
    let ?d = "?c\<lparr>c_impl := Some (r\<lparr>r_recv := r_recv r + 1\<rparr>), c_oobs := 1\<rparr>"
    have d: "conn_ok A M (Suc 0) 1 1 ?d"
      using ok r raw_ok_after(5) [OF r(2)] by (simp add: conn_ok_def writes_ok_def)
    have fits: "in_i32 (r_recv r + 1)" using ev r(1) by (simp add: on_status_def)
    have recv: "oob_recv env False ?c = conn_unlock ?d"
      using r fits
      by (simp add: oob_recv_def raw_this_def start_oob_recv_def socket_this_def raw_ok_def)
         (simp add: on_status_def)
    from conn_ok_unlock [OF d] obtain c' where c': "conn_unlock ?d = Inr c'" "conn_ok A M 0 1 1 c'"
      "c_listeners c' = c_listeners ?d" "c_impl c' = c_impl ?d" by blast
    have "unsent A c' = unsent A c"
      using unsent_impl [OF c'(4), of A] r(1) by (simp add: unsent_def raw_unsent_def on_status_def)
    with c' False recv show ?thesis
      unfolding exec by (simp add: step_good_def conn_ok_inv on_status_def)
  qed
qed

lemma beat_good:
  assumes "conn_ok A M 0 1 1 c" and ev: "event_ok A (Beat sent) c"
  shows "\<exists>c'. conn_exec env (Beat sent) c = Inr c' \<and> step_good A M (Beat sent) c c'"
proof -
  let ?c = "on_status lock_shared c"
  have ok: "conn_ok A M (Suc 0) 1 1 ?c" by (rule conn_ok_lock [OF assms(1)])
  have "conn_exec env (Beat sent) c = heartbeat env sent ?c"
    using conn_okD [OF assms(1)] by (auto simp: conn_expired_def on_status_def Let_def)
  moreover have "event_ok A (Beat sent) ?c" using ev by (simp add: on_status_def)
  from heartbeat_ok [OF ok this, of env] obtain c' where "heartbeat env sent ?c = Inr c'"
    "conn_ok A M 0 1 1 c' \<and> c_listeners c' = c_listeners ?c \<and> unsent A c' = unsent A c \<or>
     conn_inv A M c' \<and> conn_closing c'" by auto
  ultimately show ?thesis
    by (auto simp: step_good_def conn_ok_inv on_status_def)
qed

lemma push_good:
  assumes "conn_ok A M 0 1 1 c" and "event_ok A (PushEv d) c" and A: "A = e_buf env"
  shows "\<exists>c'. conn_exec env (PushEv d) c = Inr c' \<and> step_good A M (PushEv d) c c'"
proof -
  have "data_ok d" using assms(2) by simp
  from conn_push_data_ok [OF assms(1) this] show ?thesis
    by (auto simp: step_good_def conn_ok_inv A)
qed

lemma schedule_good:
  assumes "conn_ok A M 0 1 1 c"
  shows "\<exists>c'. conn_exec env ScheduleEv c = Inr c' \<and> step_good A M ScheduleEv c c'"
  using conn_schedule_write_ok [OF assms] by (auto simp: step_good_def conn_ok_inv)

lemma close_good:
  assumes "conn_ok A M 0 1 1 c"
  shows "\<exists>c'. conn_exec env CloseEv c = Inr c' \<and> step_good A M CloseEv c c' \<and> conn_closing c'"
proof -
  let ?c = "on_status lock_shared c"
  have ok: "conn_ok A M (Suc 0) 1 1 ?c" by (rule conn_ok_lock [OF assms])
  obtain c' where "disconnect env False ?c = Inr c'" "conn_inv A M c'" "conn_closing c'"
    using disconnect_ok [OF conn_okD(1,2,6) [OF ok], of env False] by blast
  with conn_okD [OF assms] show ?thesis
    by (auto simp: conn_disconnect_def Let_def closed_good on_status_def)
qed

lemma live_exec:
  assumes "conn_ok A M 0 1 1 c" and "decode_ok env M E" and "A = e_buf env" and "event_ok A ev c"
  shows "case conn_exec env ev c of
      Inl e \<Rightarrow> E e \<and> (\<exists>bytes. ev = ReadDone False bytes) | Inr c' \<Rightarrow> step_good A M ev c c'"
proof (cases ev)
  case (ReadDone err bytes)
  with read_good [OF assms(1-3), of err bytes] show ?thesis
    by (auto split: sum.splits)
next
  case CloseEv
  with close_good [OF assms(1), of env] show ?thesis by auto
next
  case (WriteDone err n)
  with write_good [OF assms(1,3), of err n] assms(4) show ?thesis by auto
next
  case (OobDone err)
  with oob_good [OF assms(1), of err env] assms(4) show ?thesis by auto
next
  case (Beat sent)
  with beat_good [OF assms(1), of sent env] assms(4) show ?thesis by auto
next
  case (PushEv d)
  with push_good [OF assms(1) _ assms(3), of d] assms(4) show ?thesis by auto
next
  case ScheduleEv
  with schedule_good [OF assms(1), of env] show ?thesis by auto
qed

text \<open>A connection not attached yet has nothing outstanding and nothing to write.\<close>

lemma idle_exec:
  assumes "c_impl c = None" and "st_flags (c_status c) = 0" and "st_shared (c_status c) = 0"
    and "c_reads c = 0" and "c_writes c = []" and "c_oobs c = 0" and "event_ok A ev c"
  shows "conn_exec env ev c = Inr c"
proof -
  have st: "\<not> conn_closing c" using assms(2) by (simp add: is_closing_def)
  have u: "bind_outcome (conn_unlock (on_status lock_shared c)) Inr = Inr c"
    by (simp add: conn_unlock_def on_status_def)
  show ?thesis
    using assms st
    by (cases ev) (simp_all add: conn_expired_def conn_push_data_def conn_schedule_write_def
        conn_disconnect_def on_status_def conn_unlock_def)
qed

lemma inv_exec:
  assumes "conn_inv A M c" and "decode_ok env M E" and "A = e_buf env" and "event_ok A ev c"
  shows "case conn_exec env ev c of
      Inl e \<Rightarrow> E e \<and> (\<exists>bytes. ev = ReadDone False bytes) | Inr c' \<Rightarrow> conn_inv A M c'"
proof -
  consider "conn_closing c" | "\<not> conn_closing c" "c_impl c = None" | "conn_ok A M 0 1 1 c"
    using assms(1) by (auto simp: conn_inv_def conn_ok_def)
  then show ?thesis
  proof cases
    case 1
    with conn_exec_closing [OF 1, of env ev] assms(1) show ?thesis by (auto simp: conn_inv_def)
  next
    case 2
    then have "conn_exec env ev c = Inr c"
      using assms(1,4) by (intro idle_exec) (auto simp: conn_inv_def conn_ok_def)
    with assms(1) show ?thesis by simp
  next
    case 3
    from live_exec [OF 3 assms(2-4)] show ?thesis by (auto simp: step_good_def split: sum.splits)
  qed
qed

text \<open>
  C30. Every step of a connection is safe: from a state of the invariant, no completion
  handler, heartbeat or public call dereferences a socket, a deleted raw connection or a
  reset pointer, trips an assertion, waits for its own lock or leaves the lock unbalanced;
  only \<open>Decode\<close> on bytes read may fault, and every step that returns gives back the lock
  and keeps the invariant, one read and one out-of-band read outstanding and a write exactly
  when the writing bit is set.
\<close>

theorem connection_steps_safe:
  assumes "conn_inv (e_buf env) M c" and "decode_ok env M E" and "event_ok (e_buf env) ev c"
  shows "case conn_exec env ev c of
      Inl e \<Rightarrow> E e \<and> (\<exists>bytes. ev = ReadDone False bytes) | Inr c' \<Rightarrow> conn_inv (e_buf env) M c'"
  using inv_exec [OF assms(1,2) refl assms(3)] .

section \<open>Runs\<close>

text \<open>
  Sequences of steps, with the bytes that completed writes have put on the wire and the bytes
  that \<open>PushData\<close> has accepted, in order.
\<close>

inductive conn_run :: "('b, 'z, 'w) conn_env \<Rightarrow> ('b, 'z, 'w) conn \<Rightarrow> string \<Rightarrow> string \<Rightarrow> ('b, 'z, 'w) conn \<Rightarrow> bool"
  for env c0 where
  run_start: "conn_run env c0 [] [] c0"
| run_step: "conn_run env c0 w q c \<Longrightarrow> event_ok (e_buf env) ev c \<Longrightarrow> conn_exec env ev c = Inr c' \<Longrightarrow>
    conn_run env c0 (w @ wire_of (e_buf env) ev c) (q @ queued_of (e_buf env) ev c c') c'"

lemma run_live:
  assumes "conn_run env c0 w q c" and "decode_ok env M E" and "conn_ok (e_buf env) M 0 1 1 c0"
    and "\<not> conn_closing c"
  shows "conn_ok (e_buf env) M 0 1 1 c \<and> c_listeners c = c_listeners c0 \<and>
    w @ unsent (e_buf env) c = unsent (e_buf env) c0 @ q"
  using assms(1,4)
proof (induction rule: conn_run.induct)
  case run_start
  then show ?case using assms(3) by simp
next
  case (run_step w q c ev c')
  have nc: "\<not> conn_closing c"
    using conn_exec_closing [of c env ev] run_step.hyps(3) run_step.prems by auto
  note IH = run_step.IH [OF nc]
  have "conn_ok (e_buf env) M 0 1 1 c" using IH by blast
  from live_exec [OF this assms(2) refl run_step.hyps(2)] run_step.hyps(3) run_step.prems
  have good: "conn_ok (e_buf env) M 0 1 1 c'" "c_listeners c' = c_listeners c"
    "wire_of (e_buf env) ev c @ unsent (e_buf env) c' = unsent (e_buf env) c @ queued_of (e_buf env) ev c c'"
    by (auto simp: step_good_def)
  have "(w @ wire_of (e_buf env) ev c) @ unsent (e_buf env) c' =
      (w @ unsent (e_buf env) c) @ queued_of (e_buf env) ev c c'"
    using good(3) by simp
  with good IH show ?case by simp
qed

text \<open>
  C14. The write path is a FIFO across both duplex queues: in any run of a connection that is
  not closed, the bytes written to the socket followed by the bytes still queued are exactly
  the bytes accepted, in the order of acceptance: nothing is lost, repeated or reordered
  however pushes, partial writes and the switching of the queues interleave.
\<close>

theorem write_path_fifo:
  assumes "conn_run env c0 w q c" and "decode_ok env M E" and "conn_ok (e_buf env) M 0 1 1 c0"
    and "\<not> conn_closing c"
  shows "w @ unsent (e_buf env) c = unsent (e_buf env) c0 @ q"
  using run_live [OF assms] by blast

text \<open>
  C29. No byte is left without a write: when \<open>ScheduleWrite\<close> or a completed write returns on
  a working connection, either nothing is queued or one write is outstanding.
\<close>

theorem queued_bytes_have_a_write:
  assumes "conn_ok (e_buf env) M 0 1 1 c" and "ev = ScheduleEv \<or> ev = WriteDone False n"
    and "event_ok (e_buf env) ev c"
  shows "\<exists>c'. conn_exec env ev c = Inr c' \<and> conn_ok (e_buf env) M 0 1 1 c' \<and>
    (unsent (e_buf env) c' = [] \<or> length (c_writes c') = 1)"
proof -
  have one: "is_writing (c_status c') \<Longrightarrow> conn_ok A M 0 1 1 c' \<Longrightarrow> length (c_writes c') = 1" for c' A
    by (auto simp: conn_ok_def writes_ok_def)
  from assms(2) show ?thesis
  proof
    assume ev: "ev = ScheduleEv"
    with conn_schedule_write_ok [OF assms(1)] one show ?thesis by fastforce
  next
    assume ev: "ev = WriteDone False n"
    let ?c = "on_status lock_shared c"
    have ok: "conn_ok (e_buf env) M (Suc 0) 1 1 ?c" by (rule conn_ok_lock [OF assms(1)])
    have w: "is_writing (c_status ?c)" "c_writes ?c = c_writes c"
      using ev assms(1,3) by (auto simp: conn_ok_def writes_ok_def on_status_def split: if_splits)
    have "conn_exec env ev c = handle_write env False (int n) (?c\<lparr>c_writes := tl (c_writes ?c)\<rparr>)"
      using conn_okD [OF assms(1)] by (simp add: ev write_done_def guarded_live on_status_writes w(2))
    with handle_write_ok [OF ok w(1) refl, of n] assms(3) ev w(2) one show ?thesis by fastforce
  qed
qed

section \<open>Closing\<close>

text \<open>
  A closed connection is left alone: whatever handlers asio still runs and whatever calls
  come, no step reads or changes the raw connection, which may be deleted, tells a listener
  or starts an operation.
\<close>

theorem closed_connection_untouched:
  assumes "conn_closing c"
  shows "\<exists>c'. conn_exec env ev c = Inr c' \<and> c_status c' = c_status c \<and> c_impl c' = c_impl c \<and>
    c_listeners c' = c_listeners c \<and> c_world c' = c_world c"
  using assms by (rule conn_exec_closing)

lemma disconnect_async:
  assumes "st_shared (c_status c) = Suc 0" and "\<not> conn_closing c" and "c_impl c = Some r" and "r_conn r"
  shows "\<exists>c'. disconnect env True c = Inr c' \<and> conn_closing c' \<and> c_impl c' = None \<and>
    c_listeners c' = [] \<and>
    c_world c' = e_dtor env (r\<lparr>r_socket := False, r_conn := False\<rparr>)
      (notify_listeners env (c_listeners c) (c_world c))"
  using assms
  by (simp add: disconnect_def conn_unlock_Inr conn_lock_exclusive_def lock_exclusive_def
      raw_this_def on_status_def Let_def) (simp add: impl_closed_def impl_reset_def)

lemma error_closes:
  assumes "conn_ok A M 0 1 1 c" and "c_impl c = Some r" and "ev = ReadDone True bytes \<or> ev = OobDone True"
  shows "\<exists>c'. conn_exec env ev c = Inr c' \<and> conn_closing c' \<and> \<not> is_connected c' \<and>
    c_impl c' = None \<and> c_listeners c' = [] \<and>
    c_world c' = e_dtor env (r\<lparr>r_socket := False, r_conn := False\<rparr>)
      (notify_listeners env (c_listeners c) (c_world c))"
proof -
  note ok = conn_okD [OF assms(1)]
  have r: "r_conn r" using ok(6) assms(2) by (auto simp: raw_ok_def)
  let ?c = "on_status clear_reading (on_status lock_shared (c\<lparr>c_reads := c_reads c - 1\<rparr>))"
  let ?d = "on_status lock_shared (c\<lparr>c_oobs := c_oobs c - 1\<rparr>)"
  have same: "c_impl ?c = Some r" "c_listeners ?c = c_listeners c" "c_world ?c = c_world c"
    "c_impl ?d = Some r" "c_listeners ?d = c_listeners c" "c_world ?d = c_world c"
    "st_shared (c_status ?c) = Suc 0" "\<not> conn_closing ?c"
    "st_shared (c_status ?d) = Suc 0" "\<not> conn_closing ?d"
    using assms(2) ok by (simp_all add: on_status_def)
  from assms(3) show ?thesis
  proof
    assume "ev = ReadDone True bytes"
    then have "conn_exec env ev c = disconnect env True ?c"
      using ok by (simp add: read_done_def guarded_live handle_read_def) (simp add: on_status_def)
    with disconnect_async [of ?c r env] same r show ?thesis by (auto simp: is_connected_def)
  next
    assume "ev = OobDone True"
    then have "conn_exec env ev c = disconnect env True ?d"
      using ok by (simp add: oob_done_def guarded_live oob_recv_def)
    with disconnect_async [of ?d r env] same r show ?thesis by (auto simp: is_connected_def)
  qed
qed

text \<open>
  The events in which \<open>RawConnection\<close> itself gives up: an error on a read, a write or an out-of-band
  read, bytes that \<open>Decode\<close> refuses, a heartbeat that is not sent or that takes the package counters too far apart.
  \<open>d\<close> is the connection as \<open>Disconnect\<close> finds it, up to its status and counters.
\<close>

definition counters :: "('b, 'z, 'w) conn \<Rightarrow> (int \<times> int) option" where
  "counters c = (case c_impl c of None \<Rightarrow> None | Some r \<Rightarrow> Some (r_send r, r_recv r))"

fun gives_up ::
  "('b, 'z, 'w) conn_env \<Rightarrow> conn_event \<Rightarrow> ('b, 'z, 'w) conn \<Rightarrow> ('b, 'z, 'w) conn \<Rightarrow> bool" where
  "gives_up env (ReadDone err bytes) c d \<longleftrightarrow>
     (if err then d = c
      else e_decode env bytes (on_status lock_shared (c\<lparr>c_reads := c_reads c - 1\<rparr>)) = Inr (False, d))"
| "gives_up env (WriteDone err n) c d \<longleftrightarrow> err \<and> d = c"
| "gives_up env (OobDone err) c d \<longleftrightarrow> err \<and> d = c"
| "gives_up env (Beat sent) c d \<longleftrightarrow> d = c \<and> (\<not> sent \<or> (case counters c of
     Some (send, recv) \<Rightarrow> abs (send + 1 - recv) > kHeartbeatUnsyncWindow | None \<Rightarrow> False))"
| "gives_up env _ c d \<longleftrightarrow> False"

lemma notify_steps:
  "\<exists>W. W 0 = w \<and> W (length ls) = notify_listeners env ls w \<and>
     (\<forall>i<length ls. W (Suc i) = (if e_alive env (ls ! i) (W i) then e_closed env (ls ! i) (W i) else W i))"
  by (rule exI [of _ "\<lambda>i. notify_listeners env (take i ls) w"])
    (simp add: notify_listeners_def take_Suc_conv_app_nth)

lemma notify_alive:
  assumes "\<And>l m w. e_alive env m (e_closed env l w) = e_alive env m w"
  shows "notify_listeners env ls w = fold (e_closed env) (filter (\<lambda>l. e_alive env l w) ls) w"
  by (induction ls arbitrary: w) (simp_all add: notify_listeners_def assms)

lemma gives_up_disconnects:
  assumes "conn_ok A M 0 1 1 c" and "A = e_buf env" and "decode_ok env M E" and "event_ok A ev c" and "gives_up env ev c d"
  shows "\<exists>e r. conn_exec env ev c = disconnect env True e \<and> st_shared (c_status e) = Suc 0 \<and> \<not> conn_closing e \<and>
    c_impl e = Some r \<and> r_conn r \<and> c_listeners e = c_listeners c \<and> c_world e = c_world d \<and>
    Some (raw.more r) = map_option raw.more (c_impl d)"
proof -
  note ok = conn_okD [OF assms(1)]
  obtain r where r: "c_impl c = Some r" "raw_ok A M r" "writes_ok c r" using ok(6) by blast
  then have sock: "r_socket r" "r_conn r" by (simp_all add: raw_ok_def)
  show ?thesis
  proof (cases ev)
    case (ReadDone err bytes)
    let ?c = "on_status lock_shared (c\<lparr>c_reads := c_reads c - 1\<rparr>)"
    have read: "conn_exec env ev c = handle_read env err bytes ?c" "is_reading (c_status ?c)"
      using ok ReadDone by (simp_all add: read_done_def guarded_live) (simp add: on_status_def)
    show ?thesis
    proof (cases err)
      case True
      then have "conn_exec env ev c = disconnect env True (on_status clear_reading ?c)"
        using read by (simp add: handle_read_def)
      then show ?thesis using ok r sock assms(5) ReadDone True
        by (intro exI [of _ "on_status clear_reading ?c"] exI [of _ r]) (simp add: on_status_def)
    next
      case False
      then have dec: "e_decode env bytes ?c = Inr (False, d)" using assms(5) ReadDone by simp
      have "conn_ok A M (Suc 0) 0 1 ?c" using assms(1) by (simp add: conn_ok_def writes_ok_def on_status_def)
      then have "case e_decode env bytes ?c of Inl e \<Rightarrow> E e
          | Inr (ok, c') \<Rightarrow> conn_ok A M (Suc 0) 0 1 c' \<and> c_listeners c' = c_listeners ?c \<and>
              (\<exists>q. unsent A c' = unsent A ?c @ q)"
        using assms(3) unfolding decode_ok_def assms(2) by blast
      then have d: "conn_ok A M (Suc 0) 0 1 d" "c_listeners d = c_listeners c"
        using dec by (simp_all add: on_status_def)
      obtain r' where r': "c_impl d = Some r'" "raw_ok A M r'" using conn_okD(6) [OF d(1)] by blast
      have "conn_exec env ev c = disconnect env True (on_status clear_reading d)"
        using read False dec by (simp add: handle_read_def)
      then show ?thesis using d r' conn_okD [OF d(1)]
        by (intro exI [of _ "on_status clear_reading d"] exI [of _ r']) (simp add: on_status_def raw_ok_def)
    qed
  next
    case (WriteDone err n)
    let ?c = "on_status lock_shared (c\<lparr>c_writes := tl (c_writes c)\<rparr>)"
    have err: err "d = c" using assms(5) WriteDone by simp_all
    have "is_writing (c_status c)" using assms(4) WriteDone r(3) by (auto simp: writes_ok_def split: if_splits)
    then have "conn_exec env ev c = disconnect env True (on_status clear_writing ?c)"
      using ok WriteDone err by (simp add: write_done_def guarded_live handle_write_def) (simp add: on_status_def)
    then show ?thesis using ok r sock err
      by (intro exI [of _ "on_status clear_writing ?c"] exI [of _ r]) (simp add: on_status_def)
  next
    case (OobDone err)
    let ?c = "on_status lock_shared (c\<lparr>c_oobs := c_oobs c - 1\<rparr>)"
    have err: err "d = c" using assms(5) OobDone by simp_all
    then have "conn_exec env ev c = disconnect env True ?c"
      using ok OobDone by (simp add: oob_done_def guarded_live oob_recv_def)
    then show ?thesis using ok r sock err
      by (intro exI [of _ ?c] exI [of _ r]) (simp add: on_status_def)
  next
    case (Beat sent)
    let ?c = "on_status lock_shared c"
    have d: "d = c" using assms(5) Beat by simp
    have beat: "conn_exec env ev c = heartbeat env sent ?c" "socket_this ?c = Inr r"
      using ok r sock Beat by (simp_all add: conn_expired_def Let_def on_status_def socket_this_def raw_this_def)
    show ?thesis
    proof (cases sent)
      case False
      then have "conn_exec env ev c = disconnect env True ?c" using beat by (simp add: heartbeat_def)
      then show ?thesis using ok r sock d
        by (intro exI [of _ ?c] exI [of _ r]) (simp add: on_status_def)
    next
      case True
      let ?e = "?c\<lparr>c_impl := Some (r\<lparr>r_send := r_send r + 1\<rparr>)\<rparr>"
      have "abs (r_send r + 1 - r_recv r) > kHeartbeatUnsyncWindow"
        using assms(5) Beat True r by (simp add: counters_def)
      then have "conn_exec env ev c = disconnect env True ?e"
        using beat True assms(4) r Beat by (simp add: heartbeat_def i32_def)
      then show ?thesis using ok r sock d
        by (intro exI [of _ ?e] exI [of _ "r\<lparr>r_send := r_send r + 1\<rparr>"]) (simp add: on_status_def)
    qed
  qed (use assms(5) in simp_all)
qed

text \<open>
  C38. Whenever the raw connection gives up (an error on a read, a write or an out-of-band read, bytes that \<open>Decode\<close> refuses,
  a heartbeat that cannot be sent or that takes the package counters too far apart), the connection is closed and its listeners are gone through once, in the order of their
  registration: one that is alive when its turn comes is told, one that is not is passed over. So if being told makes no listener come or go, exactly
  those alive at the error are told, each as often as it has registered. After that the raw connection is destroyed, with its socket closed, and the listeners are forgotten.
\<close>

theorem error_closes_and_notifies:
  assumes "conn_ok A M 0 1 1 c" and "A = e_buf env" and "decode_ok env M E" and "event_ok A ev c" and "gives_up env ev c d"
  shows "\<exists>c' r W. conn_exec env ev c = Inr c' \<and> conn_closing c' \<and> \<not> is_connected c' \<and>
    c_impl c' = None \<and> c_listeners c' = [] \<and>
    W 0 = c_world d \<and>
    (\<forall>i<length (c_listeners c). W (Suc i) =
      (if e_alive env (c_listeners c ! i) (W i) then e_closed env (c_listeners c ! i) (W i) else W i)) \<and>
    ((\<forall>l m w. e_alive env m (e_closed env l w) = e_alive env m w) \<longrightarrow> W (length (c_listeners c)) =
      fold (e_closed env) (filter (\<lambda>l. e_alive env l (c_world d)) (c_listeners c)) (c_world d)) \<and>
    c_world c' = e_dtor env r (W (length (c_listeners c))) \<and>
    \<not> r_socket r \<and> \<not> r_conn r \<and> Some (raw.more r) = map_option raw.more (c_impl d)"
proof -
  obtain e r where e: "conn_exec env ev c = disconnect env True e" "st_shared (c_status e) = Suc 0" "\<not> conn_closing e"
    "c_impl e = Some r" "r_conn r" "c_listeners e = c_listeners c" "c_world e = c_world d"
    "Some (raw.more r) = map_option raw.more (c_impl d)"
    using gives_up_disconnects [OF assms] by blast
  from disconnect_async [OF e(2-5), of env] obtain c' where c': "disconnect env True e = Inr c'" "conn_closing c'"
    "c_impl c' = None" "c_listeners c' = []"
    "c_world c' = e_dtor env (r\<lparr>r_socket := False, r_conn := False\<rparr>) (notify_listeners env (c_listeners c) (c_world d))"
    unfolding e(6,7) by blast
  obtain W where W: "W 0 = c_world d" "W (length (c_listeners c)) = notify_listeners env (c_listeners c) (c_world d)"
    "\<forall>i<length (c_listeners c). W (Suc i) =
      (if e_alive env (c_listeners c ! i) (W i) then e_closed env (c_listeners c ! i) (W i) else W i)"
    using notify_steps [of "c_world d" "c_listeners c" env] by (elim exE conjE) (rule that)
  moreover have "(\<forall>l m w. e_alive env m (e_closed env l w) = e_alive env m w) \<longrightarrow> W (length (c_listeners c)) =
      fold (e_closed env) (filter (\<lambda>l. e_alive env l (c_world d)) (c_listeners c)) (c_world d)"
    unfolding W(2) using notify_alive [of env] by blast
  moreover have "\<not> is_connected c'" using c'(2) by (simp add: is_connected_def)
  moreover have "conn_exec env ev c = Inr c'" using e(1) c'(1) by simp
  moreover have "c_world c' = e_dtor env (r\<lparr>r_socket := False, r_conn := False\<rparr>) (W (length (c_listeners c)))"
    unfolding W(2) by (rule c'(5))
  moreover have "\<not> r_socket (r\<lparr>r_socket := False, r_conn := False\<rparr>)" "\<not> r_conn (r\<lparr>r_socket := False, r_conn := False\<rparr>)"
    "Some (raw.more (r\<lparr>r_socket := False, r_conn := False\<rparr>)) = map_option raw.more (c_impl d)"
    using e(8) by simp_all
  ultimately show ?thesis using c'(2-4) W(1,3)
    by - (rule exI [of _ c'], rule exI [of _ "r\<lparr>r_socket := False, r_conn := False\<rparr>"], rule exI [of _ W],
      (intro conjI; assumption))
qed

text \<open>
  A local \<open>Disconnect\<close> closes without telling anyone: the listeners stay registered, the
  world is as it was and the raw connection stays in place until the connection is deleted.
\<close>

theorem local_disconnect_is_silent:
  assumes "conn_ok A M 0 1 1 c"
  shows "\<exists>c'. conn_disconnect env c = Inr c' \<and> conn_closing c' \<and> c_listeners c' = c_listeners c \<and>
    c_world c' = c_world c \<and> c_impl c' \<noteq> None"
proof -
  note ok = conn_okD [OF assms]
  then obtain r where r: "c_impl c = Some r" "r_conn r" by (auto simp: raw_ok_def)
  have "conn_disconnect env c = disconnect env False (on_status lock_shared c)"
    using ok r by (simp add: conn_disconnect_def Let_def on_status_def)
  with ok r show ?thesis
    by (simp add: disconnect_def conn_unlock_Inr conn_lock_exclusive_def lock_exclusive_def
        raw_this_def on_status_def Let_def)
qed

section \<open>Attaching\<close>

text \<open>
  \<open>InitSocket\<close> brings a fresh raw connection into the working state, with its first
  read and out-of-band read outstanding; on a connection that was closed before it aborts.
\<close>

lemma init_socket_works:
  assumes "c_status c = status_new" and "c_impl c = Some r" and "raw_ok A M (r\<lparr>r_socket := True\<rparr>)"
    and "scb_empty (outcoming r)" and "c_reads c = 0" and "c_writes c = []" and "c_oobs c = 0"
  shows "\<exists>c'. init_socket c = Inr c' \<and> conn_ok A M 0 1 1 c' \<and> c_listeners c' = c_listeners c \<and>
    unsent A c' = unsent A c \<and> c_world c' = c_world c"
proof -
  have "\<not> is_closing status_new" by (simp add: is_closing_def status_new_def)
  moreover have "\<not> is_writing status_new" by (simp add: is_writing_def status_new_def)
  ultimately show ?thesis
    using assms
    by (simp add: init_socket_def on_status_def raw_this_def start_oob_recv_def async_read_def
        socket_this_def conn_unlock_def unlock_shared_def Let_def conn_ok_def writes_ok_def raw_ok_def
        unsent_def raw_unsent_def outcoming_def incoming_def)
      (simp add: status_new_def)
qed

lemma init_socket_closing:
  "conn_closing c \<Longrightarrow> init_socket c = Inl AssertFailed"
  by (simp add: init_socket_def on_status_def)

section \<open>What every step conserves\<close>

text \<open>
  A quantity computed from the world and from the members of the derived class, such as the
  calls a client still waits for. If the destructor hands it over to the world and listeners
  and \<open>Decode\<close> keep it, then so does every step of the connection.
\<close>

definition conn_view :: "('w \<Rightarrow> 'z option \<Rightarrow> 'm) \<Rightarrow> ('b, 'z, 'w) conn \<Rightarrow> 'm" where
  "conn_view G c = G (c_world c) (map_option raw.more (c_impl c))"

lemma conn_view_simps [simp]:
  "conn_view G (on_status f c) = conn_view G c" "conn_view G (c\<lparr>c_reads := a\<rparr>) = conn_view G c"
  "conn_view G (c\<lparr>c_writes := ws\<rparr>) = conn_view G c" "conn_view G (c\<lparr>c_oobs := a\<rparr>) = conn_view G c"
  "conn_view G (c\<lparr>c_status := st\<rparr>) = conn_view G c"
  "c_impl c = Some r \<Longrightarrow> raw.more r' = raw.more r \<Longrightarrow> conn_view G (c\<lparr>c_impl := Some r'\<rparr>) = conn_view G c"
  by (simp_all add: conn_view_def on_status_def)

lemma raw_this_Inr: "raw_this c = Inr r \<longleftrightarrow> c_impl c = Some r"
  by (simp add: raw_this_def split: option.splits)

lemma socket_this_Inr: "socket_this c = Inr r \<longleftrightarrow> c_impl c = Some r \<and> r_socket r"
  by (auto simp: socket_this_def raw_this_Inr split: if_splits)

lemma view_small_steps:
  "conn_unlock c = Inr c' \<Longrightarrow> conn_view G c' = conn_view G c"
  "conn_lock_exclusive c = Inr c' \<Longrightarrow> conn_view G c' = conn_view G c"
  "start_oob_recv c = Inr c' \<Longrightarrow> conn_view G c' = conn_view G c"
  "async_read c = Inr c' \<Longrightarrow> conn_view G c' = conn_view G c"
  "async_write c = Inr c' \<Longrightarrow> conn_view G c' = conn_view G c"
  by (auto simp: conn_unlock_def conn_lock_exclusive_def start_oob_recv_def async_read_def async_write_def)

lemma more_queues [simp]:
  "raw.more (set_outcoming q r) = raw.more r" "raw.more (set_incoming q r) = raw.more r"
  by (simp_all add: set_outcoming_def set_incoming_def)

lemma raw_push_data_more: "raw_push_data A d r = Inr r' \<Longrightarrow> raw.more r' = raw.more r"
  by (auto simp: raw_push_data_def split: option.splits)

lemma view_push: "conn_push_data A d c = Inr (b, c') \<Longrightarrow> conn_view G c' = conn_view G c"
  by (auto simp: conn_push_data_def Let_def on_status_def dest!: view_small_steps [where G = G] raw_push_data_more
      split: if_splits option.splits)

lemma view_raw_schedule: "raw_schedule_write c = Inr (b, c') \<Longrightarrow> conn_view G c' = conn_view G c"
  by (auto simp: raw_schedule_write_def Let_def on_status_def raw_this_Inr dest!: view_small_steps [where G = G]
      split: if_splits)

lemma view_schedule: "conn_schedule_write c = Inr (b, c') \<Longrightarrow> conn_view G c' = conn_view G c"
  by (auto simp: conn_schedule_write_def Let_def dest!: view_small_steps [where G = G] view_raw_schedule [where G = G]
      split: if_splits)

text \<open>
  A quantity of the application and of the members of the raw connection that only moves one way,
  because the code outside (the destructor, the listeners and the decoder) moves it so.
\<close>

locale monotone_quantity =
  fixes env :: "('b, 'z, 'w) conn_env" and M :: "'z \<Rightarrow> bool" and G :: "'w \<Rightarrow> 'z option \<Rightarrow> 'm"
    and le :: "'m \<Rightarrow> 'm \<Rightarrow> bool"
  assumes le_refl: "le m m" and le_trans: "le m n \<Longrightarrow> le n p \<Longrightarrow> le m p"
    and dtor_moves: "le (G w (Some (raw.more r))) (G (e_dtor env r w) None)"
    and closed_moves: "le (G w x) (G (e_closed env l w) x)"
    and decode_moves: "conn_ok (e_buf env) M k a b c \<Longrightarrow> e_decode env bytes c = Inr (ok, c') \<Longrightarrow>
      le (conn_view G c) (conn_view G c')"
begin

lemma le_eq: "conn_view G c' = conn_view G c \<Longrightarrow> le (conn_view G c) (conn_view G c')"
  by (simp add: le_refl)

lemma notify_moves: "le (G w x) (G (notify_listeners env ls w) x)"
  by (induction ls arbitrary: w) (auto simp: notify_listeners_def le_refl intro: le_trans closed_moves)

lemma impl_reset_moves: "le (conn_view G c) (conn_view G (impl_reset env c))"
  by (simp add: conn_view_def impl_reset_def dtor_moves le_refl split: option.splits)

lemma impl_closed_moves: "le (conn_view G c) (conn_view G (impl_closed env c))"
  unfolding impl_closed_def
  by (rule le_trans [OF _ impl_reset_moves]) (simp add: conn_view_def notify_moves)

lemma disconnect_moves: "disconnect env async c = Inr c' \<Longrightarrow> le (conn_view G c) (conn_view G c')"
  by (auto simp: disconnect_def Let_def raw_this_Inr on_status_def le_refl
      dest!: view_small_steps [where G = G] intro!: le_trans [OF le_eq impl_closed_moves] split: if_splits)

lemma heartbeat_moves: "heartbeat env sent c = Inr c' \<Longrightarrow> le (conn_view G c) (conn_view G c')"
  by (auto simp: heartbeat_def Let_def socket_this_Inr le_refl dest!: view_small_steps [where G = G] disconnect_moves
      split: if_splits)

lemma oob_recv_moves: "oob_recv env err c = Inr c' \<Longrightarrow> le (conn_view G c) (conn_view G c')"
  by (auto simp: oob_recv_def raw_this_Inr le_refl dest!: view_small_steps [where G = G] disconnect_moves split: if_splits)

lemma handle_write_moves: "handle_write env err n c = Inr c' \<Longrightarrow> le (conn_view G c) (conn_view G c')"
  by (auto simp: handle_write_def Let_def raw_this_Inr le_refl dest!: view_small_steps [where G = G] disconnect_moves
      split: if_splits)

lemma handle_read_moves:
  assumes "conn_ok (e_buf env) M k a b c" and "handle_read env err bytes c = Inr c'"
  shows "le (conn_view G c) (conn_view G c')"
  using assms(2)
  by (auto simp: handle_read_def dest!: view_small_steps [where G = G] disconnect_moves decode_moves [OF assms(1)]
      split: if_splits intro: le_trans)

lemma guarded_moves:
  assumes "guarded member c = Inr c'"
    and "\<And>c'. \<not> conn_closing c \<Longrightarrow> member (on_status lock_shared c) = Inr c' \<Longrightarrow>
      le (conn_view G (on_status lock_shared c)) (conn_view G c')"
  shows "le (conn_view G c) (conn_view G c')"
  using assms by (auto simp: guarded_def Let_def on_status_def le_refl dest!: view_small_steps [where G = G] split: if_splits)

lemma exec_moves:
  assumes "conn_ok (e_buf env) M 0 1 1 c \<or> conn_closing c \<or> c_reads c = 0"
    and "event_ok (e_buf env) ev c" and "conn_exec env ev c = Inr c'"
  shows "le (conn_view G c) (conn_view G c')"
proof (cases ev)
  case (ReadDone err bytes)
  have "le (conn_view G (c\<lparr>c_reads := c_reads c - 1\<rparr>)) (conn_view G c')"
  proof (rule guarded_moves)
    show "guarded (handle_read env err bytes) (c\<lparr>c_reads := c_reads c - 1\<rparr>) = Inr c'"
      using assms(3) ReadDone by (simp add: read_done_def)
    fix c1
    assume nc: "\<not> conn_closing (c\<lparr>c_reads := c_reads c - 1\<rparr>)"
      and h: "handle_read env err bytes (on_status lock_shared (c\<lparr>c_reads := c_reads c - 1\<rparr>)) = Inr c1"
    have "conn_ok (e_buf env) M 0 1 1 c" using assms(1,2) nc ReadDone by auto
    then have "conn_ok (e_buf env) M 0 0 1 (c\<lparr>c_reads := c_reads c - 1\<rparr>)"
      using conn_ok_reads(1) conn_okD(4) by fastforce
    from handle_read_moves [OF conn_ok_lock [OF this] h]
    show "le (conn_view G (on_status lock_shared (c\<lparr>c_reads := c_reads c - 1\<rparr>))) (conn_view G c1)" .
  qed
  then show ?thesis by simp
next
  case (WriteDone err n)
  then have "guarded (handle_write env err (int n)) (c\<lparr>c_writes := tl (c_writes c)\<rparr>) = Inr c'"
    using assms(3) by (simp add: write_done_def)
  then have "le (conn_view G (c\<lparr>c_writes := tl (c_writes c)\<rparr>)) (conn_view G c')"
    by (rule guarded_moves) (rule handle_write_moves)
  then show ?thesis by simp
next
  case (OobDone err)
  then have "guarded (oob_recv env err) (c\<lparr>c_oobs := c_oobs c - 1\<rparr>) = Inr c'"
    using assms(3) by (simp add: oob_done_def)
  then have "le (conn_view G (c\<lparr>c_oobs := c_oobs c - 1\<rparr>)) (conn_view G c')"
    by (rule guarded_moves) (rule oob_recv_moves)
  then show ?thesis by simp
next
  case (Beat sent)
  with assms(3) show ?thesis
    by (auto simp: conn_expired_def Let_def le_refl dest!: view_small_steps [where G = G] heartbeat_moves split: if_splits)
next
  case CloseEv
  with assms(3) show ?thesis
    by (auto simp: conn_disconnect_def Let_def le_refl dest!: view_small_steps [where G = G] disconnect_moves split: if_splits)
qed (use assms(3) in \<open>auto simp: le_refl dest!: view_push [where G = G] view_schedule [where G = G]\<close>)

end

text \<open>A quantity that they keep.\<close>

locale conserved_quantity =
  fixes env :: "('b, 'z, 'w) conn_env" and M :: "'z \<Rightarrow> bool" and G :: "'w \<Rightarrow> 'z option \<Rightarrow> 'm"
  assumes dtor_keeps: "G (e_dtor env r w) None = G w (Some (raw.more r))"
    and closed_keeps: "G (e_closed env l w) x = G w x"
    and decode_keeps: "conn_ok (e_buf env) M k a b c \<Longrightarrow> e_decode env bytes c = Inr (ok, c') \<Longrightarrow>
      conn_view G c' = conn_view G c"

sublocale conserved_quantity \<subseteq> monotone_quantity env M G "\<lambda>m n. n = m"
  using dtor_keeps closed_keeps decode_keeps by unfold_locales auto

context conserved_quantity
begin

lemmas impl_reset_keeps = impl_reset_moves

lemmas exec_keeps = exec_moves

end

section \<open>Heartbeats\<close>

lemma beat_counters:
  assumes "conn_ok A M 0 1 1 c" and "counters c = Some (s, t)" and "in_i32 (s + 1)" and "0 \<le> s"
    and "0 \<le> t" and "t \<le> INT_MAX"
  shows "\<exists>c'. conn_exec env (Beat True) c = Inr c' \<and>
    (if abs (s + 1 - t) \<le> kHeartbeatUnsyncWindow
     then conn_ok A M 0 1 1 c' \<and> counters c' = Some (s + 1, t) else conn_closing c')"
proof -
  let ?c = "on_status lock_shared c"
  have ok: "conn_ok A M (Suc 0) 1 1 ?c" by (rule conn_ok_lock [OF assms(1)])
  obtain r where r: "c_impl c = Some r" "r_send r = s" "r_recv r = t" "raw_ok A M r" "writes_ok c r"
    using assms(2) conn_okD(6) [OF assms(1)] by (auto simp: counters_def)
  have exec: "conn_exec env (Beat True) c = heartbeat env True ?c"
    using conn_okD [OF assms(1)] by (auto simp: conn_expired_def on_status_def Let_def)
  let ?r = "r\<lparr>r_send := s + 1\<rparr>"
  let ?d = "?c\<lparr>c_impl := Some ?r\<rparr>"
  have d: "conn_ok A M (Suc 0) 1 1 ?d"
    using ok r raw_ok_after(4) [OF r(4)] by (simp add: conn_ok_def writes_ok_def on_status_def)
  show ?thesis
  proof (cases "in_i32 (s + 1 - t) \<and> in_i32 (abs (s + 1 - t))")
    case True
    have hb: "heartbeat env True ?c = (if abs (s + 1 - t) > kHeartbeatUnsyncWindow
        then disconnect env True ?d else conn_unlock ?d)"
      using r True assms(3)
      by (simp add: heartbeat_def socket_this_def raw_this_def raw_ok_def Let_def) (simp add: on_status_def)
    obtain c1 where "disconnect env True ?d = Inr c1" "conn_closing c1"
      using disconnect_ok [OF conn_okD(1,2,6) [OF d], of env True] by blast
    moreover obtain c2 where "conn_unlock ?d = Inr c2" "conn_ok A M 0 1 1 c2" "c_impl c2 = c_impl ?d"
      using conn_ok_unlock [OF d] by blast
    ultimately show ?thesis
      using hb unfolding exec by (auto simp: counters_def r)
  next
    case False
    moreover have "in_i32 (s + 1 - t)" "in_i32 (abs (s + 1 - t))"
      using assms(3-6) unfolding int_range_defs by arith+
    ultimately show ?thesis by simp
  qed
qed

text \<open>
  A silent peer is dropped at the third heartbeat: from counters in step, two heartbeats
  without an answer leave the connection working and the third closes it.
\<close>

theorem silent_peer_dropped:
  assumes "conn_ok A M 0 1 1 c" and "counters c = Some (n, n)" and "0 \<le> n" and "n + 3 \<le> INT_MAX"
  shows "\<exists>c1 c2 c3. conn_exec env (Beat True) c = Inr c1 \<and> conn_exec env (Beat True) c1 = Inr c2 \<and>
    conn_exec env (Beat True) c2 = Inr c3 \<and> conn_ok A M 0 1 1 c2 \<and> conn_closing c3"
proof -
  have fits: "in_i32 (n + 1)" "in_i32 (n + 1 + 1)" "in_i32 (n + 1 + 1 + 1)"
    using assms(3,4) by (simp_all add: int_range_defs)
  have n: "n \<le> INT_MAX" using assms(4) by simp
  obtain c1 where 1: "conn_exec env (Beat True) c = Inr c1" "conn_ok A M 0 1 1 c1"
    "counters c1 = Some (n + 1, n)"
    using beat_counters [OF assms(1,2) fits(1) assms(3,3) n, of env]
    by (auto simp: kHeartbeatUnsyncWindow_def)
  obtain c2 where 2: "conn_exec env (Beat True) c1 = Inr c2" "conn_ok A M 0 1 1 c2"
    "counters c2 = Some (n + 1 + 1, n)"
    using beat_counters [OF 1(2,3) fits(2) _ assms(3) n, of env] assms(3)
    by (auto simp: kHeartbeatUnsyncWindow_def)
  obtain c3 where "conn_exec env (Beat True) c2 = Inr c3" "conn_closing c3"
    using beat_counters [OF 2(2,3) fits(3) _ assms(3) n, of env] assms(3)
    by (auto simp: kHeartbeatUnsyncWindow_def)
  with 1 2 show ?thesis by blast
qed

section \<open>Witnesses\<close>

text \<open>
  A connection over strings whose world is the list of the listeners told, whose \<open>Decode\<close>
  accepts everything and whose raw connection has nothing to release.
\<close>

definition demo_env :: "(string, unit, nat list) conn_env" where
  "demo_env = \<lparr>e_buf = string_buffers, e_decode = (\<lambda>bytes c. Inr (True, c)), e_dtor = (\<lambda>r w. w),
     e_alive = (\<lambda>l w. True), e_closed = (\<lambda>l w. w @ [l])\<rparr>"

definition demo_conn :: "(string, unit, nat list) conn" where
  "demo_conn =
     \<lparr>c_name = ''peer'', c_id = 1, c_status = \<lparr>st_flags = 1, st_shared = 0\<rparr>,
      c_impl = Some ((raw_new ''peer0'' 0 0 ())\<lparr>r_socket := True\<rparr>), c_listeners = [4, 5],
      c_reads = 1, c_writes = [], c_oobs = 1, c_world = []\<rparr>"

lemma demo_flags [simp]:
  "is_reading \<lparr>st_flags = 1, st_shared = k\<rparr>" "\<not> is_writing \<lparr>st_flags = 1, st_shared = k\<rparr>"
  "\<not> is_closing \<lparr>st_flags = 1, st_shared = k\<rparr>"
  by (simp_all add: is_reading_def is_writing_def is_closing_def status_bits)

lemma demo_buf [simp]: "e_buf demo_env = string_buffers"
  by (simp add: demo_env_def)

lemma demo_conn_ok: "conn_ok string_buffers (\<lambda>_. True) 0 1 1 demo_conn"
  by (simp add: conn_ok_def demo_conn_def raw_new_def raw_ok_def writes_ok_def outcoming_def)

lemma demo_conn_simps [simp]:
  "conn_ok string_buffers (\<lambda>_. True) 0 (Suc 0) (Suc 0) demo_conn" "conn_inv string_buffers (\<lambda>_. True) demo_conn"
  using demo_conn_ok conn_ok_inv [OF demo_conn_ok] by simp_all

lemma demo_decode_ok [simp]: "decode_ok demo_env (\<lambda>_. True) (\<lambda>e. False)"
  by (simp add: decode_ok_def) (simp add: demo_env_def)

definition demo_data :: "cstr option \<times> cstr option" where
  "demo_data = (Some (cs 1 ''2:''), Some (cs 0 ''hi''))"

lemma demo_data_ok [simp]: "data_ok demo_data" "data_text demo_data = ''2:hi''"
  by (simp_all add: data_ok_def demo_data_def data_text_def cs_def)

theorem connection_steps_safe_witness:
  "case conn_exec demo_env (PushEv demo_data) demo_conn of
     Inl e \<Rightarrow> False \<and> (\<exists>bytes. PushEv demo_data = ReadDone False bytes)
   | Inr c' \<Rightarrow> conn_inv string_buffers (\<lambda>_. True) c'"
  using connection_steps_safe [where env = demo_env and c = demo_conn and M = "\<lambda>_. True"
      and E = "\<lambda>e. False" and ev = "PushEv demo_data", unfolded demo_buf]
  by simp

lemma demo_push: "\<exists>c. conn_exec demo_env (PushEv demo_data) demo_conn = Inr c \<and>
    conn_ok string_buffers (\<lambda>_. True) 0 1 1 c \<and> unsent string_buffers c = ''2:hi''"
proof -
  have "unsent string_buffers demo_conn = []"
    by (simp add: unsent_def demo_conn_def raw_unsent_def outcoming_def incoming_def raw_new_def)
  with conn_push_data_ok [where A = string_buffers and M = "\<lambda>_. True" and k = 0 and a = 1 and b = 1
      and c = demo_conn and d = demo_data] show ?thesis by auto
qed

theorem write_path_fifo_witness:
  "\<exists>c. conn_run demo_env demo_conn [] ''2:hi'' c \<and>
     [] @ unsent string_buffers c = unsent string_buffers demo_conn @ ''2:hi''"
proof -
  from demo_push obtain c where c: "conn_exec demo_env (PushEv demo_data) demo_conn = Inr c"
    "conn_ok string_buffers (\<lambda>_. True) 0 1 1 c" by blast
  have run: "conn_run demo_env demo_conn [] ''2:hi'' c"
    using run_step [OF run_start, of demo_env "PushEv demo_data" demo_conn c] c by simp
  show ?thesis
    using write_path_fifo [OF run demo_decode_ok, unfolded demo_buf, OF demo_conn_ok] conn_okD(2) [OF c(2)] run by auto
qed

theorem queued_bytes_have_a_write_witness:
  "\<exists>c c'. conn_exec demo_env (PushEv demo_data) demo_conn = Inr c \<and>
     conn_exec demo_env ScheduleEv c = Inr c' \<and>
     (unsent string_buffers c' = [] \<or> length (c_writes c') = 1)"
proof -
  from demo_push obtain c where c: "conn_exec demo_env (PushEv demo_data) demo_conn = Inr c"
    "conn_ok string_buffers (\<lambda>_. True) 0 1 1 c" by blast
  from queued_bytes_have_a_write [where env = demo_env and M = "\<lambda>_. True" and c = c
      and ev = ScheduleEv] c show ?thesis by auto
qed

theorem closed_connection_untouched_witness:
  "\<exists>c'. conn_exec demo_env (ReadDone False ''x'')
      (demo_conn\<lparr>c_status := set_closing (c_status demo_conn), c_impl := None\<rparr>) = Inr c' \<and>
    c_impl c' = None \<and> c_world c' = []"
  using closed_connection_untouched [of "demo_conn\<lparr>c_status := set_closing (c_status demo_conn), c_impl := None\<rparr>"
      demo_env "ReadDone False ''x''"]
  by (auto simp: demo_conn_def)

text \<open>Of the two listeners the first is gone; a heartbeat cannot be sent, and only the second is told.\<close>

theorem error_closes_and_notifies_witness:
  "\<exists>c'. conn_exec (demo_env\<lparr>e_alive := \<lambda>l w. l \<noteq> 4\<rparr>) (Beat False) demo_conn = Inr c' \<and> conn_closing c' \<and>
     c_world c' = [5]"
proof -
  let ?env = "demo_env\<lparr>e_alive := \<lambda>l w. l \<noteq> 4\<rparr>"
  have "decode_ok ?env (\<lambda>_. True) (\<lambda>e. False)" by (simp add: decode_ok_def) (simp add: demo_env_def)
  moreover have "event_ok string_buffers (Beat False) demo_conn"
    by (simp add: demo_conn_def raw_new_def int_range_defs)
  ultimately show ?thesis
    using error_closes_and_notifies [OF demo_conn_ok, of ?env "\<lambda>e. False" "Beat False" demo_conn]
    by (auto simp: demo_env_def) (auto simp: demo_conn_def)
qed

theorem local_disconnect_is_silent_witness:
  "\<exists>c'. conn_disconnect demo_env demo_conn = Inr c' \<and> conn_closing c' \<and> c_listeners c' = [4, 5]"
  using local_disconnect_is_silent [OF demo_conn_ok, of demo_env] by (auto simp: demo_conn_def)

theorem silent_peer_dropped_witness:
  "\<exists>c1 c2 c3. conn_exec demo_env (Beat True) demo_conn = Inr c1 \<and>
     conn_exec demo_env (Beat True) c1 = Inr c2 \<and> conn_exec demo_env (Beat True) c2 = Inr c3 \<and>
     conn_ok string_buffers (\<lambda>_. True) 0 1 1 c2 \<and> conn_closing c3"
proof -
  have "counters demo_conn = Some (0, 0)"
    by (simp add: counters_def demo_conn_def raw_new_def)
  then show ?thesis
    by (rule silent_peer_dropped [OF demo_conn_ok]) (simp_all add: INT_MAX_def)
qed

end
