(* ===== verification/Notifier.thy ===== *)
theory Notifier
  imports Tt_Prelude
begin

text \<open>
  \<open>src/core/thread/Notifier.hpp\<close>: a count-down latch, and the class \<open>RpcController\<close> of
  \<open>network/Connection.hpp\<close> that waits on one. Each operation holds the mutex for its whole
  body, so a history of the object is a sequence of operations. The wake-ups of the condition
  variable come from outside: \<open>Wait\<close> takes what \<open>timed_wait\<close> returned.
\<close>

section \<open>Notifier\<close>

record notifier =
  n_count :: int
  n_notified :: bool
  n_wakeups :: nat      \<comment> \<open>calls of \<open>notify_all\<close>\<close>

definition notifier_new :: "int \<Rightarrow> notifier" where
  "notifier_new initial_count = \<lparr>n_count = initial_count, n_notified = False, n_wakeups = 0\<rparr>"

definition notifier_dec :: "int \<Rightarrow> notifier \<Rightarrow> notifier outcome" where
  "notifier_dec cnt n =
     bind_outcome
       (if cnt > 0 \<and> n_count n \<ge> cnt then i32 (n_count n - cnt)
        else if cnt < 0 then i32 (n_count n - cnt)
        else Inr (n_count n))
       (\<lambda>count.
        let n = n\<lparr>n_count := count\<rparr>;
            n = (if count = 0 then n\<lparr>n_wakeups := n_wakeups n + 1, n_notified := True\<rparr> else n)
        in bind_outcome (check CheckFailed (count \<ge> 0)) (\<lambda>_. Inr n))"

definition notifier_inc :: "int \<Rightarrow> notifier \<Rightarrow> notifier outcome" where
  "notifier_inc cnt n = bind_outcome (i32 (-1 * cnt)) (\<lambda>c. notifier_dec c n)"

definition notifier_notify :: "notifier \<Rightarrow> notifier outcome" where
  "notifier_notify n = notifier_dec 1 n"

text \<open>
  \<open>Wait( timeout )\<close>: the loop returns from its first turn with the answer of
  \<open>timed_wait\<close>; \<open>woken\<close> is that answer.
\<close>

definition notifier_wait :: "bool \<Rightarrow> notifier \<Rightarrow> bool" where
  "notifier_wait woken n = (if \<not> n_notified n then woken else True)"

datatype notifier_op = Dec int | Inc int | Notify

fun apply_op :: "notifier_op \<Rightarrow> notifier \<Rightarrow> notifier outcome" where
  "apply_op (Dec c) n = notifier_dec c n"
| "apply_op (Inc c) n = notifier_inc c n"
| "apply_op Notify n = notifier_notify n"

text \<open>What an operation does to the count: a decrement larger than the count is dropped.\<close>

definition count_after :: "int \<Rightarrow> int \<Rightarrow> int" where
  "count_after cnt k = (if cnt > k then k else k - cnt)"

fun delta :: "notifier_op \<Rightarrow> int" where
  "delta (Dec c) = c"
| "delta (Inc c) = - c"
| "delta Notify = 1"

lemma dec_result:
  assumes "0 \<le> n_count n" and "in_i32 (count_after cnt (n_count n))"
  shows "\<exists>n'. notifier_dec cnt n = Inr n' \<and> n_count n' = count_after cnt (n_count n) \<and>
    n_notified n' = (n_notified n \<or> n_count n' = 0) \<and> 0 \<le> n_count n' \<and>
    n_wakeups n' = n_wakeups n + (if n_count n' = 0 then 1 else 0)"
proof -
  let ?k = "count_after cnt (n_count n)"
  have "(if cnt > 0 \<and> n_count n \<ge> cnt then i32 (n_count n - cnt)
      else if cnt < 0 then i32 (n_count n - cnt) else Inr (n_count n)) = Inr ?k"
    using assms by (cases "cnt > n_count n") (simp_all add: count_after_def)
  moreover have "0 \<le> ?k" using assms(1) by (simp add: count_after_def)
  ultimately show ?thesis by (simp add: notifier_dec_def Let_def)
qed

lemma op_result:
  assumes "0 \<le> n_count n" and "in_i32 (count_after (delta op) (n_count n))"
    and "\<And>c. op = Inc c \<Longrightarrow> in_i32 (- c)"
  shows "\<exists>n'. apply_op op n = Inr n' \<and> n_count n' = count_after (delta op) (n_count n) \<and>
    n_notified n' = (n_notified n \<or> n_count n' = 0) \<and> 0 \<le> n_count n'"
  using assms dec_result [of n "delta op"]
  by (cases op) (auto simp: notifier_inc_def notifier_notify_def)

fun counts :: "notifier_op list \<Rightarrow> int \<Rightarrow> int list" where
  "counts [] k = []"
| "counts (op # ops) k = count_after (delta op) k # counts ops (count_after (delta op) k)"

definition fits :: "notifier_op list \<Rightarrow> int \<Rightarrow> bool" where
  "fits ops k \<longleftrightarrow> (\<forall>x \<in> set (counts ops k). in_i32 x) \<and> (\<forall>c. Inc c \<in> set ops \<longrightarrow> in_i32 (- c))"

lemma fits_Cons:
  "fits (op # ops) k \<longleftrightarrow> in_i32 (count_after (delta op) k) \<and>
     (\<forall>c. op = Inc c \<longrightarrow> in_i32 (- c)) \<and> fits ops (count_after (delta op) k)"
  by (auto simp: fits_def)

lemma ops_result:
  assumes "0 \<le> n_count n" and "fits ops (n_count n)"
  shows "\<exists>n'. fold_outcome apply_op ops n = Inr n' \<and> 0 \<le> n_count n' \<and>
    n_count n' = last (n_count n # counts ops (n_count n)) \<and>
    (n_notified n' \<longleftrightarrow> n_notified n \<or> 0 \<in> set (counts ops (n_count n)))"
  using assms
proof (induction ops arbitrary: n)
  case (Cons op ops)
  then have "in_i32 (count_after (delta op) (n_count n))" "\<And>c. op = Inc c \<Longrightarrow> in_i32 (- c)"
    by (simp_all add: fits_Cons)
  from op_result [OF Cons.prems(1) this] obtain n1 where 1: "apply_op op n = Inr n1"
    "n_count n1 = count_after (delta op) (n_count n)"
    "n_notified n1 = (n_notified n \<or> n_count n1 = 0)" "0 \<le> n_count n1" by blast
  have "fits ops (n_count n1)" using Cons.prems(2) by (simp add: fits_Cons 1(2))
  from Cons.IH [OF 1(4) this] 1 show ?case by auto
qed simp

text \<open>
  A history of a notifier: no sequence of \<open>Dec\<close>, \<open>Inc\<close> and \<open>Notify\<close> that stays
  within \<open>int\<close> trips the check of the count, the count follows the arithmetic with oversized
  decrements dropped, and the object is notified exactly when the count has been zero after
  some operation: it stays notified whatever is added later.
\<close>

theorem notifier_history:
  assumes "0 \<le> initial" and "fits ops initial"
  shows "\<exists>n. fold_outcome apply_op ops (notifier_new initial) = Inr n \<and> 0 \<le> n_count n \<and>
    n_count n = last (initial # counts ops initial) \<and>
    (n_notified n \<longleftrightarrow> 0 \<in> set (counts ops initial))"
  using ops_result [of "notifier_new initial" ops] assms by (simp add: notifier_new_def)

theorem notifier_history_witness:
  "\<exists>n. fold_outcome apply_op [Inc 1, Notify, Dec 5, Notify, Inc 2] (notifier_new 1) = Inr n \<and>
     n_count n = 2 \<and> n_notified n"
proof -
  have "fits [Inc 1, Notify, Dec 5, Notify, Inc 2] 1"
    by (auto simp: fits_def count_after_def int_range_defs)
  from notifier_history [OF _ this] show ?thesis by (auto simp: count_after_def)
qed

text \<open>
  \<open>Wait\<close> does not check again after the condition variable returns: it answers true on
  any wake-up, also when nothing has been notified, and false only when it has not been
  notified before.
\<close>

lemma wait_trusts_the_wakeup:
  "notifier_wait woken n = (n_notified n \<or> woken)"
  by (simp add: notifier_wait_def)

section \<open>RpcController\<close>

record rpc_controller =
  mstrFailed :: string
  mNotifier :: notifier

definition controller_new :: rpc_controller where
  "controller_new = \<lparr>mstrFailed = [], mNotifier = notifier_new 1\<rparr>"

definition controller_reset :: "rpc_controller \<Rightarrow> rpc_controller" where
  "controller_reset k = k\<lparr>mstrFailed := [], mNotifier := notifier_new 1\<rparr>"

definition set_failed :: "string \<Rightarrow> rpc_controller \<Rightarrow> rpc_controller" where
  "set_failed failed k = k\<lparr>mstrFailed := failed\<rparr>"

definition controller_failed :: "rpc_controller \<Rightarrow> bool" where
  "controller_failed k \<longleftrightarrow> mstrFailed k \<noteq> []"

definition error_text :: "rpc_controller \<Rightarrow> string" where
  "error_text k = mstrFailed k"

definition is_canceled :: "rpc_controller \<Rightarrow> bool" where
  "is_canceled k = False"

definition controller_notify :: "rpc_controller \<Rightarrow> rpc_controller outcome" where
  "controller_notify k = bind_outcome (notifier_notify (mNotifier k)) (\<lambda>n. Inr (k\<lparr>mNotifier := n\<rparr>))"

definition controller_wait :: "bool \<Rightarrow> rpc_controller \<Rightarrow> bool" where
  "controller_wait woken k = notifier_wait woken (mNotifier k)"

text \<open>
  A controller releases its waiter at the first \<open>Notify\<close>, with the error text set before
  it, and only \<open>Reset\<close> arms it again; further notifications change nothing.
\<close>

theorem controller_released_once:
  "\<exists>k. controller_notify (set_failed msg controller_new) = Inr k \<and>
     controller_wait False k \<and> error_text k = msg \<and>
     (\<exists>k'. controller_notify k = Inr k' \<and> controller_wait False k' \<and> n_count (mNotifier k') = 0) \<and>
     \<not> controller_wait False (controller_reset k) \<and> \<not> controller_failed (controller_reset k)"
  by (simp add: controller_notify_def notifier_notify_def notifier_dec_def controller_new_def
      notifier_new_def set_failed_def controller_wait_def notifier_wait_def error_text_def
      controller_reset_def controller_failed_def Let_def int_range_defs)

end
