(* ===== verification/Rpc.thy ===== *)
theory Rpc
  imports Raw_Connection Frame_Codec Lookup8 Notifier "HOL-Library.AList"
begin

text \<open>
  Remote calls: \<open>RawProtobufConnection\<close> (the table of pending responses, the numbering of
  calls, the dispatch of a decoded message), \<open>ProtobufConnection\<close> (the table of service
  methods, \<open>CallMethod\<close>, \<open>Attach\<close>, \<open>Span\<close>) and the closures of \<open>network/Closure.hpp\<close>, all
  under \<open>src/core/network/\<close>. The state is a connection of \<open>Raw_Connection\<close> whose raw part
  carries the members of \<open>RawProtobufConnection\<close>.
\<close>

section \<open>State\<close>

text \<open>
  A pending call: the \<open>RpcController\<close> if the caller passed one, the response message and
  the closure \<open>done\<close> if there is one, each named by a number.
\<close>

record rpc_call =
  k_ctrl :: "nat option"
  k_resp :: nat
  k_done :: "nat option"

text \<open>What the calls do to the objects of the caller, in order.\<close>

datatype rpc_event =
    SetFailed nat string
  | NotifyCtrl nat
  | ParseResponse nat string
  | RunDone nat

text \<open>
  The world of a connection: the events, the address of the next \<open>new string\<close>, the strings
  deleted so far, the static counter \<open>seq\<close> of \<open>CallMethod\<close>, and the state of the services.
\<close>

record 'w rpc_world =
  w_log :: "rpc_event list"
  w_next :: nat
  w_freed :: "nat list"
  w_seq :: int
  w_app :: 'w

text \<open>
  The members of \<open>RawProtobufConnection\<close>: \<open>mResponseHandlerTable\<close>, the decoder, and the
  method table of the connection \<open>mServiceConnection\<close> points to, which is filled before any
  connection is made and only read afterwards. A method is named by its full name.
\<close>

type_synonym method_table = "(u64 \<times> string) list option"

record proto =
  p_table :: "(u64 \<times> rpc_call) list"
  p_decoder :: decoder
  p_service :: method_table

type_synonym ('b, 'w) pconn = "('b, proto, 'w rpc_world) conn"

text \<open>
  The code outside: buffers and codec, the parsers of the messages of the application, the
  services and the listeners, which act on the state of the application. \<open>x_service\<close> is \<open>Service::CallMethod\<close>, which may
  fault; it answers \<open>None\<close> when the service keeps
  \<open>done\<close>, and otherwise what \<open>AppendToString\<close> makes of the response when \<open>done\<close> runs.
\<close>

record ('b, 'w) rpc_env =
  x_buf :: "'b buffer_api"
  x_codec :: codec
  x_parse_request :: "string \<Rightarrow> string \<Rightarrow> bool"
  x_service :: "string \<Rightarrow> string \<Rightarrow> 'w \<Rightarrow> (string option option \<times> 'w) outcome"
  x_parse_response :: "nat \<Rightarrow> string \<Rightarrow> bool"
  x_alive :: "nat \<Rightarrow> 'w \<Rightarrow> bool"
  x_closed :: "nat \<Rightarrow> 'w \<Rightarrow> 'w"

definition log_events :: "rpc_event list \<Rightarrow> 'w rpc_world \<Rightarrow> 'w rpc_world" where
  "log_events es w = w\<lparr>w_log := w_log w @ es\<rparr>"

definition on_world :: "('w \<Rightarrow> 'w) \<Rightarrow> ('b, 'z, 'w) conn \<Rightarrow> ('b, 'z, 'w) conn" where
  "on_world f c = c\<lparr>c_world := f (c_world c)\<rparr>"

definition on_proto :: "(proto \<Rightarrow> proto) \<Rightarrow> ('b, proto) raw_scheme \<Rightarrow> ('b, proto) raw_scheme" where
  "on_proto f r = r\<lparr>raw.more := f (raw.more r)\<rparr>"

section \<open>Closures\<close>

text \<open>
  \<open>ScopedClosure\<close> runs its closure, if it has one, when the scope is left; a controller that
  is not an \<open>RpcController\<close> of the repository is not told anything.
\<close>

definition run_closure :: "nat option \<Rightarrow> rpc_event list" where
  "run_closure d = (case d of Some n \<Rightarrow> [RunDone n] | None \<Rightarrow> [])"

definition fail_controller :: "nat option \<Rightarrow> string \<Rightarrow> rpc_event list" where
  "fail_controller k reason = (case k of Some n \<Rightarrow> [SetFailed n reason, NotifyCtrl n] | None \<Rightarrow> [])"

definition notify_controller :: "nat option \<Rightarrow> rpc_event list" where
  "notify_controller k = (case k of Some n \<Rightarrow> [NotifyCtrl n] | None \<Rightarrow> [])"

text \<open>\<open>CallMethodCallback\<close>; the decoder is null when the connection is destroyed.\<close>

definition call_method_callback ::
  "('b, 'w) rpc_env \<Rightarrow> rpc_call \<Rightarrow> meta option \<Rightarrow> rpc_event list" where
  "call_method_callback X call decoder =
     (case decoder of
        None \<Rightarrow> fail_controller (k_ctrl call) ''Abort''
      | Some m \<Rightarrow>
          ParseResponse (k_resp call) (m_content m) #
          (if \<not> x_parse_response X (k_resp call) (m_content m) \<and> k_ctrl call \<noteq> None
           then fail_controller (k_ctrl call) ''Fail to parse the response:''
           else notify_controller (k_ctrl call)))
     @ run_closure (k_done call)"

definition release_response_table ::
  "('b, 'w) rpc_env \<Rightarrow> ('b, proto) raw_scheme \<Rightarrow> 'w rpc_world \<Rightarrow> 'w rpc_world" where
  "release_response_table X r w =
     log_events (concat (map (\<lambda>(i, call). call_method_callback X call None) (p_table (raw.more r)))) w"

section \<open>Strings on the heap\<close>

definition encode_new :: "('b, 'w) rpc_env \<Rightarrow> meta \<Rightarrow> ('b, 'w) pconn \<Rightarrow> encode_data \<times> ('b, 'w) pconn" where
  "encode_new X m c =
     (encode_message (x_codec X) (w_next (c_world c)) m,
      on_world (\<lambda>w. w\<lparr>w_next := w_next w + 2\<rparr>) c)"

definition delete_string :: "cstr option \<Rightarrow> ('b, 'w) pconn \<Rightarrow> ('b, 'w) pconn outcome" where
  "delete_string s c =
     (case s of
        None \<Rightarrow> Inr c
      | Some t \<Rightarrow> bind_outcome (free_addr (cs_addr t) (w_freed (c_world c)))
                   (\<lambda>f. Inr (on_world (\<lambda>w. w\<lparr>w_freed := f\<rparr>) c)))"

definition delete_data :: "encode_data \<Rightarrow> ('b, 'w) pconn \<Rightarrow> ('b, 'w) pconn outcome" where
  "delete_data d c = bind_outcome (delete_string (fst d) c) (delete_string (snd d))"

section \<open>Serving a request\<close>

text \<open>
  \<open>CallServiceMethodDone\<close>, with the message its decoder holds when it runs. An absent
  \<open>response_identify\<close> reads as zero.
\<close>

definition call_service_method_done ::
  "('b, 'w) rpc_env \<Rightarrow> meta \<Rightarrow> string option \<Rightarrow> ('b, 'w) pconn \<Rightarrow> ('b, 'w) pconn outcome" where
  "call_service_method_done X request_meta response c =
     (case response of
        None \<Rightarrow> Inl CheckFailed
      | Some content \<Rightarrow>
          let response_meta = \<lparr>m_type = RESPONSE,
                m_identify = (case m_response_identify request_meta of Some i \<Rightarrow> i | None \<Rightarrow> 0),
                m_response_identify = None, m_content = content\<rparr>;
              (data, c) = encode_new X response_meta c
          in bind_outcome (conn_push_data (x_buf X) data c) (\<lambda>(pushed, c).
             bind_outcome (if \<not> pushed then delete_data data c else Inr c) (\<lambda>c.
             bind_outcome (conn_schedule_write c) (\<lambda>(scheduled, c).
             if \<not> scheduled then delete_data data c else Inr c))))"

definition handle_service ::
  "('b, 'w) rpc_env \<Rightarrow> string \<Rightarrow> meta \<Rightarrow> ('b, 'w) pconn \<Rightarrow> ('b, 'w) pconn outcome" where
  "handle_service X meth m c =
     (if \<not> x_parse_request X meth (m_content m) then Inr c
      else
        bind_outcome (x_service X meth (m_content m) (w_app (c_world c))) (\<lambda>(answer, app).
        let c = on_world (\<lambda>w. w\<lparr>w_app := app\<rparr>) c
        in case answer of
             None \<Rightarrow> Inr c
           | Some response \<Rightarrow> call_service_method_done X m response c))"

text \<open>\<open>RegisterService\<close>, for the methods of a service in the order of its descriptor.\<close>

fun register_methods :: "string list \<Rightarrow> (u64 \<times> string) list \<Rightarrow> (u64 \<times> string) list outcome" where
  "register_methods [] tab = Inr tab"
| "register_methods (meth # ms) tab =
     (let fp = hash8_string meth
      in bind_outcome (check CheckFailed (map_of tab fp = None)) (\<lambda>_.
         register_methods ms ((fp, meth) # tab)))"

definition register_service :: "string list \<Rightarrow> method_table \<Rightarrow> method_table outcome" where
  "register_service methods tab =
     bind_outcome (register_methods methods (case tab of None \<Rightarrow> [] | Some t \<Rightarrow> t)) (\<lambda>t. Inr (Some t))"

text \<open>\<open>ProtobufConnection::Handle\<close> of the service connection.\<close>

definition service_handle ::
  "('b, 'w) rpc_env \<Rightarrow> method_table \<Rightarrow> meta \<Rightarrow> ('b, 'w) pconn \<Rightarrow> (bool \<times> ('b, 'w) pconn) outcome" where
  "service_handle X tab m c =
     (case tab of
        None \<Rightarrow> Inr (False, c)
      | Some t \<Rightarrow>
          (case map_of t (m_identify m) of
             Some meth \<Rightarrow> bind_outcome (handle_service X meth m c) (\<lambda>c. Inr (True, c))
           | None \<Rightarrow> Inr (False, c)))"

section \<open>Dispatching a message\<close>

definition set_table :: "(u64 \<times> rpc_call) list \<Rightarrow> ('b, proto) raw_scheme \<Rightarrow> ('b, proto) raw_scheme" where
  "set_table t r = on_proto (\<lambda>p. p\<lparr>p_table := t\<rparr>) r"

text \<open>\<open>RawProtobufConnection::Handle\<close>: the entry leaves the table before its handler runs.\<close>

definition raw_handle :: "('b, 'w) rpc_env \<Rightarrow> meta \<Rightarrow> ('b, 'w) pconn \<Rightarrow> (bool \<times> ('b, 'w) pconn) outcome" where
  "raw_handle X m c =
     bind_outcome (raw_this c) (\<lambda>r.
     bind_outcome (service_handle X (p_service (raw.more r)) m c) (\<lambda>(ret, c).
     if ret then Inr (True, c)
     else
       bind_outcome (raw_this c) (\<lambda>r.
       case map_of (p_table (raw.more r)) (m_identify m) of
         None \<Rightarrow> Inr (False, c)
       | Some call \<Rightarrow>
           Inr (True, on_world (log_events (call_method_callback X call (Some m)))
             (c\<lparr>c_impl := Some (set_table (AList.delete (m_identify m) (p_table (raw.more r))) r)\<rparr>)))))"

text \<open>\<open>Decode\<close> of the connection: the decoder is a member of the raw connection.\<close>

definition proto_decode ::
  "('b, 'w) rpc_env \<Rightarrow> string \<Rightarrow> ('b, 'w) pconn \<Rightarrow> (bool \<times> ('b, 'w) pconn) outcome" where
  "proto_decode X bytes c =
     bind_outcome (raw_this c) (\<lambda>r.
     bind_outcome (raw_decode (x_codec X) (\<lambda>d. raw_handle X (d_meta d)) bytes (p_decoder (raw.more r), c))
       (\<lambda>(ok, d, c).
     bind_outcome (raw_this c) (\<lambda>r.
     Inr (ok, c\<lparr>c_impl := Some (on_proto (\<lambda>p. p\<lparr>p_decoder := d\<rparr>) r)\<rparr>))))"

definition rpc_conn_env :: "('b, 'w) rpc_env \<Rightarrow> ('b, proto, 'w rpc_world) conn_env" where
  "rpc_conn_env X =
     \<lparr>e_buf = x_buf X, e_decode = proto_decode X, e_dtor = release_response_table X,
      e_alive = (\<lambda>l w. x_alive X l (w_app w)),
      e_closed = (\<lambda>l w. w\<lparr>w_app := x_closed X l (w_app w)\<rparr>)\<rparr>"

section \<open>Calling\<close>

text \<open>
  The search for a free identifier: \<open>while\<close> the identifier is taken, \<open>++seq\<close> and add it.
  \<open>seq\<close> is an \<open>int\<close>, so the loop ends at the latest when it overflows.
\<close>

function probe :: "(u64 \<times> rpc_call) list \<Rightarrow> int \<Rightarrow> u64 \<Rightarrow> (int \<times> u64) outcome" where
  "probe tab sq i =
     (if map_of tab i = None then Inr (sq, i)
      else if in_i32 (sq + 1) then probe tab (sq + 1) (i + of_int (sq + 1))
      else Inl SignedOverflow)"
  by pat_completeness auto
termination
  by (relation "measure (\<lambda>(tab, sq, i). nat (INT_MAX - sq))") (auto simp: int_range_defs)

declare probe.simps [simp del]

definition fail_call ::
  "u64 \<Rightarrow> string \<Rightarrow> rpc_call \<Rightarrow> ('b, 'w) pconn \<Rightarrow> ('b, 'w) pconn outcome" where
  "fail_call i reason call c =
     bind_outcome (raw_this c) (\<lambda>r.
     Inr (on_world (log_events (fail_controller (k_ctrl call) reason @ run_closure (k_done call)))
       (c\<lparr>c_impl := Some (set_table (AList.delete i (p_table (raw.more r))) r)\<rparr>)))"

text \<open>
  \<open>RawProtobufConnection::CallMethod\<close>: the full names of the method and of the response
  type, what \<open>AppendToString\<close> makes of the request, and the caller's objects. The inherited
  \<open>PushData\<close> of the raw connection always answers true, so its error branch is dead.
\<close>

definition raw_call_method ::
  "('b, 'w) rpc_env \<Rightarrow> string \<Rightarrow> string \<Rightarrow> string option \<Rightarrow> rpc_call \<Rightarrow> ('b, 'w) pconn
     \<Rightarrow> ('b, 'w) pconn outcome" where
  "raw_call_method X meth response_type request call c =
     bind_outcome (raw_this c) (\<lambda>r.
     bind_outcome (probe (p_table (raw.more r)) (w_seq (c_world c)) (hash8_string response_type)) (\<lambda>(sq, i).
     let c = on_world (\<lambda>w. w\<lparr>w_seq := sq\<rparr>) (c\<lparr>c_impl := Some (set_table ((i, call) # p_table (raw.more r)) r)\<rparr>)
     in case request of
          None \<Rightarrow> fail_call i ''AppendTostringError'' call c
        | Some content \<Rightarrow>
            let (data, c) = encode_new X \<lparr>m_type = REQUEST, m_identify = hash8_string meth,
                  m_response_identify = Some i, m_content = content\<rparr> c
            in bind_outcome (raw_this c) (\<lambda>r.
               bind_outcome (raw_push_data (x_buf X) data r) (\<lambda>r.
               bind_outcome (raw_schedule_write (c\<lparr>c_impl := Some r\<rparr>)) (\<lambda>(ok, c).
               if \<not> ok then
                 bind_outcome (delete_data data c) (fail_call i ''ScheduleWriteError'' call)
               else Inr c)))))"

text \<open>\<open>ProtobufConnection::CallMethod\<close>, under the shared lock.\<close>

definition conn_call_method ::
  "('b, 'w) rpc_env \<Rightarrow> string \<Rightarrow> string \<Rightarrow> string option \<Rightarrow> rpc_call \<Rightarrow> ('b, 'w) pconn
     \<Rightarrow> ('b, 'w) pconn outcome" where
  "conn_call_method X meth response_type request call c =
     (let c = on_status lock_shared c in
      bind_outcome
        (if conn_closing c \<or> c_impl c = None then
           Inr (on_world (log_events (fail_controller (k_ctrl call) ''Impl Connection is disconnected''
             @ run_closure (k_done call))) c)
         else raw_call_method X meth response_type request call c)
        conn_unlock)"

section \<open>Attach and Span\<close>

text \<open>
  \<open>static_i\<close> is the static counter that numbers the raw connections, \<open>m0\<close> the default
  message of the new decoder, and \<open>s0\<close>, \<open>r0\<close> the package counters the memory held.
\<close>

definition attach ::
  "('b, 'w) rpc_env \<Rightarrow> method_table \<Rightarrow> nat \<Rightarrow> meta \<Rightarrow> int \<Rightarrow> int \<Rightarrow> ('b, 'w) pconn
     \<Rightarrow> (bool \<times> ('b, 'w) pconn) outcome" where
  "attach X service static_i m0 s0 r0 c =
     (let span_name = conn_full_name c @ lex_str (x_codec X) static_i;
          c = impl_reset (rpc_conn_env X) c;
          c = c\<lparr>c_impl := Some (raw_new span_name s0 r0
                  \<lparr>p_table = [], p_decoder = dec_new m0, p_service = service\<rparr>)\<rparr>
      in bind_outcome (init_socket c) (\<lambda>c. Inr (True, c)))"

definition span ::
  "('b, 'w) rpc_env \<Rightarrow> string \<Rightarrow> method_table \<Rightarrow> int \<Rightarrow> nat \<Rightarrow> meta \<Rightarrow> int \<Rightarrow> int \<Rightarrow> 'w rpc_world
     \<Rightarrow> ('b, 'w) pconn option outcome" where
  "span X template_name service globalConnectionId static_i m0 s0 r0 w =
     bind_outcome
       (attach X service static_i m0 s0 r0 (conn_new (template_name @ ''.span'') globalConnectionId w))
       (\<lambda>(ok, c). Inr (if ok then Some c else None))"

section \<open>What a message does to a working connection\<close>

definition proto_ok :: "proto \<Rightarrow> bool" where
  "proto_ok p \<longleftrightarrow> dec_inv (p_decoder p) \<and> distinct (map fst (p_table p))"

text \<open>The closures that wait in the table, and those that have run.\<close>

definition waiting_in :: "(u64 \<times> rpc_call) list \<Rightarrow> nat multiset" where
  "waiting_in t = mset (concat (map (\<lambda>(i, call). case k_done call of Some d \<Rightarrow> [d] | None \<Rightarrow> []) t))"

definition waiting :: "('b, 'w) pconn \<Rightarrow> nat multiset" where
  "waiting c = (case c_impl c of None \<Rightarrow> {#} | Some r \<Rightarrow> waiting_in (p_table (raw.more r)))"

definition ran_in :: "rpc_event list \<Rightarrow> nat multiset" where
  "ran_in es = mset (concat (map (\<lambda>e. case e of RunDone d \<Rightarrow> [d] | _ \<Rightarrow> []) es))"

definition ran :: "('b, 'w) pconn \<Rightarrow> nat multiset" where
  "ran c = ran_in (w_log (c_world c))"

definition done_of :: "rpc_call \<Rightarrow> nat multiset" where
  "done_of call = (case k_done call of Some d \<Rightarrow> {#d#} | None \<Rightarrow> {#})"

lemma ran_in_simps [simp]:
  "ran_in [] = {#}" "ran_in (es @ fs) = ran_in es + ran_in fs"
  "ran_in (RunDone d # es) = add_mset d (ran_in es)" "ran_in (SetFailed n s # es) = ran_in es"
  "ran_in (NotifyCtrl n # es) = ran_in es" "ran_in (ParseResponse n s # es) = ran_in es"
  by (simp_all add: ran_in_def)

lemma ran_in_closures [simp]:
  "ran_in (run_closure (k_done call)) = done_of call" "ran_in (fail_controller k reason) = {#}"
  "ran_in (notify_controller k) = {#}"
  by (simp_all add: run_closure_def fail_controller_def notify_controller_def done_of_def
      split: option.splits)

lemma ran_in_callback [simp]: "ran_in (call_method_callback X call m) = done_of call"
  by (simp add: call_method_callback_def split: option.splits)

lemma waiting_in_simps [simp]:
  "waiting_in [] = {#}" "waiting_in ((i, call) # t) = done_of call + waiting_in t"
  by (simp_all add: waiting_in_def done_of_def split: option.splits)

lemma delete_absent: "i \<notin> set (map fst t) \<Longrightarrow> AList.delete i t = t"
  by (induction t) auto

lemma waiting_in_delete:
  assumes "distinct (map fst t)" and "map_of t i = Some call"
  shows "waiting_in t = done_of call + waiting_in (AList.delete i t)"
  using assms
proof (induction t)
  case (Cons x t)
  obtain j k where x: "x = (j, k)" by (cases x)
  show ?case
  proof (cases "j = i")
    case True
    with Cons.prems x have "AList.delete i t = t" by (auto intro: delete_absent)
    with True Cons.prems x show ?thesis by simp
  next
    case False
    with Cons x show ?thesis by (simp add: ac_simps)
  qed
qed simp

lemma on_world_simps [simp]:
  "c_status (on_world f c) = c_status c" "c_impl (on_world f c) = c_impl c"
  "c_listeners (on_world f c) = c_listeners c" "c_world (on_world f c) = f (c_world c)"
  "unsent A (on_world f c) = unsent A c" "waiting (on_world f c) = waiting c"
  by (simp_all add: on_world_def unsent_def waiting_def)

lemma conn_ok_on_world [simp]: "conn_ok A M k a b (on_world f c) = conn_ok A M k a b c"
  by (simp add: conn_ok_def on_world_def writes_ok_def)

lemma on_proto_simps [simp]:
  "raw.more (on_proto f r) = f (raw.more r)" "outcoming (on_proto f r) = outcoming r"
  "incoming (on_proto f r) = incoming r" "raw_unsent A (on_proto f r) = raw_unsent A r"
  by (simp_all add: on_proto_def outcoming_def incoming_def raw_unsent_def)

lemma set_table_simps [simp]:
  "p_table (raw.more (set_table t r)) = t" "p_decoder (raw.more (set_table t r)) = p_decoder (raw.more r)"
  "p_service (raw.more (set_table t r)) = p_service (raw.more r)"
  "raw_unsent A (set_table t r) = raw_unsent A r"
  by (simp_all add: set_table_def)

lemma conn_ok_on_proto:
  assumes "conn_ok A M k a b c" and "c_impl c = Some r" and "M (f (raw.more r))"
  shows "conn_ok A M k a b (c\<lparr>c_impl := Some (on_proto f r)\<rparr>)"
proof -
  have "raw_ok A M (on_proto f r)"
    using assms by (auto simp: conn_ok_def raw_ok_def on_proto_def)
  with assms(1,2) show ?thesis by (auto simp: conn_ok_def writes_ok_def)
qed

lemma encode_data_ok [simp]: "data_ok (encode_message C a m)"
  by (simp add: data_ok_def encode_message_def split: option.splits)

lemma data_text_encode [simp]: "data_text (encode_message C a m) = frame_of C m"
  by (simp add: data_text_def frame_of_def encode_message_def split: option.splits)

lemma waiting_more:
  "map_option raw.more (c_impl c') = map_option raw.more (c_impl c) \<Longrightarrow> waiting c' = waiting c"
  by (cases "c_impl c"; cases "c_impl c'") (auto simp: waiting_def)

definition response_to :: "meta \<Rightarrow> string \<Rightarrow> meta" where
  "response_to m content = \<lparr>m_type = RESPONSE,
     m_identify = (case m_response_identify m of Some i \<Rightarrow> i | None \<Rightarrow> 0),
     m_response_identify = None, m_content = content\<rparr>"

lemma call_service_method_done_ok:
  assumes "conn_ok A M k a b c" and "A = x_buf X"
  shows "\<exists>c'. call_service_method_done X m (Some content) c = Inr c' \<and> conn_ok A M k a b c' \<and>
    c_listeners c' = c_listeners c \<and> w_log (c_world c') = w_log (c_world c) \<and>
    w_app (c_world c') = w_app (c_world c) \<and> w_seq (c_world c') = w_seq (c_world c) \<and>
    map_option raw.more (c_impl c') = map_option raw.more (c_impl c) \<and>
    unsent A c' = unsent A c @ frame_of (x_codec X) (response_to m content)"
proof -
  obtain data c1 where e: "encode_new X (response_to m content) c = (data, c1)"
    by (cases "encode_new X (response_to m content) c")
  have data: "data_ok data" "data_text data = frame_of (x_codec X) (response_to m content)"
    and c1: "c1 = on_world (\<lambda>w. w\<lparr>w_next := w_next w + 2\<rparr>) c"
    using e by (auto simp: encode_new_def)
  have ok1: "conn_ok A M k a b c1" using assms(1) c1 by simp
  from conn_push_data_ok [OF ok1 data(1)] obtain c2 where
    2: "conn_push_data A data c1 = Inr (True, c2)" "conn_ok A M k a b c2"
    "c_listeners c2 = c_listeners c1" "c_world c2 = c_world c1"
    "map_option raw.more (c_impl c2) = map_option raw.more (c_impl c1)"
    "unsent A c2 = unsent A c1 @ data_text data" by blast
  from conn_schedule_write_ok [OF 2(2)] obtain c3 where
    3: "conn_schedule_write c2 = Inr (True, c3)" "conn_ok A M k a b c3"
    "c_listeners c3 = c_listeners c2" "c_world c3 = c_world c2"
    "map_option raw.more (c_impl c3) = map_option raw.more (c_impl c2)"
    "unsent A c3 = unsent A c2" by blast
  have "call_service_method_done X m (Some content) c = Inr c3"
    using 2(1) 3(1) e assms(2)
    by (simp add: call_service_method_done_def response_to_def Let_def)
  with 2 3 c1 data(2) show ?thesis by simp
qed

text \<open>What a request can fault with: a response that does not serialise, or the service itself.\<close>

definition service_fault :: "('b, 'w) rpc_env \<Rightarrow> fault \<Rightarrow> bool" where
  "service_fault X e \<longleftrightarrow> (\<exists>meth content w. x_service X meth content w = Inl e)"

definition answer_unserialised :: "('b, 'w) rpc_env \<Rightarrow> bool" where
  "answer_unserialised X \<longleftrightarrow> (\<exists>meth content w app. x_service X meth content w = Inr (Some None, app))"

definition request_fault :: "('b, 'w) rpc_env \<Rightarrow> fault \<Rightarrow> bool" where
  "request_fault X e \<longleftrightarrow> e = CheckFailed \<and> answer_unserialised X \<or> service_fault X e"

text \<open>
  A handler of one message, on a connection that has \<open>c_impl = Some r\<close>: the events and the
  table it leaves, and the bytes it queues.
\<close>

lemma handle_service_ok:
  assumes "conn_ok A M k a b c" and "A = x_buf X"
  shows "case handle_service X meth m c of
      Inl e \<Rightarrow> request_fault X e
    | Inr c' \<Rightarrow> conn_ok A M k a b c' \<and> c_listeners c' = c_listeners c \<and>
        w_log (c_world c') = w_log (c_world c) \<and>
        map_option raw.more (c_impl c') = map_option raw.more (c_impl c) \<and>
        (\<exists>q. unsent A c' = unsent A c @ q)"
proof (cases "x_parse_request X meth (m_content m)")
  case True
  show ?thesis
  proof (cases "x_service X meth (m_content m) (w_app (c_world c))")
    case (Inl e)
    then have "request_fault X e" unfolding request_fault_def service_fault_def by blast
    with True Inl show ?thesis by (simp add: handle_service_def)
  next
    case (Inr t)
    obtain answer app where x: "x_service X meth (m_content m) (w_app (c_world c)) = Inr (answer, app)"
      using Inr by (cases t) simp
    let ?c = "on_world (\<lambda>w. w\<lparr>w_app := app\<rparr>) c"
    have ok: "conn_ok A M k a b ?c" using assms(1) by simp
    show ?thesis
    proof (cases answer)
      case None
      with True x assms(1) show ?thesis by (simp add: handle_service_def)
    next
      case (Some response)
      show ?thesis
      proof (cases response)
        case None
        moreover have "answer_unserialised X"
          using x Some None unfolding answer_unserialised_def by blast
        ultimately show ?thesis using True x Some
          by (simp add: handle_service_def call_service_method_done_def request_fault_def)
      next
        case (Some content)
        from call_service_method_done_ok [OF ok assms(2), of m content] True x Some \<open>answer = Some response\<close>
        show ?thesis by (auto simp: handle_service_def)
      qed
    qed
  qed
qed (use assms in \<open>simp add: handle_service_def\<close>)

lemma service_handle_ok:
  assumes "conn_ok A M k a b c" and "A = x_buf X"
  shows "case service_handle X tab m c of
      Inl e \<Rightarrow> request_fault X e
    | Inr (ret, c') \<Rightarrow> conn_ok A M k a b c' \<and> c_listeners c' = c_listeners c \<and>
        w_log (c_world c') = w_log (c_world c) \<and>
        map_option raw.more (c_impl c') = map_option raw.more (c_impl c) \<and>
        (\<exists>q. unsent A c' = unsent A c @ q)"
proof -
  have "(\<exists>meth. service_handle X tab m c = bind_outcome (handle_service X meth m c) (\<lambda>c. Inr (True, c))) \<or>
      service_handle X tab m c = Inr (False, c)"
    by (auto simp: service_handle_def split: option.splits)
  then show ?thesis
  proof
    assume "\<exists>meth. service_handle X tab m c = bind_outcome (handle_service X meth m c) (\<lambda>c. Inr (True, c))"
    then obtain meth where "service_handle X tab m c =
        bind_outcome (handle_service X meth m c) (\<lambda>c. Inr (True, c))" by blast
    with handle_service_ok [OF assms, of meth m] show ?thesis
      by (cases "handle_service X meth m c") auto
  qed (use assms(1) in simp)
qed

lemma raw_this_conn_ok: "conn_ok A M k a b c \<Longrightarrow> \<exists>r. raw_this c = Inr r \<and> c_impl c = Some r \<and> raw_ok A M r"
  by (auto simp: conn_ok_def raw_this_def)

lemma raw_handle_ok:
  assumes "conn_ok A proto_ok k a b c" and "A = x_buf X"
  shows "case raw_handle X m c of
      Inl e \<Rightarrow> request_fault X e
    | Inr (ok, c') \<Rightarrow> conn_ok A proto_ok k a b c' \<and> c_listeners c' = c_listeners c \<and>
        ran c' + waiting c' = ran c + waiting c \<and> (\<exists>q. unsent A c' = unsent A c @ q)"
proof -
  obtain r where r: "raw_this c = Inr r" "c_impl c = Some r" "raw_ok A proto_ok r"
    using raw_this_conn_ok [OF assms(1)] by blast
  note sv = service_handle_ok [OF assms, of "p_service (raw.more r)" m]
  show ?thesis
  proof (cases "service_handle X (p_service (raw.more r)) m c")
    case (Inl e)
    with sv r show ?thesis by (simp add: raw_handle_def)
  next
    case (Inr t)
    obtain ret c1 where t: "t = (ret, c1)" by (cases t)
    with sv Inr have c1: "conn_ok A proto_ok k a b c1" "c_listeners c1 = c_listeners c"
      "w_log (c_world c1) = w_log (c_world c)"
      "map_option raw.more (c_impl c1) = map_option raw.more (c_impl c)"
      "\<exists>q. unsent A c1 = unsent A c @ q" by auto
    then have duty: "ran c1 = ran c" "waiting c1 = waiting c"
      using waiting_more [OF c1(4)] by (simp_all add: ran_def)
    obtain r1 where r1: "raw_this c1 = Inr r1" "c_impl c1 = Some r1" "raw_ok A proto_ok r1"
      using raw_this_conn_ok [OF c1(1)] by blast
    show ?thesis
    proof (cases "ret \<or> map_of (p_table (raw.more r1)) (m_identify m) = None")
      case True
      with Inr t r r1 c1 duty show ?thesis by (auto simp: raw_handle_def)
    next
      case False
      then obtain call where call: "map_of (p_table (raw.more r1)) (m_identify m) = Some call" by auto
      let ?t = "AList.delete (m_identify m) (p_table (raw.more r1))"
      let ?c = "c1\<lparr>c_impl := Some (set_table ?t r1)\<rparr>"
      have dist: "distinct (map fst (p_table (raw.more r1)))"
        using r1(3) by (simp add: raw_ok_def proto_ok_def)
      have "conn_ok A proto_ok k a b ?c"
        unfolding set_table_def
        by (rule conn_ok_on_proto [OF c1(1) r1(2)])
          (use r1(3) in \<open>simp add: raw_ok_def proto_ok_def distinct_delete\<close>)
      moreover have "waiting c1 = done_of call + waiting_in ?t"
        using r1(2) waiting_in_delete [OF dist call] by (simp add: waiting_def)
      moreover have "unsent A ?c = unsent A c1" using r1(2) by (simp add: unsent_def)
      ultimately show ?thesis
        using False Inr t r r1 c1 duty call
        by (simp add: raw_handle_def ran_def waiting_def log_events_def ac_simps)
    qed
  qed
qed

section \<open>The number of a call\<close>

text \<open>The identifiers the search visits, and that it never meets one twice.\<close>

primrec probed :: "int \<Rightarrow> u64 \<Rightarrow> nat \<Rightarrow> u64" where
  "probed sq i 0 = i"
| "probed sq i (Suc n) = probed sq i n + of_int (sq + int n + 1)"

lemma probe_steps:
  assumes "\<forall>j < n. map_of tab (probed sq i j) \<noteq> None" and "0 \<le> sq" and "sq + int n \<le> INT_MAX"
  shows "probe tab sq i = probe tab (sq + int n) (probed sq i n)"
  using assms
proof (induction n)
  case (Suc n)
  have "probe tab sq i = probe tab (sq + int n) (probed sq i n)"
    using Suc by simp
  also have "\<dots> = probe tab (sq + int n + 1) (probed sq i n + of_int (sq + int n + 1))"
    using Suc.prems by (subst probe.simps) (auto simp: int_range_defs)
  finally show ?case by (simp add: algebra_simps)
qed simp

lemma probed_diff:
  "2 * (probed sq i (m + d) - probed sq i m) = of_int (int d * (2 * sq + 2 * int m + int d + 1))"
proof (induction d)
  case (Suc d)
  have "2 * (probed sq i (m + Suc d) - probed sq i m) =
      2 * (probed sq i (m + d) - probed sq i m) + of_int (2 * (sq + int (m + d) + 1))"
    by (simp add: algebra_simps)
  also have "\<dots> = of_int (int d * (2 * sq + 2 * int m + int d + 1) + 2 * (sq + int (m + d) + 1))"
    by (simp only: Suc.IH of_int_add)
  also have "int d * (2 * sq + 2 * int m + int d + 1) + 2 * (sq + int (m + d) + 1) =
      int (Suc d) * (2 * sq + 2 * int m + int (Suc d) + 1)"
    by (simp add: algebra_simps)
  finally show ?case .
qed simp

lemma pow2_dvd_product:
  fixes a b :: int
  assumes "2 ^ k dvd a * b" and "odd (a + b)"
  shows "2 ^ k dvd a \<or> 2 ^ k dvd b"
proof (cases "odd a")
  case True
  then have "coprime (2 ^ k) a" by simp
  with assms(1) show ?thesis by (simp add: coprime_dvd_mult_right_iff)
next
  case False
  with assms(2) have "coprime (2 ^ k) b" by simp
  with assms(1) show ?thesis by (simp add: coprime_dvd_mult_left_iff)
qed

lemma probed_inj:
  assumes "0 \<le> sq" and "sq + int n \<le> INT_MAX"
  shows "inj_on (probed sq i) {0..n}"
proof (rule linorder_inj_onI)
  fix x y assume xy: "x < y" "x \<in> {0..n}" "y \<in> {0..n}"
  define d where "d = y - x"
  have y: "y = x + d" "0 < d" using xy(1) by (simp_all add: d_def)
  let ?a = "int d" and ?b = "2 * sq + 2 * int x + int d + 1"
  show "probed sq i x \<noteq> probed sq i y"
  proof
    assume "probed sq i x = probed sq i y"
    then have "of_int (?a * ?b) = (0 :: u64)"
      using probed_diff [of sq i x d] y(1) by simp
    then have "2 ^ LENGTH(64) dvd ?a * ?b"
      using word_of_int_eq_0_iff [where 'a = 64] by blast
    then have "2 ^ 64 dvd ?a * ?b" by simp
    then have "2 ^ 64 dvd ?a \<or> 2 ^ 64 dvd ?b" by (rule pow2_dvd_product) simp
    moreover have "0 < ?a" "?a < 2 ^ 64" "0 < ?b" "?b < 2 ^ 64"
      using assms xy y by (auto simp: INT_MAX_def)
    ultimately show False using zdvd_not_zless by blast
  qed
qed auto

lemma probe_finds:
  assumes "0 \<le> sq" and "sq + int (length tab) \<le> INT_MAX"
  shows "\<exists>sq' i'. probe tab sq i = Inr (sq', i') \<and> map_of tab i' = None \<and> sq \<le> sq' \<and>
    sq' \<le> sq + int (length tab)"
proof -
  have "\<exists>j \<le> length tab. map_of tab (probed sq i j) = None"
  proof (rule ccontr)
    assume "\<not> ?thesis"
    then have "probed sq i ` {0..length tab} \<subseteq> fst ` set tab"
      by (force simp: map_of_eq_None_iff)
    then have "card (probed sq i ` {0..length tab}) \<le> card (fst ` set tab)"
      by (intro card_mono) simp_all
    also have "\<dots> \<le> length tab"
      by (metis card_length length_map list.set_map)
    finally show False using card_image [OF probed_inj [OF assms]] by simp
  qed
  then obtain j where j: "map_of tab (probed sq i j) = None" "j \<le> length tab" by blast
  define n where "n = (LEAST j. map_of tab (probed sq i j) = None)"
  have free: "map_of tab (probed sq i n) = None" and le: "n \<le> j"
    unfolding n_def using j(1) by (rule LeastI, rule Least_le)
  have "\<forall>k < n. map_of tab (probed sq i k) \<noteq> None"
    unfolding n_def by (auto dest: not_less_Least)
  then have "probe tab sq i = probe tab (sq + int n) (probed sq i n)"
    using assms le j(2) by (intro probe_steps) simp_all
  also have "\<dots> = Inr (sq + int n, probed sq i n)"
    by (subst probe.simps) (simp add: free)
  finally show ?thesis using free assms(1) le j(2) by simp
qed

text \<open>
  Every call gets an identifier of its own: with room in \<open>seq\<close> for as many steps as there
  are pending calls, the search returns, within that many steps, an identifier that no
  pending call uses; the triangular numbers it adds never bring it back to one it has left.
\<close>

theorem call_identifier_fresh:
  assumes "0 \<le> sq" and "sq + int (length tab) \<le> INT_MAX"
  shows "\<exists>sq' i'. probe tab sq i = Inr (sq', i') \<and> i' \<notin> fst ` set tab \<and>
    sq \<le> sq' \<and> sq' \<le> sq + int (length tab)"
  using probe_finds [OF assms, of i] by (auto simp: map_of_eq_None_iff)

section \<open>Steps of an RPC connection\<close>

definition rpc_fault :: "('b, 'w) rpc_env \<Rightarrow> fault \<Rightarrow> bool" where
  "rpc_fault X e \<longleftrightarrow> length_fault e \<or> request_fault X e"

text \<open>The closures the callers handed over that have run or wait in the table.\<close>

definition duty :: "('b, 'w) pconn \<Rightarrow> nat multiset" where
  "duty c = ran c + waiting c"

lemma proto_decode_ok:
  assumes "conn_ok A proto_ok k a b c" and "A = x_buf X" and "codec_ok (x_codec X)"
  shows "case proto_decode X bytes c of
      Inl e \<Rightarrow> rpc_fault X e
    | Inr (ok, c') \<Rightarrow> conn_ok A proto_ok k a b c' \<and> c_listeners c' = c_listeners c \<and>
        duty c' = duty c \<and> (\<exists>q. unsent A c' = unsent A c @ q)"
proof -
  obtain r where r: "raw_this c = Inr r" "c_impl c = Some r" "raw_ok A proto_ok r"
    using raw_this_conn_ok [OF assms(1)] by blast
  let ?I = "\<lambda>s. conn_ok A proto_ok k a b s \<and> c_listeners s = c_listeners c \<and> duty s = duty c \<and>
      (\<exists>q. unsent A s = unsent A c @ q)"
  have keep: "case raw_handle X (d_meta d) s of Inl e \<Rightarrow> request_fault X e | Inr (ok, s') \<Rightarrow> ?I s'"
    if "?I s" for d s
    using raw_handle_ok [of A k a b s X "d_meta d"] that assms(2)
    by (auto simp: duty_def split: sum.splits)
  have "case raw_decode (x_codec X) (\<lambda>d. raw_handle X (d_meta d)) bytes (p_decoder (raw.more r), c) of
      Inl e \<Rightarrow> length_fault e \<or> request_fault X e | Inr (ok, d', s') \<Rightarrow> dec_inv d' \<and> ?I s'"
    using r(3) assms(1) keep
    by (intro raw_decode_keeps [OF assms(3)]) (auto simp: raw_ok_def proto_ok_def)
  then show ?thesis
  proof (cases "raw_decode (x_codec X) (\<lambda>d. raw_handle X (d_meta d)) bytes (p_decoder (raw.more r), c)")
    case (Inr t)
    obtain ok d' s' where t: "t = (ok, d', s')" by (cases t)
    assume "case raw_decode (x_codec X) (\<lambda>d. raw_handle X (d_meta d)) bytes (p_decoder (raw.more r), c) of
      Inl e \<Rightarrow> length_fault e \<or> request_fault X e | Inr (ok, d', s') \<Rightarrow> dec_inv d' \<and> ?I s'"
    with Inr t have d': "dec_inv d'" and I: "?I s'" by simp_all
    obtain r' where r': "raw_this s' = Inr r'" "c_impl s' = Some r'" "raw_ok A proto_ok r'"
      using raw_this_conn_ok I by blast
    let ?c = "s'\<lparr>c_impl := Some (on_proto (\<lambda>p. p\<lparr>p_decoder := d'\<rparr>) r')\<rparr>"
    have "conn_ok A proto_ok k a b ?c"
      using I r' d' by (intro conn_ok_on_proto) (auto simp: raw_ok_def proto_ok_def)
    moreover have "duty ?c = duty s'" "unsent A ?c = unsent A s'"
      using r'(2) by (simp_all add: duty_def ran_def waiting_def unsent_def)
    ultimately show ?thesis
      using I r r'(1) Inr t by (simp add: proto_decode_def)
  qed (simp add: proto_decode_def r rpc_fault_def)
qed

text \<open>The invariant of \<open>RawProtobufConnection\<close>, with the laws of the codec it relies on.\<close>

definition rpc_ok :: "('b, 'w) rpc_env \<Rightarrow> proto \<Rightarrow> bool" where
  "rpc_ok X p \<longleftrightarrow> proto_ok p \<and> codec_ok (x_codec X)"

lemma conn_ok_rpc:
  "conn_ok A (rpc_ok X) k a b c \<longleftrightarrow> conn_ok A proto_ok k a b c \<and> codec_ok (x_codec X)"
  by (auto simp: conn_ok_def raw_ok_def rpc_ok_def)

lemma rpc_env_simps [simp]:
  "e_buf (rpc_conn_env X) = x_buf X" "e_decode (rpc_conn_env X) = proto_decode X"
  "e_dtor (rpc_conn_env X) = release_response_table X"
  "e_closed (rpc_conn_env X) = (\<lambda>l w. w\<lparr>w_app := x_closed X l (w_app w)\<rparr>)"
  by (simp_all add: rpc_conn_env_def)

lemma rpc_decode_ok: "decode_ok (rpc_conn_env X) (rpc_ok X) (rpc_fault X)"
  unfolding decode_ok_def conn_ok_rpc rpc_env_simps
proof (intro allI impI)
  fix k a b bytes and c :: "('a, 'b) pconn"
  assume "conn_ok (x_buf X) proto_ok k a b c \<and> codec_ok (x_codec X)"
  with proto_decode_ok [of "x_buf X" k a b c X bytes]
  show "case proto_decode X bytes c of Inl e \<Rightarrow> rpc_fault X e
    | Inr (ok, c') \<Rightarrow> (conn_ok (x_buf X) proto_ok k a b c' \<and> codec_ok (x_codec X)) \<and>
        c_listeners c' = c_listeners c \<and> (\<exists>q. unsent (x_buf X) c' = unsent (x_buf X) c @ q)"
    by (auto split: sum.splits)
qed

definition duty_of :: "'w rpc_world \<Rightarrow> proto option \<Rightarrow> nat multiset" where
  "duty_of w z = ran_in (w_log w) + (case z of None \<Rightarrow> {#} | Some p \<Rightarrow> waiting_in (p_table p))"

lemma duty_view: "duty c = conn_view duty_of c"
  by (simp add: duty_def ran_def waiting_def conn_view_def duty_of_def split: option.splits)

lemma ran_in_release:
  "ran_in (concat (map (\<lambda>(i, call). call_method_callback X call None) t)) = waiting_in t"
  by (induction t) (auto simp: ac_simps)

interpretation rpc: conserved_quantity "rpc_conn_env X" "rpc_ok X" duty_of for X
proof
  fix r w l x and k a b bytes ok and c c' :: "('a, 'b) pconn"
  show "duty_of (e_dtor (rpc_conn_env X) r w) None = duty_of w (Some (raw.more r))"
    by (simp add: duty_of_def release_response_table_def log_events_def ran_in_release)
  show "duty_of (e_closed (rpc_conn_env X) l w) x = duty_of w x"
    by (simp add: duty_of_def)
  assume "conn_ok (e_buf (rpc_conn_env X)) (rpc_ok X) k a b c"
    and dec: "e_decode (rpc_conn_env X) bytes c = Inr (ok, c')"
  then have "conn_ok (x_buf X) proto_ok k a b c" "codec_ok (x_codec X)"
    by (simp_all add: conn_ok_rpc)
  from proto_decode_ok [OF this(1) refl this(2), of bytes] dec
  show "conn_view duty_of c' = conn_view duty_of c"
    by (simp add: duty_view)
qed

text \<open>The pending calls of a connection, and the message that carries a request.\<close>

definition pending_calls :: "('b, 'w) pconn \<Rightarrow> (u64 \<times> rpc_call) list" where
  "pending_calls c = (case c_impl c of None \<Rightarrow> [] | Some r \<Rightarrow> p_table (raw.more r))"

definition request_meta :: "string \<Rightarrow> u64 \<Rightarrow> string \<Rightarrow> meta" where
  "request_meta meth i content = \<lparr>m_type = REQUEST, m_identify = hash8_string meth,
     m_response_identify = Some i, m_content = content\<rparr>"

definition seq_room :: "('b, 'w) pconn \<Rightarrow> bool" where
  "seq_room c \<longleftrightarrow> 0 \<le> w_seq (c_world c) \<and>
     w_seq (c_world c) + int (length (pending_calls c)) \<le> INT_MAX"

lemma raw_call_method_ok:
  assumes "conn_ok A proto_ok k a b c" and A: "A = x_buf X" and "seq_room c"
  shows "\<exists>c'. raw_call_method X meth rtype request call c = Inr c' \<and>
    conn_ok A proto_ok k a b c' \<and> c_listeners c' = c_listeners c \<and>
    duty c' = done_of call + duty c \<and>
    (case request of
       None \<Rightarrow> pending_calls c' = pending_calls c \<and> unsent A c' = unsent A c \<and>
         w_log (c_world c') = w_log (c_world c) @
           fail_controller (k_ctrl call) ''AppendTostringError'' @ run_closure (k_done call)
     | Some content \<Rightarrow> w_log (c_world c') = w_log (c_world c) \<and>
         (\<exists>i. i \<notin> fst ` set (pending_calls c) \<and> pending_calls c' = (i, call) # pending_calls c \<and>
            unsent A c' = unsent A c @ frame_of (x_codec X) (request_meta meth i content)))"
proof -
  obtain r where r: "raw_this c = Inr r" "c_impl c = Some r" "raw_ok A proto_ok r"
    using raw_this_conn_ok [OF assms(1)] by blast
  let ?t = "p_table (raw.more r)"
  have pend: "pending_calls c = ?t" using r(2) by (simp add: pending_calls_def)
  obtain sq i where pr: "probe ?t (w_seq (c_world c)) (hash8_string rtype) = Inr (sq, i)"
    and free: "map_of ?t i = None"
    using probe_finds [of "w_seq (c_world c)" ?t "hash8_string rtype"] assms(3) pend
    by (auto simp: seq_room_def)
  have fresh: "i \<notin> fst ` set ?t" using free by (simp add: map_of_eq_None_iff)
  let ?r = "set_table ((i, call) # ?t) r"
  let ?c = "on_world (\<lambda>w. w\<lparr>w_seq := sq\<rparr>) (c\<lparr>c_impl := Some ?r\<rparr>)"
  have M: "proto_ok ((raw.more r)\<lparr>p_table := (i, call) # ?t\<rparr>)"
    using r(3) fresh by (simp add: raw_ok_def proto_ok_def)
  have ok: "conn_ok A proto_ok k a b ?c"
    using conn_ok_on_proto [OF assms(1) r(2), of "\<lambda>p. p\<lparr>p_table := (i, call) # ?t\<rparr>"] M
    by (simp add: set_table_def)
  have duty: "duty ?c = done_of call + duty c" and uns: "unsent A ?c = unsent A c"
    using r(2) by (simp_all add: duty_def ran_def waiting_def unsent_def)
  show ?thesis
  proof (cases request)
    case None
    let ?d = "on_world (log_events (fail_controller (k_ctrl call) ''AppendTostringError'' @
        run_closure (k_done call))) (?c\<lparr>c_impl := Some (set_table ?t r)\<rparr>)"
    have del: "AList.delete i ((i, call) # ?t) = ?t"
      using fresh by (simp add: delete_absent)
    have "raw_call_method X meth rtype request call c = Inr ?d"
      using None r pr del
      by (simp add: raw_call_method_def fail_call_def raw_this_def on_world_def Let_def)
        (simp add: set_table_def on_proto_def)
    moreover have "conn_ok A proto_ok k a b ?d"
      using conn_ok_on_proto [OF assms(1) r(2), of "\<lambda>p. p\<lparr>p_table := ?t\<rparr>"] r(3)
      by (simp add: set_table_def raw_ok_def on_world_def conn_ok_def writes_ok_def)
    moreover have d: "c_impl ?d = Some (set_table ?t r)" "c_listeners ?d = c_listeners c"
      "c_world ?d = log_events (fail_controller (k_ctrl call) ''AppendTostringError'' @
        run_closure (k_done call)) ((c_world c)\<lparr>w_seq := sq\<rparr>)"
      by (simp_all add: on_world_def)
    moreover have "ran ?d = ran c + done_of call" "waiting ?d = waiting c"
      unfolding ran_def waiting_def d r(2) by (simp_all add: log_events_def)
    moreover have "pending_calls ?d = pending_calls c" "unsent A ?d = unsent A c"
      unfolding pending_calls_def unsent_def d r(2) by simp_all
    moreover have "w_log (c_world ?d) = w_log (c_world c) @
        fail_controller (k_ctrl call) ''AppendTostringError'' @ run_closure (k_done call)"
      unfolding d by (simp add: log_events_def)
    ultimately show ?thesis
      unfolding None duty_def by (intro exI [of _ ?d]) (simp only: option.case ac_simps simp_thms)
  next
    case (Some content)
    obtain data c1 where e: "encode_new X (request_meta meth i content) ?c = (data, c1)"
      by (cases "encode_new X (request_meta meth i content) ?c")
    have data: "data_ok data" "data_text data = frame_of (x_codec X) (request_meta meth i content)"
      and c1: "c1 = on_world (\<lambda>w. w\<lparr>w_next := w_next w + 2\<rparr>) ?c"
      using e by (auto simp: encode_new_def)
    have ok1: "conn_ok A proto_ok k a b c1" using ok c1 by simp
    have impl1: "c_impl c1 = Some ?r" using c1 by simp
    have rok: "raw_ok A proto_ok ?r" "writes_ok c1 ?r"
      using conn_okD(6) [OF ok1] impl1 by auto
    from raw_push_data_ok [OF rok(1) data(1)] obtain r2 where
      r2: "raw_push_data A data ?r = Inr r2" "raw_ok A proto_ok r2" "outcoming r2 = outcoming ?r"
      "raw_unsent A r2 = raw_unsent A ?r @ data_text data" "raw.more r2 = raw.more ?r" by blast
    let ?c2 = "c1\<lparr>c_impl := Some r2\<rparr>"
    have ok2: "conn_ok A proto_ok k a b ?c2"
      using ok1 r2(2,3) rok(2) by (simp add: conn_ok_def writes_ok_def)
    from raw_schedule_write_ok [OF ok2] obtain c3 where
      3: "raw_schedule_write ?c2 = Inr (True, c3)" "conn_ok A proto_ok k a b c3"
      "c_listeners c3 = c_listeners ?c2" "c_world c3 = c_world ?c2"
      "map_option raw.more (c_impl c3) = map_option raw.more (c_impl ?c2)"
      "unsent A c3 = unsent A ?c2" by blast
    have "raw_call_method X meth rtype request call c = Inr c3"
      using Some r(1) pr e [unfolded request_meta_def] impl1 r2(1) 3(1) A
      by (simp add: raw_call_method_def raw_this_def Let_def)
    moreover obtain r3 where r3: "c_impl c3 = Some r3" "raw.more r3 = raw.more ?r"
      using 3(5) r2(5) by auto
    then have "pending_calls c3 = (i, call) # pending_calls c" "waiting c3 = waiting ?c"
      by (simp_all add: pending_calls_def r(2) waiting_def)
    moreover have "unsent A c3 = unsent A c @ data_text data"
      using 3(6) r2(4) uns by (simp add: unsent_def)
    ultimately show ?thesis
      using Some 3 c1 data(2) duty fresh pend by (auto simp: duty_def ran_def)
  qed
qed

text \<open>\<open>ProtobufConnection::CallMethod\<close> in any state between steps.\<close>

lemma conn_inv_rpc_cases:
  assumes "conn_inv A M c"
  obtains (shut) "conn_closing c \<or> c_impl c = None" | (live) "conn_ok A M 0 1 1 c"
  using assms by (auto simp: conn_inv_def)

lemma call_when_shut:
  assumes "st_shared (c_status c) = 0" and "conn_closing c \<or> c_impl c = None"
  shows "conn_call_method X meth rtype request call c =
    Inr (on_world (log_events (fail_controller (k_ctrl call) ''Impl Connection is disconnected'' @
      run_closure (k_done call))) c)"
  using assms by (auto simp: conn_call_method_def Let_def on_status_def conn_unlock_def
      unlock_shared_def lock_shared_def on_world_def)

lemma call_when_live:
  assumes "conn_ok A proto_ok 0 1 1 c" and A: "A = x_buf X" and "seq_room c"
  shows "\<exists>c'. conn_call_method X meth rtype request call c = Inr c' \<and>
    conn_ok A proto_ok 0 1 1 c' \<and> c_listeners c' = c_listeners c \<and> duty c' = done_of call + duty c \<and>
    (case request of
       None \<Rightarrow> pending_calls c' = pending_calls c \<and> unsent A c' = unsent A c \<and>
         w_log (c_world c') = w_log (c_world c) @
           fail_controller (k_ctrl call) ''AppendTostringError'' @ run_closure (k_done call)
     | Some content \<Rightarrow> w_log (c_world c') = w_log (c_world c) \<and>
         (\<exists>i. i \<notin> fst ` set (pending_calls c) \<and> pending_calls c' = (i, call) # pending_calls c \<and>
            unsent A c' = unsent A c @ frame_of (x_codec X) (request_meta meth i content)))"
proof -
  let ?c = "on_status lock_shared c"
  have same: "pending_calls ?c = pending_calls c" "unsent A ?c = unsent A c" "duty ?c = duty c"
    "c_world ?c = c_world c" "c_listeners ?c = c_listeners c" "seq_room ?c"
    using assms(3)
    by (simp_all add: pending_calls_def duty_view seq_room_def) (simp_all add: on_status_def pending_calls_def)
  from raw_call_method_ok [OF conn_ok_lock [OF assms(1)] A same(6), of meth rtype request call]
  obtain c1 where 1: "raw_call_method X meth rtype request call ?c = Inr c1"
    "conn_ok A proto_ok (Suc 0) 1 1 c1" "c_listeners c1 = c_listeners c" "duty c1 = done_of call + duty c"
    and res: "case request of
       None \<Rightarrow> pending_calls c1 = pending_calls c \<and> unsent A c1 = unsent A c \<and>
         w_log (c_world c1) = w_log (c_world c) @
           fail_controller (k_ctrl call) ''AppendTostringError'' @ run_closure (k_done call)
     | Some content \<Rightarrow> w_log (c_world c1) = w_log (c_world c) \<and>
         (\<exists>i. i \<notin> fst ` set (pending_calls c) \<and> pending_calls c1 = (i, call) # pending_calls c \<and>
            unsent A c1 = unsent A c @ frame_of (x_codec X) (request_meta meth i content))"
    unfolding same by blast
  from conn_ok_unlock [OF 1(2)] obtain c2 where 2: "conn_unlock c1 = Inr c2" "conn_ok A proto_ok 0 1 1 c2"
    "c_listeners c2 = c_listeners c1" "c_world c2 = c_world c1" "c_impl c2 = c_impl c1" by blast
  have "\<not> (conn_closing ?c \<or> c_impl ?c = None)"
    using conn_okD(2,6) [OF assms(1)] by (auto simp: on_status_def)
  then have "conn_call_method X meth rtype request call c = Inr c2"
    by (simp only: conn_call_method_def Let_def if_False 1(1) 2(1) bind_outcome_simps)
  moreover have "pending_calls c2 = pending_calls c1" "unsent A c2 = unsent A c1" "duty c2 = duty c1"
    using 2 by (simp_all add: pending_calls_def unsent_def duty_def ran_def waiting_def)
  ultimately show ?thesis using 1 2 res by (intro exI [of _ c2]) (cases request; simp)
qed

section \<open>Every closure runs once\<close>

text \<open>
  Histories of a connection with its calls; \<open>ds\<close> collects the closures handed over.
\<close>

inductive rpc_run :: "('b, 'w) rpc_env \<Rightarrow> ('b, 'w) pconn \<Rightarrow> nat multiset \<Rightarrow> ('b, 'w) pconn \<Rightarrow> bool"
  for X c0 where
  rpc_start: "rpc_run X c0 {#} c0"
| rpc_event: "rpc_run X c0 ds c \<Longrightarrow> event_ok (x_buf X) ev c \<Longrightarrow>
    conn_exec (rpc_conn_env X) ev c = Inr c' \<Longrightarrow> rpc_run X c0 ds c'"
| rpc_call: "rpc_run X c0 ds c \<Longrightarrow> seq_room c \<Longrightarrow>
    conn_call_method X meth rtype request call c = Inr c' \<Longrightarrow> rpc_run X c0 (done_of call + ds) c'"

lemma call_inv:
  assumes "conn_inv (x_buf X) (rpc_ok X) c" and "seq_room c"
  shows "\<exists>c'. conn_call_method X meth rtype request call c = Inr c' \<and>
    conn_inv (x_buf X) (rpc_ok X) c' \<and> duty c' = done_of call + duty c"
  using assms(1)
proof (cases rule: conn_inv_rpc_cases)
  case shut
  have sh: "st_shared (c_status c) = 0" using assms(1) by (simp add: conn_inv_def)
  let ?c = "on_world (log_events (fail_controller (k_ctrl call) ''Impl Connection is disconnected'' @
      run_closure (k_done call))) c"
  have "duty ?c = done_of call + duty c"
    by (simp add: duty_def ran_def log_events_def)
  moreover have "conn_inv (x_buf X) (rpc_ok X) ?c"
    using assms(1) by (simp add: conn_inv_def) (simp add: on_world_def)
  ultimately show ?thesis using call_when_shut [OF sh shut] by simp
next
  case live
  then have "conn_ok (x_buf X) proto_ok 0 1 1 c" "codec_ok (x_codec X)" by (simp_all add: conn_ok_rpc)
  from call_when_live [OF this(1) refl assms(2), of meth rtype request call] this(2) show ?thesis
    by (metis conn_ok_inv conn_ok_rpc)
qed

lemma rpc_run_inv:
  assumes "rpc_run X c0 ds c" and "conn_inv (x_buf X) (rpc_ok X) c0"
  shows "conn_inv (x_buf X) (rpc_ok X) c \<and> duty c = duty c0 + ds"
  using assms(1)
proof (induction rule: rpc_run.induct)
  case rpc_start
  then show ?case using assms(2) by simp
next
  case (rpc_event ds c ev c')
  then have inv: "conn_inv (x_buf X) (rpc_ok X) c" by blast
  have "conn_inv (x_buf X) (rpc_ok X) c'"
    using inv_exec [OF inv rpc_decode_ok _ rpc_event.hyps(2)] rpc_event.hyps(3) by simp
  moreover have "conn_ok (x_buf X) (rpc_ok X) 0 1 1 c \<or> conn_closing c \<or> c_reads c = 0"
    using inv by (auto simp: conn_inv_def)
  then have "duty c' = duty c"
    unfolding duty_view
    by (intro rpc.exec_keeps [OF _ _ rpc_event.hyps(3)]) (use rpc_event.hyps(2) in simp_all)
  ultimately show ?case using rpc_event.IH by simp
next
  case (rpc_call ds c meth rtype request call c')
  then have inv: "conn_inv (x_buf X) (rpc_ok X) c" by blast
  from call_inv [OF inv rpc_call.hyps(2), of meth rtype request call] rpc_call.hyps(3) rpc_call.IH
  show ?case by (auto simp: ac_simps)
qed

lemma done_result:
  assumes "conn_inv (x_buf X) (rpc_ok X) c0" and "rpc_run X c0 ds c"
  shows "ran c + waiting c = ran c0 + waiting c0 + ds \<and>
    (c_impl c = None \<longrightarrow> ran c = ran c0 + waiting c0 + ds) \<and>
    (\<forall>w. delete_conn (rpc_conn_env X) c = Inr w \<longrightarrow> ran_in (w_log w) = ran c0 + waiting c0 + ds)"
proof -
  let ?c = "impl_reset (rpc_conn_env X) c"
  have d: "duty c = duty c0 + ds" using rpc_run_inv [OF assms(2,1)] by blast
  have "c_impl ?c = None" by (simp add: impl_reset_def split: option.splits)
  moreover have "duty ?c = duty c"
    unfolding duty_view by (rule rpc.impl_reset_keeps)
  ultimately have "ran_in (w_log (c_world ?c)) = duty c" by (simp add: duty_def ran_def waiting_def)
  with d show ?thesis by (auto simp: duty_def waiting_def delete_conn_def)
qed

text \<open>
  C12. Every \<open>done\<close> runs exactly once. In any history of a connection (reads with whatever
  messages, writes, heartbeats, errors, local disconnects, calls that succeed or fail), the
  closures run and the closures waiting in the response table are together exactly the ones
  handed over; none waits once the raw connection is gone, and deleting the connection runs
  all that are left.
\<close>

theorem done_runs_exactly_once:
  assumes "conn_inv (x_buf X) (rpc_ok X) c0" and "rpc_run X c0 ds c"
  shows "ran c + waiting c = ran c0 + waiting c0 + ds \<and>
    (c_impl c = None \<longrightarrow> ran c = ran c0 + waiting c0 + ds) \<and>
    (\<forall>w. delete_conn (rpc_conn_env X) c = Inr w \<longrightarrow> ran_in (w_log w) = ran c0 + waiting c0 + ds)"
  by (rule done_result [OF assms])

text \<open>
  C22. At any moment in the history of a connection, with calls of its own and steps with any bytes from the network,
  the next call returns and leaves the invariant, provided \<open>seq\<close> has room to number it; and so does the next step that can occur
  (with the heartbeat counters inside \<open>int\<close>), with exactly three exceptions, all of them in a read without an error: the announced length is \<open>INT_MAX\<close> or more
  (\<open>bad_lexical_cast\<close>, or the overflow of \<open>length + 1\<close>); a service that has an answer which does not serialise (the \<open>CHECK\<close> of
  \<open>CallServiceMethodDone\<close>); or the service itself faults. Services answer before they return or never: one that
  answers later, when the connection may have closed, is not part of these histories (\<open>late_answer_double_free\<close> has what happens then).
\<close>

theorem rpc_connection_safe:
  assumes "conn_inv (x_buf X) (rpc_ok X) c0" and "rpc_run X c0 ds c"
  shows "(seq_room c \<longrightarrow> (\<exists>c'. conn_call_method X meth rtype request call c = Inr c' \<and>
      conn_inv (x_buf X) (rpc_ok X) c')) \<and>
    (event_ok (x_buf X) ev c \<longrightarrow> (case conn_exec (rpc_conn_env X) ev c of
      Inr c' \<Rightarrow> conn_inv (x_buf X) (rpc_ok X) c'
    | Inl e \<Rightarrow> (\<exists>bytes. ev = ReadDone False bytes) \<and>
        (e = BadLexicalCast \<or> e = SignedOverflow \<or> e = CheckFailed \<and> answer_unserialised X \<or> service_fault X e)))"
proof -
  have inv: "conn_inv (x_buf X) (rpc_ok X) c" using rpc_run_inv [OF assms(2,1)] by blast
  have "case conn_exec (rpc_conn_env X) ev c of
      Inr c' \<Rightarrow> conn_inv (x_buf X) (rpc_ok X) c'
    | Inl e \<Rightarrow> (\<exists>bytes. ev = ReadDone False bytes) \<and>
        (e = BadLexicalCast \<or> e = SignedOverflow \<or> e = CheckFailed \<and> answer_unserialised X \<or> service_fault X e)"
    if "event_ok (x_buf X) ev c"
    using inv_exec [OF inv rpc_decode_ok _ that]
    by (auto simp: rpc_fault_def request_fault_def length_fault_def split: sum.splits)
  then show ?thesis using call_inv [OF inv, of meth rtype request call] by blast
qed

section \<open>The state of the application\<close>

text \<open>
  An order that every service and every listener moves the state of the application in: then so
  does every step of a connection, whatever the bytes.
\<close>

locale service_order =
  fixes X :: "('b, 'w) rpc_env" and le :: "'w \<Rightarrow> 'w \<Rightarrow> bool"
  assumes refl: "le w w" and trans: "le u v \<Longrightarrow> le v w \<Longrightarrow> le u w"
    and service: "x_service X meth content w = Inr (answer, w') \<Longrightarrow> le w w'"
    and listener: "le w (x_closed X l w)"
begin

lemma handle_service_order:
  assumes "conn_ok (x_buf X) M k a b c" and "handle_service X meth m c = Inr c'"
  shows "le (w_app (c_world c)) (w_app (c_world c'))"
proof (cases "x_parse_request X meth (m_content m)")
  case True
  then obtain answer app where x: "x_service X meth (m_content m) (w_app (c_world c)) = Inr (answer, app)"
    and run: "(case answer of None \<Rightarrow> Inr (on_world (\<lambda>w. w\<lparr>w_app := app\<rparr>) c)
      | Some response \<Rightarrow> call_service_method_done X m response (on_world (\<lambda>w. w\<lparr>w_app := app\<rparr>) c)) = Inr c'"
    using assms(2) by (auto simp: handle_service_def Let_def)
  let ?c = "on_world (\<lambda>w. w\<lparr>w_app := app\<rparr>) c"
  have ok: "conn_ok (x_buf X) M k a b ?c" using assms(1) by simp
  have "w_app (c_world c') = app"
  proof (cases answer)
    case None
    then show ?thesis using run by auto
  next
    case (Some response)
    then obtain content where "call_service_method_done X m (Some content) ?c = Inr c'"
      using run by (cases response) (auto simp: call_service_method_done_def)
    then show ?thesis using call_service_method_done_ok [OF ok HOL.refl, of m content] by auto
  qed
  then show ?thesis using service [OF x] by simp
qed (use assms refl in \<open>simp add: handle_service_def\<close>)

lemma raw_handle_order:
  assumes "conn_ok (x_buf X) M k a b c" and "raw_handle X m c = Inr (ok, c')"
  shows "le (w_app (c_world c)) (w_app (c_world c'))"
proof -
  obtain r ret c1 where r: "raw_this c = Inr r" and sv: "service_handle X (p_service (raw.more r)) m c = Inr (ret, c1)"
    and rest: "w_app (c_world c') = w_app (c_world c1)"
    using assms(2) by (auto simp: raw_handle_def log_events_def split: if_splits option.splits)
  have "le (w_app (c_world c)) (w_app (c_world c1))"
    using sv handle_service_order [OF assms(1)] refl by (auto simp: service_handle_def split: option.splits)
  then show ?thesis using rest by simp
qed

lemma proto_decode_order:
  assumes "conn_ok (x_buf X) proto_ok k a b c" and codec: "codec_ok (x_codec X)"
    and "proto_decode X bytes c = Inr (ok, c')"
  shows "le (w_app (c_world c)) (w_app (c_world c'))"
proof -
  obtain r where r: "raw_this c = Inr r" "c_impl c = Some r" "raw_ok (x_buf X) proto_ok r"
    using raw_this_conn_ok [OF assms(1)] by blast
  let ?I = "\<lambda>s. conn_ok (x_buf X) proto_ok k a b s \<and> le (w_app (c_world c)) (w_app (c_world s))"
  have keep: "case raw_handle X (d_meta d) s of Inl e \<Rightarrow> True | Inr (ok, s') \<Rightarrow> ?I s'" if "?I s" for d s
    using raw_handle_ok [of "x_buf X" k a b s X "d_meta d"] raw_handle_order [of proto_ok k a b s "d_meta d"] that
    by (auto intro: trans split: sum.splits)
  have "case raw_decode (x_codec X) (\<lambda>d. raw_handle X (d_meta d)) bytes (p_decoder (raw.more r), c) of
      Inl e \<Rightarrow> length_fault e \<or> True | Inr (ok, d', s') \<Rightarrow> dec_inv d' \<and> ?I s'"
    using r(3) assms(1) keep refl
    by (intro raw_decode_keeps [OF codec]) (auto simp: raw_ok_def proto_ok_def)
  then show ?thesis using assms(3) r(1) by (auto simp: proto_decode_def split: sum.splits)
qed

end

sublocale service_order \<subseteq> monotone_quantity "rpc_conn_env X" "rpc_ok X" "\<lambda>w z. w_app w" le
proof
  fix w l r x and k a b bytes ok and c c' :: "('b, 'w) pconn"
  show "le (w_app w) (w_app (e_dtor (rpc_conn_env X) r w))"
    by (simp add: release_response_table_def log_events_def refl)
  show "le (w_app w) (w_app (e_closed (rpc_conn_env X) l w))"
    by (simp add: listener)
  assume "conn_ok (e_buf (rpc_conn_env X)) (rpc_ok X) k a b c" and "e_decode (rpc_conn_env X) bytes c = Inr (ok, c')"
  then show "le (conn_view (\<lambda>w z. w_app w) c) (conn_view (\<lambda>w z. w_app w) c')"
    using proto_decode_order [of k a b c bytes ok c'] by (simp add: conn_view_def conn_ok_rpc)
qed (auto intro: refl trans)

section \<open>Responses find their calls\<close>

lemma response_resolves:
  assumes "c_impl c = Some r"
    and "case p_service (raw.more r) of None \<Rightarrow> True | Some t \<Rightarrow> map_of t (m_identify m) = None"
  shows "case map_of (pending_calls c) (m_identify m) of
      None \<Rightarrow> raw_handle X m c = Inr (False, c)
    | Some call \<Rightarrow> \<exists>c' r'. raw_handle X m c = Inr (True, c') \<and> c_impl c' = Some r' \<and>
        w_log (c_world c') = w_log (c_world c) @ call_method_callback X call (Some m) \<and>
        pending_calls c' = AList.delete (m_identify m) (pending_calls c)"
proof -
  have "service_handle X (p_service (raw.more r)) m c = Inr (False, c)"
    using assms(2) by (auto simp: service_handle_def split: option.splits)
  then show ?thesis
    using assms(1)
    by (auto simp: raw_handle_def raw_this_def pending_calls_def log_events_def split: option.splits)
qed

text \<open>
  A message that no service claims resolves the pending call it names: the entry leaves
  the table and the callback of that call, and no other, runs with the message; a message
  that names no pending call is refused without a change, which makes the reader disconnect.
\<close>

theorem response_resolves_its_call:
  assumes "c_impl c = Some r"
    and "case p_service (raw.more r) of None \<Rightarrow> True | Some t \<Rightarrow> map_of t (m_identify m) = None"
  shows "case map_of (pending_calls c) (m_identify m) of
      None \<Rightarrow> raw_handle X m c = Inr (False, c)
    | Some call \<Rightarrow> \<exists>c'. raw_handle X m c = Inr (True, c') \<and>
        w_log (c_world c') = w_log (c_world c) @ call_method_callback X call (Some m) \<and>
        pending_calls c' = AList.delete (m_identify m) (pending_calls c) \<and>
        map_of (pending_calls c') (m_identify m) = None"
  using response_resolves [OF assms, of X]
  by (auto simp: AList.delete_conv split: option.splits)

section \<open>A remote call from end to end\<close>

definition awaiting :: "decoder \<Rightarrow> bool" where
  "awaiting d \<longleftrightarrow> d_state d = Start \<or> d_state d = End"

lemma proto_decode_frame:
  assumes "c_impl c = Some r" and "awaiting (p_decoder (raw.more r))" and "codec_ok (x_codec X)"
    and "sendable (x_codec X) m" and "raw_handle X m c = Inr (True, c1)" and "c_impl c1 = Some r1"
  shows "\<exists>d. proto_decode X (frame_of (x_codec X) m) c =
    Inr (True, c1\<lparr>c_impl := Some (on_proto (\<lambda>p. p\<lparr>p_decoder := dec_reset d\<rparr>) r1)\<rparr>)"
proof -
  have aw: "d_state (p_decoder (raw.more r)) = Start \<or> d_state (p_decoder (raw.more r)) = End"
    using assms(2) by (simp add: awaiting_def)
  from raw_decode_frame [OF assms(3,4) aw, of "\<lambda>d. raw_handle X (d_meta d)" "[]" c]
  obtain d where "d_meta d = m" and "raw_decode (x_codec X) (\<lambda>d. raw_handle X (d_meta d))
      (frame_of (x_codec X) m) (p_decoder (raw.more r), c) = when_ok
        (bind_outcome (raw_handle X m c) (\<lambda>(ok, s'). Inr (ok, if ok then dec_reset d else d, s')))
        (raw_decode (x_codec X) (\<lambda>d. raw_handle X (d_meta d)) [])"
    by auto
  with assms(1,5,6) show ?thesis
    by (intro exI [of _ d])
      (simp add: proto_decode_def raw_this_def raw_decode.simps [of _ _ "[]"])
qed

lemma proto_decode_frame_fault:
  assumes "c_impl c = Some r" and "awaiting (p_decoder (raw.more r))" and "codec_ok (x_codec X)"
    and "sendable (x_codec X) m" and "raw_handle X m c = Inl e"
  shows "proto_decode X (frame_of (x_codec X) m @ rest) c = Inl e"
proof -
  have "d_state (p_decoder (raw.more r)) = Start \<or> d_state (p_decoder (raw.more r)) = End"
    using assms(2) by (simp add: awaiting_def)
  from raw_decode_frame [OF assms(3,4) this, of "\<lambda>d. raw_handle X (d_meta d)" rest c]
  show ?thesis using assms(1,5) by (auto simp: proto_decode_def raw_this_def)
qed

text \<open>Calling keeps the decoder and the services of the connection.\<close>

definition members_of :: "'w rpc_world \<Rightarrow> proto option \<Rightarrow> (decoder \<times> method_table) option" where
  "members_of w z = map_option (\<lambda>p. (p_decoder p, p_service p)) z"

lemma view_on_world [simp]: "conn_view members_of (on_world f c) = conn_view members_of c"
  by (simp add: conn_view_def members_of_def)

lemma view_set_table:
  "c_impl c = Some r \<Longrightarrow> conn_view members_of (c\<lparr>c_impl := Some (set_table t r)\<rparr>) = conn_view members_of c"
  by (simp add: conn_view_def members_of_def)

lemma delete_data_view:
  "delete_data d c = Inr c' \<Longrightarrow> conn_view members_of c' = conn_view members_of c"
  by (auto simp: delete_data_def delete_string_def split: option.splits)

lemma fail_call_view: "fail_call i reason call c = Inr c' \<Longrightarrow> conn_view members_of c' = conn_view members_of c"
  by (auto simp: fail_call_def raw_this_Inr view_set_table)

lemma encode_new_view: "encode_new X m c = (data, c') \<Longrightarrow>
    conn_view members_of c' = conn_view members_of c \<and> c_impl c' = c_impl c"
  by (auto simp: encode_new_def)

lemma raw_call_view:
  assumes "raw_call_method X meth rtype request call c = Inr c'"
  shows "conn_view members_of c' = conn_view members_of c"
proof -
  obtain r sq i where r: "c_impl c = Some r" and rest: "(let c = on_world (\<lambda>w. w\<lparr>w_seq := sq\<rparr>)
        (c\<lparr>c_impl := Some (set_table ((i, call) # p_table (raw.more r)) r)\<rparr>)
     in case request of
          None \<Rightarrow> fail_call i ''AppendTostringError'' call c
        | Some content \<Rightarrow>
            let (data, c) = encode_new X (request_meta meth i content) c
            in bind_outcome (raw_this c) (\<lambda>r.
               bind_outcome (raw_push_data (x_buf X) data r) (\<lambda>r.
               bind_outcome (raw_schedule_write (c\<lparr>c_impl := Some r\<rparr>)) (\<lambda>(ok, c).
               if \<not> ok then
                 bind_outcome (delete_data data c) (fail_call i ''ScheduleWriteError'' call)
               else Inr c)))) = Inr c'"
    using assms unfolding raw_call_method_def request_meta_def [symmetric]
    by (auto simp: raw_this_Inr)
  let ?c = "on_world (\<lambda>w. w\<lparr>w_seq := sq\<rparr>) (c\<lparr>c_impl := Some (set_table ((i, call) # p_table (raw.more r)) r)\<rparr>)"
  have v: "conn_view members_of ?c = conn_view members_of c" using r by (simp add: view_set_table)
  show ?thesis
  proof (cases request)
    case None
    with rest v show ?thesis by (auto dest: fail_call_view)
  next
    case (Some content)
    obtain data c1 where e: "encode_new X (request_meta meth i content) ?c = (data, c1)"
      by (cases "encode_new X (request_meta meth i content) ?c")
    note e' = encode_new_view [OF e]
    from rest Some e obtain r1 r2 ok c3 where 1: "c_impl c1 = Some r1"
      "raw_push_data (x_buf X) data r1 = Inr r2" "raw_schedule_write (c1\<lparr>c_impl := Some r2\<rparr>) = Inr (ok, c3)"
      and fin: "(if \<not> ok then bind_outcome (delete_data data c3) (fail_call i ''ScheduleWriteError'' call)
        else Inr c3) = Inr c'"
      by (auto simp: raw_this_Inr Let_def)
    have "conn_view members_of c3 = conn_view members_of (c1\<lparr>c_impl := Some r2\<rparr>)"
      using view_raw_schedule [OF 1(3)] .
    also have "\<dots> = conn_view members_of c1"
      using 1(1) raw_push_data_more [OF 1(2)] by simp
    finally have "conn_view members_of c3 = conn_view members_of c" using e' v by simp
    moreover have "conn_view members_of c' = conn_view members_of c3"
      using fin by (auto dest!: delete_data_view fail_call_view split: if_splits)
    ultimately show ?thesis by simp
  qed
qed

lemma call_view:
  assumes "conn_call_method X meth rtype request call c = Inr c'"
  shows "conn_view members_of c' = conn_view members_of c"
  using assms by (auto simp: conn_call_method_def Let_def
      dest!: view_small_steps [where G = members_of] raw_call_view split: if_splits)

lemma members_impl:
  assumes "conn_view members_of c' = conn_view members_of c" and "c_impl c = Some r" and "c_impl c' = Some r'"
  shows "p_decoder (raw.more r') = p_decoder (raw.more r)" "p_service (raw.more r') = p_service (raw.more r)"
  using assms by (simp_all add: conn_view_def members_of_def)

text \<open>The server's side: a request whose method is registered is served and answered.\<close>

lemma serve_request:
  assumes "conn_ok A proto_ok k a b c" and "A = x_buf X" and "c_impl c = Some r"
    and "p_service (raw.more r) = Some t" and "map_of t (m_identify m) = Some meth"
    and "x_parse_request X meth (m_content m)"
    and "x_service X meth (m_content m) (w_app (c_world c)) = Inr (Some (Some answer), app)"
  shows "\<exists>c'. raw_handle X m c = Inr (True, c') \<and> conn_ok A proto_ok k a b c' \<and>
    w_log (c_world c') = w_log (c_world c) \<and> w_app (c_world c') = app \<and>
    unsent A c' = unsent A c @ frame_of (x_codec X) (response_to m answer)"
proof -
  let ?c = "on_world (\<lambda>w. w\<lparr>w_app := app\<rparr>) c"
  have "conn_ok A proto_ok k a b ?c" using assms(1) by simp
  from call_service_method_done_ok [OF this assms(2), of m answer] assms(3-7) show ?thesis
    by (auto simp: raw_handle_def raw_this_def service_handle_def handle_service_def)
qed

lemma call_round_trip:
  assumes "conn_ok A proto_ok 0 1 1 cl" and "A = x_buf X" and "codec_ok (x_codec X)" and "seq_room cl"
    and "c_impl cl = Some r" and "awaiting (p_decoder (raw.more r))" and "p_service (raw.more r) = None"
    and "conn_ok A proto_ok k a b sv" and "c_impl sv = Some s" and "awaiting (p_decoder (raw.more s))"
    and "p_service (raw.more s) = Some t" and "map_of t (hash8_string meth) = Some meth"
    and "x_parse_request X meth content"
    and "x_service X meth content (w_app (c_world sv)) = Inr (Some (Some answer), app)"
    and "\<And>i. sendable (x_codec X) (request_meta meth i content)"
    and "\<And>i. sendable (x_codec X) \<lparr>m_type = RESPONSE, m_identify = i, m_response_identify = None,
        m_content = answer\<rparr>"
  shows "\<exists>request response cl1 sv1 cl2.
    conn_call_method X meth rtype (Some content) call cl = Inr cl1 \<and>
    unsent A cl1 = unsent A cl @ request \<and>
    proto_decode X request sv = Inr (True, sv1) \<and>
    unsent A sv1 = unsent A sv @ response \<and> w_app (c_world sv1) = app \<and>
    proto_decode X response cl1 = Inr (True, cl2) \<and>
    (\<exists>m. m_content m = answer \<and>
       w_log (c_world cl2) = w_log (c_world cl) @ call_method_callback X call (Some m)) \<and>
    pending_calls cl2 = pending_calls cl"
proof -
  from call_when_live [OF assms(1,2,4), of meth rtype "Some content" call]
  obtain cl1 i where 1: "conn_call_method X meth rtype (Some content) call cl = Inr cl1"
    "conn_ok A proto_ok 0 1 1 cl1" "w_log (c_world cl1) = w_log (c_world cl)"
    "i \<notin> fst ` set (pending_calls cl)" "pending_calls cl1 = (i, call) # pending_calls cl"
    "unsent A cl1 = unsent A cl @ frame_of (x_codec X) (request_meta meth i content)" by auto
  let ?m = "request_meta meth i content" and ?n = "response_to (request_meta meth i content) answer"
  have n: "?n = \<lparr>m_type = RESPONSE, m_identify = i, m_response_identify = None, m_content = answer\<rparr>"
    by (simp add: response_to_def request_meta_def)
  from serve_request [OF assms(8,2,9,11), of ?m meth answer app] assms(12-14)
  obtain sv1 where 2: "raw_handle X ?m sv = Inr (True, sv1)" "conn_ok A proto_ok k a b sv1"
    "w_app (c_world sv1) = app" "unsent A sv1 = unsent A sv @ frame_of (x_codec X) ?n"
    by (auto simp: request_meta_def)
  obtain s1 where s1: "c_impl sv1 = Some s1" using conn_okD(6) [OF 2(2)] by blast
  from proto_decode_frame [OF assms(9,10,3,15) 2(1) s1] obtain sv2 where
    3: "proto_decode X (frame_of (x_codec X) ?m) sv = Inr (True, sv2)"
    "unsent A sv2 = unsent A sv1" "c_world sv2 = c_world sv1"
    using s1 by (force simp: unsent_def)
  obtain r1 where r1: "c_impl cl1 = Some r1" using conn_okD(6) [OF 1(2)] by blast
  note mem = members_impl [OF call_view [OF 1(1)] assms(5) r1]
  have "case p_service (raw.more r1) of None \<Rightarrow> True | Some t \<Rightarrow> map_of t (m_identify ?n) = None"
    by (simp add: mem(2) assms(7))
  from response_resolves [OF r1 this, of X] 1(5) n
  obtain cl2 r2 where 4: "raw_handle X ?n cl1 = Inr (True, cl2)"
    "w_log (c_world cl2) = w_log (c_world cl1) @ call_method_callback X call (Some ?n)"
    "pending_calls cl2 = AList.delete i (pending_calls cl1)" "c_impl cl2 = Some r2"
    by auto
  have sn: "sendable (x_codec X) ?n" unfolding n by (rule assms(16))
  have aw: "awaiting (p_decoder (raw.more r1))" by (simp add: mem(1) assms(6))
  from proto_decode_frame [OF r1 aw assms(3) sn 4(1,4)] obtain cl3 where
    5: "proto_decode X (frame_of (x_codec X) ?n) cl1 = Inr (True, cl3)"
    "pending_calls cl3 = pending_calls cl2" "c_world cl3 = c_world cl2"
    using 4(4) by (force simp: pending_calls_def)
  have "AList.delete i (pending_calls cl1) = pending_calls cl"
    using 1(4,5) by (simp add: delete_absent)
  moreover have "m_content ?n = answer" by (simp add: response_to_def)
  ultimately show ?thesis
    using 1 2(3,4) 3 4(2,3) 5
    by (intro exI [of _ "frame_of (x_codec X) ?m"] exI [of _ "frame_of (x_codec X) ?n"] exI [of _ cl1]
        exI [of _ sv2] exI [of _ cl3] conjI exI [of _ ?n]) simp_all
qed

text \<open>
  C5. A remote call from end to end. A client calls a method that the server has registered;
  the bytes it queues, read by the server, run the service on the request and queue one frame;
  that frame, read by the client, runs the callback of this very call with the answer of the
  service, runs its \<open>done\<close> once, and leaves the other pending calls as they were.
\<close>

theorem remote_call_round_trip:
  assumes "conn_ok A proto_ok 0 1 1 cl" and "A = x_buf X" and "codec_ok (x_codec X)" and "seq_room cl"
    and "c_impl cl = Some r" and "awaiting (p_decoder (raw.more r))" and "p_service (raw.more r) = None"
    and "conn_ok A proto_ok k a b sv" and "c_impl sv = Some s" and "awaiting (p_decoder (raw.more s))"
    and "p_service (raw.more s) = Some t" and "map_of t (hash8_string meth) = Some meth"
    and "x_parse_request X meth content"
    and "x_service X meth content (w_app (c_world sv)) = Inr (Some (Some answer), app)"
    and "\<And>i. sendable (x_codec X) (request_meta meth i content)"
    and "\<And>i. sendable (x_codec X) \<lparr>m_type = RESPONSE, m_identify = i, m_response_identify = None,
        m_content = answer\<rparr>"
  shows "\<exists>request response cl1 sv1 cl2.
    conn_call_method X meth rtype (Some content) call cl = Inr cl1 \<and>
    unsent A cl1 = unsent A cl @ request \<and>
    proto_decode X request sv = Inr (True, sv1) \<and>
    unsent A sv1 = unsent A sv @ response \<and> w_app (c_world sv1) = app \<and>
    proto_decode X response cl1 = Inr (True, cl2) \<and>
    (\<exists>m. m_content m = answer \<and>
       w_log (c_world cl2) = w_log (c_world cl) @ call_method_callback X call (Some m)) \<and>
    pending_calls cl2 = pending_calls cl"
  using assms by (rule call_round_trip)

section \<open>Registering services\<close>

lemma register_methods_result:
  "register_methods ms tab =
    (if distinct (map hash8_string ms) \<and> (\<forall>m \<in> set ms. map_of tab (hash8_string m) = None)
     then Inr (rev (map (\<lambda>m. (hash8_string m, m)) ms) @ tab) else Inl CheckFailed)"
proof (induction ms arbitrary: tab)
  case (Cons m ms)
  show ?case
  proof (cases "map_of tab (hash8_string m) = None")
    case True
    have "register_methods (m # ms) tab = register_methods ms ((hash8_string m, m) # tab)"
      using True by (simp add: Let_def)
    also have "\<dots> = (if distinct (map hash8_string ms) \<and>
        (\<forall>x \<in> set ms. map_of ((hash8_string m, m) # tab) (hash8_string x) = None)
      then Inr (rev (map (\<lambda>m. (hash8_string m, m)) ms) @ (hash8_string m, m) # tab) else Inl CheckFailed)"
      by (rule Cons.IH)
    also have "(\<forall>x \<in> set ms. map_of ((hash8_string m, m) # tab) (hash8_string x) = None) \<longleftrightarrow>
        hash8_string m \<notin> hash8_string ` set ms \<and> (\<forall>x \<in> set ms. map_of tab (hash8_string x) = None)"
    proof -
      have "map_of ((hash8_string m, m) # tab) i = None \<longleftrightarrow> i \<noteq> hash8_string m \<and> map_of tab i = None" for i
        by simp
      then show ?thesis unfolding image_iff by metis
    qed
    finally show ?thesis using True by (auto simp: Let_def)
  next
    case False
    then obtain y where "map_of tab (hash8_string m) = Some y" by auto
    then show ?thesis by (simp add: Let_def)
  qed
qed simp

text \<open>
  \<open>RegisterService\<close> accepts a service exactly when the fingerprints of its methods differ
  from each other and from all registered ones, and aborts otherwise; afterwards each of its
  methods is found under its fingerprint and every method registered before is still there.
\<close>

theorem register_service_spec:
  "case register_service ms tab of
     Inl e \<Rightarrow> e = CheckFailed \<and> (\<not> distinct (map hash8_string ms) \<or>
       (\<exists>m \<in> set ms. \<exists>t. tab = Some t \<and> map_of t (hash8_string m) \<noteq> None))
   | Inr tab' \<Rightarrow> distinct (map hash8_string ms) \<and> (\<exists>t'. tab' = Some t' \<and>
       (\<forall>m \<in> set ms. map_of t' (hash8_string m) = Some m) \<and>
       (\<forall>t i meth. tab = Some t \<longrightarrow> map_of t i = Some meth \<longrightarrow> map_of t' i = Some meth))"
proof (cases "distinct (map hash8_string ms) \<and>
    (\<forall>m \<in> set ms. map_of (case tab of None \<Rightarrow> [] | Some t \<Rightarrow> t) (hash8_string m) = None)")
  case True
  let ?t = "case tab of None \<Rightarrow> [] | Some t \<Rightarrow> t"
  let ?n = "rev (map (\<lambda>m. (hash8_string m, m)) ms)"
  have d: "distinct (map fst ?n)" using True by (simp add: comp_def rev_map [symmetric])
  have "map_of (?n @ ?t) (hash8_string m) = Some m" if "m \<in> set ms" for m
  proof -
    have "(hash8_string m, m) \<in> set ?n" using that by simp
    from map_of_is_SomeI [OF d this] show ?thesis by (simp only: map_of_append map_add_Some_iff) simp
  qed
  moreover have "map_of (?n @ ?t) i = Some meth" if "tab = Some t" "map_of t i = Some meth" for t i meth
  proof -
    have "i \<notin> fst ` set ?n" using True that by force
    then have "map_of ?n i = None" by (simp add: map_of_eq_None_iff)
    then show ?thesis using that by (simp add: map_add_def)
  qed
  ultimately show ?thesis
    using True by (simp add: register_service_def register_methods_result)
next
  case False
  then have "register_service ms tab = Inl CheckFailed"
    by (simp add: register_service_def register_methods_result)
  with False show ?thesis by (auto split: option.splits)
qed

section \<open>Answers after the connection has closed\<close>

lemma delete_data_twice:
  assumes "fst d \<noteq> None \<or> snd d \<noteq> None" and "delete_data d c = Inr c1"
    and "w_freed (c_world c2) = w_freed (c_world c1)"
  shows "delete_data d c2 = Inl DoubleFree"
  using assms
  by (cases "fst d"; cases "snd d")
    (auto simp: delete_data_def delete_string_def free_addr_def split: if_splits)

lemma delete_data_fault: "delete_data d c = Inl e \<Longrightarrow> e = DoubleFree"
  by (auto simp: delete_data_def delete_string_def free_addr_def bind_outcome_Inl_iff
      split: option.splits if_splits)

text \<open>
  A service that keeps \<open>done\<close> and runs it after the connection has closed corrupts the
  heap: both \<open>PushData\<close> and \<open>ScheduleWrite\<close> answer false, and each of the two branches of
  \<open>CallServiceMethodDone\<close> deletes the header and the content.
\<close>

theorem late_answer_double_free:
  assumes "conn_closing c \<or> c_impl c = None"
    and "ser_meta (x_codec X) (response_to m content) \<noteq> None"
  shows "call_service_method_done X m (Some content) c = Inl DoubleFree"
proof -
  obtain data c1 where e: "encode_new X (response_to m content) c = (data, c1)"
    by (cases "encode_new X (response_to m content) c")
  have data: "fst data \<noteq> None" and c1: "conn_closing c1 \<or> c_impl c1 = None"
    using e assms by (auto simp: encode_new_def encode_message_def split: option.splits)
  have shut: "conn_push_data (x_buf X) data c2 = Inr (False, c2) \<and>
      conn_schedule_write c2 = Inr (False, c2)" if "conn_closing c2 \<or> c_impl c2 = None" for c2 :: "('a, 'b) pconn"
    using that by (auto simp: conn_push_data_def conn_schedule_write_def Let_def on_status_def
        conn_unlock_def split: option.splits)
  show ?thesis
  proof (cases "delete_data data c1")
    case (Inl x)
    with e shut [OF c1] delete_data_fault [OF Inl] show ?thesis
      by (simp add: call_service_method_done_def response_to_def Let_def)
  next
    case (Inr c2)
    have "c_status c2 = c_status c1 \<and> c_impl c2 = c_impl c1"
      using Inr by (auto simp: delete_data_def delete_string_def split: option.splits)
    with c1 have "conn_closing c2 \<or> c_impl c2 = None" by auto
    from shut [OF this] shut [OF c1] e Inr delete_data_twice [of data c1 c2 c2] data show ?thesis
      by (simp add: call_service_method_done_def response_to_def Let_def)
  qed
qed

section \<open>Witnesses\<close>

text \<open>A service of one method, that answers a request with its content and an exclamation mark.\<close>

definition echo_env :: "(string, nat) rpc_env" where
  "echo_env =
     \<lparr>x_buf = string_buffers, x_codec = text_codec, x_parse_request = (\<lambda>meth content. True),
      x_service = (\<lambda>meth content n. Inr (Some (Some (content @ ''!'')), Suc n)),
      x_parse_response = (\<lambda>i content. True), x_alive = (\<lambda>l n. True), x_closed = (\<lambda>l n. n)\<rparr>"

definition peer_raw :: "method_table \<Rightarrow> (string, proto) raw_scheme" where
  "peer_raw tab = (raw_new ''peer0'' 0 0
     \<lparr>p_table = [], p_decoder = dec_new demo_request, p_service = tab\<rparr>)\<lparr>r_socket := True\<rparr>"

definition peer :: "method_table \<Rightarrow> (string, nat) pconn" where
  "peer tab =
     \<lparr>c_name = ''peer'', c_id = 1, c_status = \<lparr>st_flags = 1, st_shared = 0\<rparr>,
      c_impl = Some (peer_raw tab), c_listeners = [], c_reads = 1, c_writes = [], c_oobs = 1,
      c_world = \<lparr>w_log = [], w_next = 0, w_freed = [], w_seq = 1, w_app = 0\<rparr>\<rparr>"

definition demo_call :: rpc_call where
  "demo_call = \<lparr>k_ctrl = Some 3, k_resp = 5, k_done = Some 8\<rparr>"

lemma echo_simps [simp]:
  "x_buf echo_env = string_buffers" "x_codec echo_env = text_codec"
  by (simp_all add: echo_env_def)

lemma peer_simps [simp]:
  "c_impl (peer tab) = Some (peer_raw tab)" "raw.more (peer_raw tab) =
     \<lparr>p_table = [], p_decoder = dec_new demo_request, p_service = tab\<rparr>"
  "c_world (peer tab) = \<lparr>w_log = [], w_next = 0, w_freed = [], w_seq = 1, w_app = 0\<rparr>"
  by (simp_all add: peer_def peer_raw_def raw_new_def)

lemma peer_ok: "conn_ok string_buffers proto_ok 0 1 1 (peer tab)"
  by (simp add: conn_ok_def peer_def peer_raw_def raw_new_def raw_ok_def writes_ok_def outcoming_def proto_ok_def)

lemma peer_inv: "conn_inv string_buffers (rpc_ok echo_env) (peer tab)"
  by (rule conn_ok_inv) (unfold conn_ok_rpc echo_simps, simp only: peer_ok text_codec_ok simp_thms)

lemma peer_room: "seq_room (peer tab)"
  by (simp add: seq_room_def pending_calls_def INT_MAX_def)

lemma length_decimal: "n < 10 ^ Suc k \<Longrightarrow> length (decimal n) \<le> Suc k"
proof (induction k arbitrary: n)
  case 0
  then show ?case by (subst decimal.simps) simp
next
  case (Suc k)
  show ?case
  proof (cases "n < 10")
    case True
    then show ?thesis by (subst decimal.simps) simp
  next
    case False
    have "n div 10 < 10 ^ Suc k" using Suc.prems by (simp add: less_mult_imp_div_less mult.commute)
    with Suc.IH False show ?thesis by (subst decimal.simps) simp
  qed
qed

lemma length_decimal_word: "length (decimal (unat (w :: u64))) \<le> 20"
proof -
  have "unat w < 2 ^ 64" using unsigned_less [of w, where ?'a = nat] by simp
  also have "(2::nat) ^ 64 < 10 ^ Suc 19" by simp
  finally show ?thesis using length_decimal [of "unat w" 19] by simp
qed

lemma text_sendable:
  assumes "meta_acceptable m" and "length (m_content m) \<le> 1000"
  shows "sendable text_codec m"
proof -
  have "length (text_ser m) \<le> 2000"
    using length_decimal_word [of "m_identify m"] assms(2)
      length_decimal_word [of "the (m_response_identify m)"]
    by (cases "m_response_identify m") (simp_all add: text_ser_def)
  then have "int (length (text_ser m)) < INT_MAX" by (simp add: INT_MAX_def)
  with assms(1) show ?thesis by (simp add: sendable_def text_codec_def)
qed

theorem register_service_spec_witness:
  "\<exists>t. register_service [''m''] None = Inr (Some t) \<and> map_of t (hash8_string ''m'') = Some ''m''"
  using register_service_spec [of "[''m'']" None]
  by (simp add: register_service_def)

theorem call_identifier_fresh_witness:
  "\<exists>sq' i'. probe [(7, demo_call), (9, demo_call)] 1 7 = Inr (sq', i') \<and>
     i' \<notin> fst ` set [(7, demo_call), (9, demo_call)] \<and> 1 \<le> sq' \<and> sq' \<le> 3"
  using call_identifier_fresh [of 1 "[(7, demo_call), (9, demo_call)]" 7] by (simp add: INT_MAX_def)

theorem done_runs_exactly_once_witness:
  "\<exists>c. rpc_run echo_env (peer None) {#8#} c \<and> ran c + waiting c = {#8#}"
proof -
  from call_inv [of echo_env "peer None" "''m''" "''r''" "Some ''hi''" demo_call] obtain c where
    c: "conn_call_method echo_env ''m'' ''r'' (Some ''hi'') demo_call (peer None) = Inr c"
    using peer_inv peer_room by auto
  have run: "rpc_run echo_env (peer None) (done_of demo_call + {#}) c"
    by (rule rpc_call [OF rpc_start peer_room c])
  have "ran (peer None) + waiting (peer None) = {#}"
    by (simp add: ran_def waiting_def)
  with done_runs_exactly_once [OF _ run] peer_inv run show ?thesis
    by (auto simp: done_of_def demo_call_def)
qed

text \<open>A call on the new connection, and then a read of bytes that are no message.\<close>

theorem rpc_connection_safe_witness:
  "\<exists>c. conn_call_method echo_env ''m'' ''r'' (Some ''hi'') demo_call (peer None) = Inr c \<and>
    conn_inv string_buffers (rpc_ok echo_env) c \<and>
    (case conn_exec (rpc_conn_env echo_env) (ReadDone False ''5:xx'') c of
      Inr c' \<Rightarrow> conn_inv string_buffers (rpc_ok echo_env) c'
    | Inl e \<Rightarrow> e = BadLexicalCast \<or> e = SignedOverflow)"
proof -
  have good: "\<not> service_fault echo_env e" "\<not> answer_unserialised echo_env" for e
    by (simp_all add: service_fault_def answer_unserialised_def echo_env_def)
  have inv: "conn_inv (x_buf echo_env) (rpc_ok echo_env) (peer None)" using peer_inv by simp
  from rpc_connection_safe [OF inv rpc_start, of "''m''" "''r''" "Some ''hi''" demo_call] peer_room obtain c where
    c: "conn_call_method echo_env ''m'' ''r'' (Some ''hi'') demo_call (peer None) = Inr c"
      "conn_inv string_buffers (rpc_ok echo_env) c" by auto
  have "event_ok string_buffers (ReadDone False ''5:xx'') c"
    using call_when_live [of string_buffers "peer None" echo_env "''m''" "''r''" "Some ''hi''" demo_call]
      peer_ok peer_room c(1) by (auto simp: conn_ok_def)
  then show ?thesis
    using rpc_connection_safe [OF inv rpc_call [OF rpc_start peer_room c(1)], of _ _ _ _ "ReadDone False ''5:xx''"] c good
    by (auto split: sum.splits)
qed

theorem response_resolves_its_call_witness:
  "raw_handle echo_env demo_response (peer None) = Inr (False, peer None)"
  using response_resolves_its_call [of "peer None" "peer_raw None" demo_response echo_env]
  by (simp add: pending_calls_def)

theorem remote_call_round_trip_witness:
  "\<exists>request response cl1 sv1 cl2.
    conn_call_method echo_env ''m'' ''r'' (Some ''hi'') demo_call (peer None) = Inr cl1 \<and>
    unsent string_buffers cl1 = unsent string_buffers (peer None) @ request \<and>
    proto_decode echo_env request (peer (Some [(hash8_string ''m'', ''m'')])) = Inr (True, sv1) \<and>
    unsent string_buffers sv1 = unsent string_buffers (peer (Some [(hash8_string ''m'', ''m'')])) @ response \<and>
    w_app (c_world sv1) = 1 \<and>
    proto_decode echo_env response cl1 = Inr (True, cl2) \<and>
    (\<exists>m. m_content m = ''hi!'' \<and>
       w_log (c_world cl2) = w_log (c_world (peer None)) @ call_method_callback echo_env demo_call (Some m)) \<and>
    pending_calls cl2 = pending_calls (peer None)"
proof (rule remote_call_round_trip [OF peer_ok _ _ peer_room peer_simps(1) _ _ peer_ok peer_simps(1)])
  show "sendable (x_codec echo_env) (request_meta ''m'' i ''hi'')" for i
    unfolding echo_simps by (rule text_sendable) (simp_all add: request_meta_def meta_acceptable_def)
  show "sendable (x_codec echo_env) \<lparr>m_type = RESPONSE, m_identify = i, m_response_identify = None,
      m_content = ''hi!''\<rparr>" for i
    unfolding echo_simps by (rule text_sendable) (simp_all add: meta_acceptable_def)
qed (simp add: awaiting_def echo_env_def)+

theorem late_answer_double_free_witness:
  "call_service_method_done echo_env demo_request (Some ''x'') ((peer None)\<lparr>c_impl := None\<rparr>) = Inl DoubleFree"
  by (rule late_answer_double_free) (simp_all add: text_codec_def)

end
