(* ===== verification/Thread_Pool.thy ===== *)
theory Thread_Pool
  imports Tt_Prelude
begin

text \<open>
  \<open>src/core/thread/PCQueue.hpp\<close> and \<open>ThreadPool.hpp\<close>, and \<open>src/core/network/IOServicePool.hpp\<close>
  and \<open>IOServicePool.cpp\<close> on top of them. Workers interleave: a step is one call of a client
  (under the mutex it takes) or one turn of a worker (a \<open>Pop\<close>, or the end of a task).
\<close>

section \<open>PCQueue\<close>

text \<open>\<open>Pop\<close> waits on an empty queue: \<open>None\<close> is a call that does not return in this state.\<close>

definition pc_push :: "'a \<Rightarrow> 'a list \<Rightarrow> 'a list" where
  "pc_push t q = q @ [t]"

definition pc_pop :: "'a list \<Rightarrow> ('a \<times> 'a list) option" where
  "pc_pop q = (case q of [] \<Rightarrow> None | t # q' \<Rightarrow> Some (t, q'))"

definition pc_size :: "'a list \<Rightarrow> nat" where
  "pc_size q = length q"

text \<open>
  What the pool relies on: the elements popped so far and the elements still inside are the
  elements pushed, in order.
\<close>

locale fifo =
  fixes push :: "'a \<Rightarrow> 'q \<Rightarrow> 'q" and pop :: "'q \<Rightarrow> ('a \<times> 'q) option" and elems :: "'q \<Rightarrow> 'a list"
  assumes elems_push: "elems (push t q) = elems q @ [t]"
    and pop_None: "pop q = None \<longleftrightarrow> elems q = []"
    and pop_Some: "pop q = Some (t, q') \<Longrightarrow> elems q = t # elems q'"
begin

lemma elems_push_all: "elems (fold push ts q) = elems q @ ts"
  by (induction ts arbitrary: q) (simp_all add: elems_push)

lemma history_push: "popped @ elems q = hist \<Longrightarrow> popped @ elems (push t q) = hist @ [t]"
  by (simp add: elems_push)

lemma history_pop: "popped @ elems q = hist \<Longrightarrow> pop q = Some (t, q') \<Longrightarrow> (popped @ [t]) @ elems q' = hist"
  by (drule pop_Some) simp

end

interpretation pc: fifo pc_push pc_pop "\<lambda>q. q"
  by unfold_locales (auto simp: pc_push_def pc_pop_def split: list.splits)

section \<open>ThreadPool\<close>

text \<open>
  A worker thread waits in \<open>Pop\<close>, runs a task, or has left \<open>Loop\<close>. The queue holds
  \<open>function0\<close> objects, \<open>None\<close> being an empty one. \<open>tp_threads\<close> is \<open>mThreads\<close>, by the
  position of the thread among all threads ever started.
\<close>

datatype 'a worker = Waiting | Busy 'a | Gone

record 'a pool =
  tp_name :: string
  tp_size :: int
  tp_timeout :: int
  tp_threads :: "nat list"
  tp_queue :: "'a option list"
  tp_workers :: "'a worker list"
  tp_taken :: "'a list"      \<comment> \<open>the tasks taken by workers, in order\<close>
  tp_done :: "'a list"       \<comment> \<open>the tasks that have returned\<close>

definition pool_new :: "string \<Rightarrow> int \<Rightarrow> 'a pool" where
  "pool_new name n =
     \<lparr>tp_name = name, tp_size = n, tp_timeout = 60, tp_threads = [], tp_queue = [],
      tp_workers = [], tp_taken = [], tp_done = []\<rparr>"

definition pool_start :: "'a pool \<Rightarrow> 'a pool" where
  "pool_start p =
     (if tp_threads p \<noteq> [] then p
      else let n = length (tp_workers p); k = nat (tp_size p)
           in p\<lparr>tp_threads := [n..<n + k], tp_workers := tp_workers p @ replicate k Waiting\<rparr>)"

definition pool_is_running :: "'a pool \<Rightarrow> bool" where
  "pool_is_running p \<longleftrightarrow> length (tp_threads p) > 0"

definition pool_set_stop_timeout :: "int \<Rightarrow> 'a pool \<Rightarrow> 'a pool" where
  "pool_set_stop_timeout t p = p\<lparr>tp_timeout := t\<rparr>"

definition pool_push_task :: "'a option \<Rightarrow> 'a pool \<Rightarrow> 'a pool" where
  "pool_push_task t p = (if t = None then p else p\<lparr>tp_queue := pc_push t (tp_queue p)\<rparr>)"

text \<open>
  \<open>Stop\<close> up to the joins: one empty task per thread. Then it joins the threads, each for at
  most the timeout, and forgets them.
\<close>

definition pool_stop_marks :: "'a pool \<Rightarrow> 'a pool" where
  "pool_stop_marks p = p\<lparr>tp_queue := fold pc_push (replicate (length (tp_threads p)) None) (tp_queue p)\<rparr>"

definition pool_forget :: "'a pool \<Rightarrow> 'a pool" where
  "pool_forget p = p\<lparr>tp_threads := []\<rparr>"

text \<open>The whole of \<open>Stop\<close>; what the workers do during the joins is the parameter.\<close>

definition pool_stop :: "('a pool \<Rightarrow> 'a pool) \<Rightarrow> 'a pool \<Rightarrow> 'a pool" where
  "pool_stop joins p = (if tp_threads p = [] then p else pool_forget (joins (pool_stop_marks p)))"

text \<open>The accessors and the destructor.\<close>

definition pool_name :: "'a pool \<Rightarrow> string" where "pool_name p = tp_name p"
definition pool_Size :: "'a pool \<Rightarrow> int" where "pool_Size p = tp_size p"

definition delete_pool :: "('a pool \<Rightarrow> 'a pool) \<Rightarrow> 'a pool \<Rightarrow> 'a pool" where
  "delete_pool joins p = (if pool_is_running p then pool_stop joins p else p)"

lemma delete_pool_stops: "tp_threads (delete_pool joins p) = []"
  by (simp add: delete_pool_def pool_is_running_def pool_stop_def pool_forget_def)

text \<open>One turn of \<open>Loop\<close> of worker \<open>i\<close>; \<open>None\<close> when it waits or has ended.\<close>

definition worker_turn :: "nat \<Rightarrow> 'a pool \<Rightarrow> 'a pool option" where
  "worker_turn i p =
     (if length (tp_workers p) \<le> i then None
      else case tp_workers p ! i of
        Gone \<Rightarrow> None
      | Busy t \<Rightarrow> Some (p\<lparr>tp_workers := (tp_workers p)[i := Waiting], tp_done := tp_done p @ [t]\<rparr>)
      | Waiting \<Rightarrow>
          (case pc_pop (tp_queue p) of
             None \<Rightarrow> None
           | Some (None, q) \<Rightarrow> Some (p\<lparr>tp_queue := q, tp_workers := (tp_workers p)[i := Gone]\<rparr>)
           | Some (Some t, q) \<Rightarrow> Some (p\<lparr>tp_queue := q, tp_workers := (tp_workers p)[i := Busy t],
                                      tp_taken := tp_taken p @ [t]\<rparr>)))"

text \<open>Histories of a pool, with everything pushed into its queue.\<close>

inductive pool_run :: "'a pool \<Rightarrow> 'a option list \<Rightarrow> 'a pool \<Rightarrow> bool" for p0 where
  pool_init: "pool_run p0 [] p0"
| pool_starts: "pool_run p0 h p \<Longrightarrow> pool_run p0 h (pool_start p)"
| pool_pushes: "pool_run p0 h p \<Longrightarrow> pool_run p0 (h @ [Some t]) (pool_push_task (Some t) p)"
| pool_stops: "pool_run p0 h p \<Longrightarrow>
    pool_run p0 (h @ replicate (length (tp_threads p)) None) (pool_stop_marks p)"
| pool_forgets: "pool_run p0 h p \<Longrightarrow> pool_run p0 h (pool_forget p)"
| pool_works: "pool_run p0 h p \<Longrightarrow> worker_turn i p = Some p' \<Longrightarrow> pool_run p0 h p'"

section \<open>Invariant\<close>

definition gone :: "'a worker list \<Rightarrow> nat" where
  "gone ws = length (filter (\<lambda>w. w = Gone) ws)"

fun busy_of :: "'a worker \<Rightarrow> 'a multiset" where
  "busy_of (Busy t) = {#t#}"
| "busy_of w = {#}"

definition busy :: "'a worker list \<Rightarrow> 'a multiset" where
  "busy ws = sum_list (map busy_of ws)"

definition tasks :: "'a option list \<Rightarrow> 'a list" where
  "tasks h = [t. Some t \<leftarrow> h]"

definition marks :: "'a option list \<Rightarrow> nat" where
  "marks h = length (filter (\<lambda>x. x = None) h)"

lemma history_simps [simp]:
  "tasks [] = []" "tasks (Some t # h) = t # tasks h" "tasks (None # h) = tasks h"
  "tasks (h @ h') = tasks h @ tasks h'" "marks [] = 0" "marks (Some t # h) = marks h"
  "marks (None # h) = Suc (marks h)" "marks (h @ h') = marks h + marks h'"
  "marks (replicate n None) = n" "tasks (replicate n None) = []"
  by (simp_all add: tasks_def marks_def)

lemma worker_simps [simp]:
  "gone [] = 0" "busy [] = {#}" "gone (ws @ ws') = gone ws + gone ws'" "busy (ws @ ws') = busy ws + busy ws'"
  "gone (replicate n Waiting) = 0" "busy (replicate n Waiting) = {#}"
  by (simp_all add: gone_def busy_def) (induction n; simp)

lemma gone_update: "i < length ws \<Longrightarrow> ws ! i \<noteq> Gone \<Longrightarrow>
    gone (ws[i := w]) = gone ws + (if w = Gone then 1 else 0)"
  by (subst (2) id_take_nth_drop [of i ws]) (auto simp: gone_def upd_conv_take_nth_drop)

lemma gone_le: "gone ws \<le> length ws"
  by (simp add: gone_def)

lemma gone_less: "i < length ws \<Longrightarrow> ws ! i \<noteq> Gone \<Longrightarrow> gone ws < length ws"
  unfolding gone_def by (rule length_filter_less) auto

lemma busy_update: "i < length ws \<Longrightarrow> busy (ws[i := w]) + busy_of (ws ! i) = busy ws + busy_of w"
  by (subst (3) id_take_nth_drop [of i ws]) (auto simp: busy_def upd_conv_take_nth_drop ac_simps)

lemma stop_marks_simps [simp]:
  "tp_queue (pool_stop_marks p) = tp_queue p @ replicate (length (tp_threads p)) None"
  "tp_workers (pool_stop_marks p) = tp_workers p" "tp_taken (pool_stop_marks p) = tp_taken p"
  "tp_done (pool_stop_marks p) = tp_done p"
  unfolding pool_stop_marks_def pc.elems_push_all by simp_all

text \<open>
  The pushes are the pops followed by the queue; the tasks among the pops have been taken in
  that order, each stop mark among them has ended one worker, the last pop was a mark if all
  workers have ended, and every task taken is running or done.
\<close>

definition pool_inv :: "'a option list \<Rightarrow> 'a option list \<Rightarrow> 'a pool \<Rightarrow> bool" where
  "pool_inv h popped p \<longleftrightarrow> popped @ tp_queue p = h \<and> tp_taken p = tasks popped \<and>
     gone (tp_workers p) = marks popped \<and>
     (gone (tp_workers p) = length (tp_workers p) \<longrightarrow> popped = [] \<or> last popped = None) \<and>
     mset (tp_taken p) = mset (tp_done p) + busy (tp_workers p)"

lemma worker_turn_inv:
  assumes "pool_inv h popped p" and "worker_turn i p = Some p'"
  shows "\<exists>popped'. pool_inv h popped' p'"
proof -
  have i: "i < length (tp_workers p)" using assms(2) by (auto simp: worker_turn_def split: if_splits)
  consider (fin) t where "tp_workers p ! i = Busy t"
      "p' = p\<lparr>tp_workers := (tp_workers p)[i := Waiting], tp_done := tp_done p @ [t]\<rparr>"
    | (stop) q where "tp_workers p ! i = Waiting" "pc_pop (tp_queue p) = Some (None, q)"
      "p' = p\<lparr>tp_queue := q, tp_workers := (tp_workers p)[i := Gone]\<rparr>"
    | (take) t q where "tp_workers p ! i = Waiting" "pc_pop (tp_queue p) = Some (Some t, q)"
      "p' = p\<lparr>tp_queue := q, tp_workers := (tp_workers p)[i := Busy t], tp_taken := tp_taken p @ [t]\<rparr>"
    using assms(2) by (auto simp: worker_turn_def split: if_splits worker.splits option.splits prod.splits)
  then show ?thesis
  proof cases
    case fin
    with assms(1) i gone_less [OF i] gone_update [OF i, of Waiting] busy_update [OF i, of Waiting] show ?thesis
      by (intro exI [of _ popped]) (auto simp: pool_inv_def ac_simps)
  next
    case stop
    with assms(1) i gone_update [OF i, of Gone] busy_update [OF i, of Gone] pc.history_pop [OF _ stop(2)]
    show ?thesis by (intro exI [of _ "popped @ [None]"]) (auto simp: pool_inv_def)
  next
    case take
    with assms(1) i gone_less [OF i] gone_update [OF i, of "Busy t"] busy_update [OF i, of "Busy t"]
      pc.history_pop [OF _ take(2)]
    show ?thesis by (intro exI [of _ "popped @ [Some t]"]) (auto simp: pool_inv_def)
  qed
qed

lemma pool_run_inv:
  assumes "pool_run (pool_new name n) h p"
  shows "\<exists>popped. pool_inv h popped p"
  using assms
proof (induction rule: pool_run.induct)
  case pool_init
  then show ?case by (simp add: pool_inv_def pool_new_def)
next
  case (pool_works h p i p')
  then show ?case using worker_turn_inv by blast
next
  case (pool_starts h p)
  then obtain popped where "pool_inv h popped p" by blast
  then show ?case
    using gone_le [of "tp_workers p"]
    by (intro exI [of _ popped]) (auto simp: pool_inv_def pool_start_def Let_def)
next
  case (pool_stops h p)
  then obtain popped where "pool_inv h popped p" by blast
  then show ?case
    by (intro exI [of _ popped]) (auto simp: pool_inv_def)
qed (auto simp: pool_inv_def pool_start_def Let_def pool_push_task_def pool_forget_def pc_push_def)

lemma stopped_pool_result:
  assumes "pool_run (pool_new name n) h p" and "h = before @ [None] @ after" and "None \<notin> set after"
    and "marks h = length (tp_workers p)" and "\<forall>w \<in> set (tp_workers p). w = Gone"
  shows "mset (tp_done p) = mset (tasks before) \<and> tp_taken p = tasks before \<and> tp_queue p = after"
proof -
  obtain popped where inv: "pool_inv h popped p" using pool_run_inv [OF assms(1)] by blast
  have "gone (tp_workers p) = length (tp_workers p)" using assms(5) by (simp add: gone_def)
  then have all: "marks popped = marks h" using inv assms(4) by (simp add: pool_inv_def)
  have app: "popped @ tp_queue p = before @ None # after" using inv assms(2) by (simp add: pool_inv_def)
  then have "marks (tp_queue p) = 0" using all inv by (auto simp: pool_inv_def)
  then have "None \<notin> set (tp_queue p)" by (force simp: marks_def filter_empty_conv)
  with app obtain zs where zs: "popped = before @ None # zs" "after = zs @ tp_queue p"
    by (auto simp: append_eq_append_conv2 append_eq_Cons_conv Cons_eq_append_conv)
  have "popped = [] \<or> last popped = None"
    using inv \<open>gone (tp_workers p) = length (tp_workers p)\<close> by (simp add: pool_inv_def)
  with zs assms(3) have "zs = []" by (cases zs rule: rev_cases) auto
  moreover have "busy (tp_workers p) = {#}"
  proof -
    have "\<forall>w \<in> set ws. w = Gone \<Longrightarrow> busy ws = {#}" for ws :: "'a worker list"
      by (induction ws) (auto simp: busy_def)
    then show ?thesis using assms(5) .
  qed
  ultimately show ?thesis using inv zs by (auto simp: pool_inv_def)
qed

text \<open>
  C19. Tasks are taken in the order in which they were pushed, none twice and none invented,
  and when as many stop marks as there are workers have ended them all, exactly the tasks
  pushed before the last mark have run to their end.
\<close>

theorem stopped_pool_has_run_all:
  assumes "pool_run (pool_new name n) h p" and "h = before @ [None] @ after" and "None \<notin> set after"
    and "marks h = length (tp_workers p)" and "\<forall>w \<in> set (tp_workers p). w = Gone"
  shows "mset (tp_done p) = mset (tasks before) \<and> tp_taken p = tasks before \<and> tp_queue p = after"
  by (rule stopped_pool_result [OF assms])

section \<open>Stop ends\<close>

text \<open>
  Once the marks are in the queue the workers need no one else: every turn brings them nearer
  to the end, and as long as one of them lives some turn is possible.
\<close>

definition work_left :: "'a pool \<Rightarrow> nat" where
  "work_left p = 2 * length (tp_queue p) + size (busy (tp_workers p))"

inductive worker_turns :: "'a pool \<Rightarrow> nat \<Rightarrow> 'a pool \<Rightarrow> bool" where
  no_turn: "worker_turns p 0 p"
| one_turn: "worker_turn i p = Some p1 \<Longrightarrow> worker_turns p1 n p2 \<Longrightarrow> worker_turns p (Suc n) p2"

lemma turn_cases:
  assumes "worker_turn i p = Some p'"
  obtains (fin) t where "i < length (tp_workers p)" "tp_workers p ! i = Busy t"
      "p' = p\<lparr>tp_workers := (tp_workers p)[i := Waiting], tp_done := tp_done p @ [t]\<rparr>"
    | (stop) q where "i < length (tp_workers p)" "tp_workers p ! i = Waiting" "tp_queue p = None # q"
      "p' = p\<lparr>tp_queue := q, tp_workers := (tp_workers p)[i := Gone]\<rparr>"
    | (take) t q where "i < length (tp_workers p)" "tp_workers p ! i = Waiting" "tp_queue p = Some t # q"
      "p' = p\<lparr>tp_queue := q, tp_workers := (tp_workers p)[i := Busy t], tp_taken := tp_taken p @ [t]\<rparr>"
proof -
  have i: "i < length (tp_workers p)" using assms by (auto simp: worker_turn_def split: if_splits)
  show thesis
    using assms i that pc.pop_Some [of "tp_queue p"]
    by (auto simp: worker_turn_def split: if_splits worker.splits option.splits prod.splits)
qed

lemma turn_decreases:
  assumes "worker_turn i p = Some p'"
  shows "work_left p' < work_left p"
  using assms
proof (cases rule: turn_cases)
  case (fin t)
  with busy_update [of i "tp_workers p" Waiting] have
    "size (busy (tp_workers p)) = Suc (size (busy ((tp_workers p)[i := Waiting])))"
    by (metis add_mset_add_single busy_of.simps(1) busy_of.simps(2) empty_neutral(2) size_add_mset)
  with fin show ?thesis by (simp add: work_left_def)
next
  case (stop q)
  with busy_update [of i "tp_workers p" Gone] show ?thesis by (simp add: work_left_def)
next
  case (take t q)
  with busy_update [of i "tp_workers p" "Busy t"] show ?thesis by (simp add: work_left_def)
qed

text \<open>As many marks in the queue as workers alive.\<close>

definition marks_for_all :: "'a pool \<Rightarrow> bool" where
  "marks_for_all p \<longleftrightarrow> marks (tp_queue p) + gone (tp_workers p) = length (tp_workers p)"

lemma turn_keeps_marks:
  assumes "worker_turn i p = Some p'" and "marks_for_all p"
  shows "marks_for_all p'"
  using assms(1)
proof (cases rule: turn_cases)
  case (fin t)
  with assms(2) gone_update [of i "tp_workers p" Waiting] show ?thesis by (simp add: marks_for_all_def)
next
  case (stop q)
  with assms(2) gone_update [of i "tp_workers p" Gone] show ?thesis by (simp add: marks_for_all_def)
next
  case (take t q)
  with assms(2) gone_update [of i "tp_workers p" "Busy t"] show ?thesis by (simp add: marks_for_all_def)
qed

lemma turn_possible:
  assumes "marks_for_all p" and "\<not> (\<forall>w \<in> set (tp_workers p). w = Gone)"
  shows "\<exists>i p'. worker_turn i p = Some p'"
proof -
  obtain i where i: "i < length (tp_workers p)" "tp_workers p ! i \<noteq> Gone"
    using assms(2) by (auto simp: in_set_conv_nth)
  have "gone (tp_workers p) < length (tp_workers p)" by (rule gone_less [OF i])
  then have "tp_queue p \<noteq> []" using assms(1) by (auto simp: marks_for_all_def)
  then obtain x q where q: "tp_queue p = x # q" by (cases "tp_queue p") auto
  show ?thesis
  proof (cases "tp_workers p ! i")
    case Waiting
    with i q show ?thesis by (intro exI [of _ i]) (cases x; simp add: worker_turn_def pc_pop_def)
  next
    case (Busy t)
    with i show ?thesis by (intro exI [of _ i]) (simp add: worker_turn_def)
  qed (use i in simp)
qed

lemma all_workers_end:
  "marks_for_all p \<Longrightarrow> \<exists>n p'. worker_turns p n p' \<and> (\<forall>w \<in> set (tp_workers p'). w = Gone)"
proof (induction "work_left p" arbitrary: p rule: less_induct)
  case less
  show ?case
  proof (cases "\<forall>w \<in> set (tp_workers p). w = Gone")
    case True
    then show ?thesis using no_turn by blast
  next
    case False
    then obtain i p1 where 1: "worker_turn i p = Some p1" using turn_possible less.prems by blast
    from less.hyps [OF turn_decreases [OF 1] turn_keeps_marks [OF 1 less.prems]] 1
    show ?thesis using one_turn by blast
  qed
qed

text \<open>
  C25. \<open>Stop\<close> comes to an end, whatever the scheduler does: once there is a stop mark for every
  worker alive, the workers can take at most \<open>work_left\<close> turns, they can go on as long as
  one of them lives, and a state in which they cannot is one in which all have left.
\<close>

theorem stop_marks_end_all_workers:
  assumes "marks_for_all p"
  shows "(\<forall>n p'. worker_turns p n p' \<longrightarrow> n \<le> work_left p \<and>
      ((\<forall>i. worker_turn i p' = None) \<longleftrightarrow> (\<forall>w \<in> set (tp_workers p'). w = Gone))) \<and>
    (\<exists>n p'. worker_turns p n p' \<and> (\<forall>w \<in> set (tp_workers p'). w = Gone))"
proof -
  have bound: "n + work_left p' \<le> work_left p \<and> marks_for_all p'"
    if "worker_turns p n p'" "marks_for_all p" for p n and p' :: "'a pool"
    using that
  proof (induction rule: worker_turns.induct)
    case (one_turn i p p1 n p2)
    with turn_decreases [OF one_turn.hyps(1)] turn_keeps_marks [OF one_turn.hyps(1)] show ?case by simp
  qed simp
  have stuck: "(\<forall>i. worker_turn i p' = None) \<longleftrightarrow> (\<forall>w \<in> set (tp_workers p'). w = Gone)"
    if "marks_for_all p'" for p' :: "'a pool"
  proof
    show "\<forall>w \<in> set (tp_workers p'). w = Gone" if "\<forall>i. worker_turn i p' = None"
      using turn_possible [OF \<open>marks_for_all p'\<close>] that by fastforce
    show "\<forall>i. worker_turn i p' = None" if "\<forall>w \<in> set (tp_workers p'). w = Gone"
    proof
      fix i
      have "i < length (tp_workers p') \<Longrightarrow> tp_workers p' ! i = Gone" using that by simp
      then show "worker_turn i p' = None" by (simp add: worker_turn_def)
    qed
  qed
  have "n \<le> work_left p \<and>
      ((\<forall>i. worker_turn i p' = None) \<longleftrightarrow> (\<forall>w \<in> set (tp_workers p'). w = Gone))"
    if "worker_turns p n p'" for n p'
    using bound [OF that assms] stuck [of p'] by simp
  then show ?thesis using all_workers_end [OF assms] by blast
qed

lemma fresh_pool_marks:
  "tp_threads p = [] \<Longrightarrow> gone (tp_workers p) = length (tp_workers p) \<Longrightarrow> marks (tp_queue p) = 0 \<Longrightarrow>
     marks_for_all (pool_stop_marks (pool_start p))"
  by (simp add: marks_for_all_def pool_start_def Let_def)

text \<open>A pool of two workers with three tasks, stopped at once.\<close>

definition demo_pool :: "nat pool" where
  "demo_pool = pool_stop_marks (pool_push_task (Some 3) (pool_push_task (Some 2)
     (pool_push_task (Some 1) (pool_start (pool_new ''p'' 2)))))"

lemma demo_pool_run: "pool_run (pool_new ''p'' 2) ([Some 1, Some 2, Some 3] @ [None, None]) demo_pool"
proof -
  let ?p = "pool_push_task (Some 3) (pool_push_task (Some 2) (pool_push_task (Some 1)
      (pool_start (pool_new ''p'' 2)))) :: nat pool"
  have "pool_run (pool_new ''p'' 2) ((([] @ [Some 1]) @ [Some 2]) @ [Some 3]) ?p"
    by (intro pool_run.intros)
  from pool_stops [OF this] show ?thesis
    by (simp add: demo_pool_def pool_push_task_def pool_start_def pool_new_def upt_rec numeral_2_eq_2)
qed

lemma demo_pool_marks: "marks_for_all demo_pool"
  by (simp add: demo_pool_def marks_for_all_def pool_push_task_def pool_start_def
      pool_new_def Let_def pc_push_def numeral_2_eq_2 gone_def)

lemma worker_turns_run: "worker_turns p n p' \<Longrightarrow> pool_run p0 h p \<Longrightarrow> pool_run p0 h p'"
  by (induction rule: worker_turns.induct) (auto intro: pool_works)

lemma worker_turns_length: "worker_turns p n p' \<Longrightarrow> length (tp_workers p') = length (tp_workers p)"
proof (induction rule: worker_turns.induct)
  case (one_turn i p p1 n p2)
  from one_turn.hyps(1) have "length (tp_workers p1) = length (tp_workers p)"
    by (cases rule: turn_cases) auto
  with one_turn show ?case by simp
qed simp

theorem stop_marks_end_all_workers_witness:
  "\<exists>n p'. worker_turns demo_pool n p' \<and> (\<forall>w \<in> set (tp_workers p'). w = Gone)"
  using stop_marks_end_all_workers [OF demo_pool_marks] by blast

theorem stopped_pool_has_run_all_witness:
  "\<exists>p. pool_run (pool_new ''p'' 2) ([Some 1, Some 2, Some 3] @ [None, None]) p \<and>
     mset (tp_done p) = {#1, 2, 3 :: nat#}"
proof -
  from all_workers_end [OF demo_pool_marks] obtain n p where p: "worker_turns demo_pool n p" "\<forall>w \<in> set (tp_workers p). w = Gone"
    by blast
  have run: "pool_run (pool_new ''p'' 2) ([Some 1, Some 2, Some 3] @ [None, None]) p"
    by (rule worker_turns_run [OF p(1) demo_pool_run])
  have "length (tp_workers p) = 2"
    using worker_turns_length [OF p(1)]
    by (simp add: demo_pool_def pool_push_task_def pool_start_def pool_new_def Let_def)
  then show ?thesis
    using stopped_pool_has_run_all [OF run, of "[Some 1, Some 2, Some 3, None]" "[]"] p(2) run
    by auto
qed

section \<open>IOServicePool\<close>

text \<open>
  An \<open>io_service\<close> is known by its address, numbered in the order of allocation; the task that
  runs it is this number, and an entry of \<open>mWork\<close> is the service it keeps alive, \<open>None\<close> after
  \<open>reset\<close>. The two counts are \<open>int\<close> members set from \<open>size_t\<close> arguments: naturals below
  \<open>2 ^ 31\<close> here. What the workers do while \<open>Stop\<close> joins them is a parameter of it.
\<close>

record io_pool =
  io_num_services :: nat
  io_num_threads :: nat
  io_next :: nat
  io_services :: "nat list"
  io_work :: "nat option list"
  io_threads :: "nat pool"
  io_heap :: nat

definition iop_new :: "string \<Rightarrow> nat \<Rightarrow> nat \<Rightarrow> io_pool" where
  "iop_new name services threads =
     \<lparr>io_num_services = services, io_num_threads = threads, io_next = 0, io_services = [],
      io_work = [], io_threads = pool_new (name @ ''.ThreadPool'') (int threads), io_heap = 0\<rparr>"

definition iop_is_running :: "io_pool \<Rightarrow> bool" where
  "iop_is_running p \<longleftrightarrow> io_work p \<noteq> []"

text \<open>The loop of \<open>Start\<close> over the threads, with the number of turns left and \<open>k\<close>.\<close>

fun iop_assign :: "nat \<Rightarrow> nat \<Rightarrow> io_pool \<Rightarrow> fault + io_pool" where
  "iop_assign 0 k p = Inr p"
| "iop_assign (Suc left) k p =
     (if length (io_services p) \<le> k then Inl OutOfBounds
      else let s = io_services p ! k
           in iop_assign left ((k + 1) mod io_num_services p)
                (p\<lparr>io_work := io_work p @ [Some s], io_threads := pool_push_task (Some s) (io_threads p)\<rparr>))"

definition iop_start :: "io_pool \<Rightarrow> fault + io_pool" where
  "iop_start p =
     (if io_work p \<noteq> [] then Inr p
      else if io_services p \<noteq> [] then Inl CheckFailed
      else let h = io_heap p; n = io_num_services p
           in case iop_assign (io_num_threads p) 0 (p\<lparr>io_services := [h..<h + n], io_heap := h + n, io_work := []\<rparr>) of
                Inl e \<Rightarrow> Inl e
              | Inr p' \<Rightarrow> Inr (p'\<lparr>io_threads := pool_start (io_threads p')\<rparr>))"

definition iop_stop :: "(nat pool \<Rightarrow> nat pool) \<Rightarrow> io_pool \<Rightarrow> io_pool" where
  "iop_stop joins p =
     (if io_work p = [] then p
      else p\<lparr>io_threads := pool_stop joins (io_threads p), io_work := [], io_services := []\<rparr>)"

definition delete_io_pool :: "(nat pool \<Rightarrow> nat pool) \<Rightarrow> io_pool \<Rightarrow> io_pool" where
  "delete_io_pool joins p = (if iop_is_running p then iop_stop joins p else p)"

lemma delete_io_pool_stops: "\<not> iop_is_running (delete_io_pool joins p)"
  by (simp add: delete_io_pool_def iop_is_running_def iop_stop_def)

definition iop_get :: "io_pool \<Rightarrow> fault + (nat \<times> io_pool)" where
  "iop_get p =
     (if length (io_services p) \<le> io_next p then Inl OutOfBounds
      else Inr (io_services p ! io_next p,
                p\<lparr>io_next := (if io_next p + 1 = length (io_services p) then 0 else io_next p + 1)\<rparr>))"

text \<open>A run of calls of \<open>GetIOService\<close>.\<close>

fun iop_gets :: "nat \<Rightarrow> io_pool \<Rightarrow> fault + (nat list \<times> io_pool)" where
  "iop_gets 0 p = Inr ([], p)"
| "iop_gets (Suc n) p =
     (case iop_get p of
        Inl e \<Rightarrow> Inl e
      | Inr (s, p1) \<Rightarrow> (case iop_gets n p1 of Inl e \<Rightarrow> Inl e | Inr (ss, p2) \<Rightarrow> Inr (s # ss, p2)))"


section \<open>Which threads run which service\<close>

definition iop_queue :: "nat \<Rightarrow> nat list \<Rightarrow> nat \<Rightarrow> nat option list" where
  "iop_queue k ss n = map (\<lambda>i. Some (ss ! ((k + i) mod length ss))) [0..<n]"

lemma iop_queue_Suc: "iop_queue k ss (Suc n) = Some (ss ! (k mod length ss)) # iop_queue (Suc k) ss n"
  unfolding iop_queue_def by (simp add: upt_conv_Cons map_Suc_upt [symmetric] del: upt_Suc)

lemma iop_queue_mod: "iop_queue (k mod length ss) ss n = iop_queue k ss n"
  by (simp add: iop_queue_def mod_add_left_eq)

lemma iop_assign_result:
  "k < length (io_services p) \<Longrightarrow> length (io_services p) = io_num_services p \<Longrightarrow>
    iop_assign n k p = Inr (p\<lparr>io_work := io_work p @ iop_queue k (io_services p) n,
       io_threads := (io_threads p)\<lparr>tp_queue := tp_queue (io_threads p) @ iop_queue k (io_services p) n\<rparr>\<rparr>)"
proof (induction n arbitrary: k p)
  case 0
  then show ?case by (simp add: iop_queue_def)
next
  case (Suc n)
  let ?s = "io_services p ! k" and ?k = "(k + 1) mod io_num_services p"
  let ?p = "p\<lparr>io_work := io_work p @ [Some ?s], io_threads := pool_push_task (Some ?s) (io_threads p)\<rparr>"
  have k: "?k < length (io_services ?p)" "length (io_services ?p) = io_num_services ?p"
    using Suc.prems by simp_all
  have "iop_queue ?k (io_services p) n = iop_queue (Suc k) (io_services p) n"
    using iop_queue_mod [of "Suc k" "io_services p" n] Suc.prems by simp
  with Suc.prems Suc.IH [OF k] show ?case
    by (simp add: Let_def iop_queue_Suc pool_push_task_def pc_push_def)
qed

text \<open>
  \<open>Start\<close> on an idle pool creates the services, gives thread \<open>i\<close> the service \<open>i mod n\<close> in
  its queue and in \<open>mWork\<close>, and starts one worker per thread. Every service is run by some thread
  exactly if there are at least as many threads as services: with fewer, handlers posted
  to the last services never run.
\<close>

theorem started_services_are_served:
  assumes "io_work p = []" and "io_services p = []" and "0 < io_num_services p"
    and "tp_queue (io_threads p) = []" and "tp_threads (io_threads p) = []"
    and "tp_size (io_threads p) = int (io_num_threads p)"
  shows "\<exists>p'. iop_start p = Inr p' \<and> length (io_services p') = io_num_services p \<and>
      distinct (io_services p') \<and> io_work p' = tp_queue (io_threads p') \<and>
      io_work p' = map (\<lambda>i. Some (io_services p' ! (i mod io_num_services p))) [0..<io_num_threads p] \<and>
      length (tp_threads (io_threads p')) = io_num_threads p \<and>
      ((\<forall>s \<in> set (io_services p'). Some s \<in> set (tp_queue (io_threads p')))
         \<longleftrightarrow> io_num_services p \<le> io_num_threads p)"
proof -
  let ?n = "io_num_services p" and ?h = "io_heap p" and ?t = "io_num_threads p"
  let ?ss = "[?h..<?h + ?n]"
  let ?p1 = "p\<lparr>io_services := ?ss, io_heap := ?h + ?n, io_work := []\<rparr>"
  let ?q = "iop_queue 0 ?ss ?t"
  obtain p' where p': "iop_start p = Inr p'" and "io_services p' = ?ss" "io_work p' = ?q"
    "tp_queue (io_threads p') = ?q" "length (tp_threads (io_threads p')) = ?t"
    using iop_assign_result [of 0 ?p1 ?t] assms
    by (simp add: iop_start_def Let_def pool_start_def)
  moreover have "?q = map (\<lambda>i. Some (?ss ! (i mod ?n))) [0..<?t]" by (simp add: iop_queue_def)
  moreover have "(\<forall>s \<in> set ?ss. Some s \<in> set ?q) \<longleftrightarrow> ?n \<le> ?t"
  proof
    assume all: "\<forall>s \<in> set ?ss. Some s \<in> set ?q"
    have "Some ` set ?ss \<subseteq> set ?q" using all by blast
    from card_mono [OF _ this] have "card (set ?ss) \<le> card (set ?q)"
      by (simp add: card_image)
    also have "\<dots> \<le> length ?q" by (rule card_length)
    finally show "?n \<le> ?t" by (simp add: iop_queue_def)
  next
    assume "?n \<le> ?t"
    show "\<forall>s \<in> set ?ss. Some s \<in> set ?q"
    proof
      fix s assume "s \<in> set ?ss"
      then have "s - ?h < ?n" "s = ?ss ! ((s - ?h) mod ?n)" by auto
      moreover from this have "s - ?h \<in> set [0..<?t]" using \<open>?n \<le> ?t\<close> by simp
      ultimately show "Some s \<in> set ?q" by (auto simp: iop_queue_def intro!: rev_image_eqI [of "s - ?h"])
    qed
  qed
  ultimately show ?thesis by auto
qed

theorem started_services_are_served_witness:
  "\<exists>p'. iop_start (iop_new ''net'' 3 2) = Inr p' \<and>
     \<not> (\<forall>s \<in> set (io_services p'). Some s \<in> set (tp_queue (io_threads p')))"
  using started_services_are_served [of "iop_new ''net'' 3 2"]
  by (force simp: iop_new_def pool_new_def)

section \<open>Round robin\<close>

lemma iop_get_result:
  "io_next p < length (io_services p) \<Longrightarrow>
     iop_get p = Inr (io_services p ! io_next p, p\<lparr>io_next := Suc (io_next p) mod length (io_services p)\<rparr>)"
  by (auto simp: iop_get_def mod_Suc)

lemma iop_gets_result:
  "io_next p < length (io_services p) \<Longrightarrow>
     iop_gets m p = Inr (map (\<lambda>j. io_services p ! ((io_next p + j) mod length (io_services p))) [0..<m],
                         p\<lparr>io_next := (io_next p + m) mod length (io_services p)\<rparr>)"
proof (induction m arbitrary: p)
  case 0
  then show ?case by simp
next
  case (Suc m)
  let ?n = "length (io_services p)"
  let ?p = "p\<lparr>io_next := Suc (io_next p) mod ?n\<rparr>"
  have "io_next ?p < length (io_services ?p)" using Suc.prems by (cases "?n") auto
  from Suc.IH [OF this] iop_get_result [OF Suc.prems] Suc.prems show ?case
    by (simp add: upt_conv_Cons map_Suc_upt [symmetric] mod_add_left_eq del: upt_Suc)
qed

text \<open>
  \<open>GetIOService\<close> hands the services out in turn: of any \<open>n\<close> calls in a row on a pool of \<open>n\<close>
  services each service is returned exactly once, in the order of the pool from the current one,
  and the pool is then as before.
\<close>

theorem get_io_service_round_robin:
  assumes "io_next p < length (io_services p)" and "distinct (io_services p)"
  shows "\<exists>ss. iop_gets (length (io_services p)) p = Inr (ss, p) \<and>
     ss = rotate (io_next p) (io_services p) \<and> mset ss = mset (io_services p) \<and> distinct ss"
proof -
  let ?n = "length (io_services p)"
  have "map (\<lambda>j. io_services p ! ((io_next p + j) mod ?n)) [0..<?n] = rotate (io_next p) (io_services p)"
    by (rule nth_equalityI) (use assms(1) in \<open>auto simp: nth_rotate\<close>)
  moreover have "mset (rotate (io_next p) (io_services p)) = mset (io_services p)"
    using assms(2) by (intro set_eq_iff_mset_eq_distinct [THEN iffD1]) simp_all
  ultimately show ?thesis
    using iop_gets_result [OF assms(1), of ?n] assms by (simp add: distinct_rotate)
qed

text \<open>
  A pool created for no threads has no second start: the first \<open>Start\<close> leaves \<open>mWork\<close> empty
  and the services in place, so it does not count as running, \<open>Stop\<close> does nothing, and the next
  \<open>Start\<close> trips its \<open>CHECK\<close>.
\<close>

theorem no_threads_no_restart:
  assumes "0 < n"
  shows "\<exists>p. iop_start (iop_new name n 0) = Inr p \<and> \<not> iop_is_running p \<and>
     iop_stop joins p = p \<and> iop_start p = Inl CheckFailed"
  using assms by (auto simp: iop_start_def iop_new_def iop_is_running_def iop_stop_def Let_def)

theorem no_threads_no_restart_witness:
  "\<exists>p. iop_start (iop_new ''net'' 2 0) = Inr p \<and> iop_start p = Inl CheckFailed"
  using no_threads_no_restart [of 2 "''net''" "\<lambda>q. q"] by auto

theorem get_io_service_round_robin_witness:
  "\<exists>p ss. iop_start (iop_new ''net'' 3 2) = Inr p \<and> iop_gets 3 p = Inr (ss, p) \<and> distinct ss"
proof -
  obtain p where p: "iop_start (iop_new ''net'' 3 2) = Inr p" "io_services p = [0, 1, 2]" "io_next p = 0"
    by (simp add: iop_start_def iop_new_def Let_def numeral_2_eq_2 upt_rec)
  then show ?thesis using get_io_service_round_robin [of p] by (auto simp: numeral_3_eq_3)
qed

end
