(* ===== verification/Coordinates.thy ===== *)
theory Coordinates
  imports Tt_Prelude
begin

text \<open>
  \<open>src/core/Coordinate.hpp\<close> and \<open>src/core/TwoDVector.hpp\<close>. The element types are \<open>int\<close>, as
  everywhere in the program: a result outside the range of \<open>int\<close> is a fault. A \<open>TMeasure&\<close>
  returned by an accessor is the index of the element in the vector. The arithmetic of
  \<open>double\<close> is left open, as the record of the operations the code uses, so that nothing here depends
  on how a platform rounds.
\<close>

section \<open>Arithmetic\<close>

record 'd dbl =
  d_of_int :: "int \<Rightarrow> 'd"
  d_trunc :: "'d \<Rightarrow> int"         \<comment> \<open>conversion to an integer, before the range check\<close>
  d_add :: "'d \<Rightarrow> 'd \<Rightarrow> 'd"
  d_pow :: "'d \<Rightarrow> 'd \<Rightarrow> 'd"
  d_zero :: 'd
  d_two :: 'd
  d_half :: 'd

definition i_add :: "int \<Rightarrow> int \<Rightarrow> int outcome" where "i_add a b = i32 (a + b)"
definition i_sub :: "int \<Rightarrow> int \<Rightarrow> int outcome" where "i_sub a b = i32 (a - b)"
definition i_mul :: "int \<Rightarrow> int \<Rightarrow> int outcome" where "i_mul a b = i32 (a * b)"
definition i_abs :: "int \<Rightarrow> int outcome" where "i_abs a = i32 \<bar>a\<bar>"

text \<open>Division rounds towards zero; \<open>INT_MIN / -1\<close> and \<open>INT_MIN % -1\<close> overflow.\<close>

definition tdiv :: "int \<Rightarrow> int \<Rightarrow> int" where
  "tdiv a b = (if (a < 0) = (b < 0) then \<bar>a\<bar> div \<bar>b\<bar> else - (\<bar>a\<bar> div \<bar>b\<bar>))"

definition i_div :: "int \<Rightarrow> int \<Rightarrow> int outcome" where
  "i_div a b = (if b = 0 then Inl DivisionByZero else i32 (tdiv a b))"

definition i_mod :: "int \<Rightarrow> int \<Rightarrow> int outcome" where
  "i_mod a b = (if b = 0 then Inl DivisionByZero
                else bind_outcome (i32 (tdiv a b)) (\<lambda>q. Inr (a - q * b)))"

definition to_int :: "'d dbl \<Rightarrow> 'd \<Rightarrow> int outcome" where
  "to_int D x = i32 (d_trunc D x)"

section \<open>Coordinate\<close>

datatype axis = AXISX | AXISY | AXISZ

fun axis_index :: "axis \<Rightarrow> nat" where
  "axis_index AXISX = 0" | "axis_index AXISY = 1" | "axis_index AXISZ = 2"

record coordinate =
  c_value :: "int list"

definition coordinate0 :: coordinate where "coordinate0 = \<lparr>c_value = []\<rparr>"
definition coordinate_of :: "int list \<Rightarrow> coordinate" where "coordinate_of ix = \<lparr>c_value = ix\<rparr>"
definition coordinate2 :: "int \<Rightarrow> int \<Rightarrow> coordinate" where "coordinate2 x y = \<lparr>c_value = [x, y]\<rparr>"
definition coordinate3 :: "int \<Rightarrow> int \<Rightarrow> int \<Rightarrow> coordinate" where
  "coordinate3 x y z = \<lparr>c_value = [x, y, z]\<rparr>"

definition vec_at :: "'a list \<Rightarrow> nat \<Rightarrow> 'a outcome" where
  "vec_at xs i = (if i < length xs then Inr (xs ! i) else Inl OutOfRange)"

definition vec_index :: "'a list \<Rightarrow> nat \<Rightarrow> 'a outcome" where
  "vec_index xs i = (if i < length xs then Inr (xs ! i) else Inl OutOfBounds)"

definition coord_getX :: "coordinate \<Rightarrow> int outcome" where
  "coord_getX c = vec_at (c_value c) (axis_index AXISX)"

text \<open>The references \<open>x()\<close>, \<open>y()\<close>, \<open>z()\<close> and \<open>operator[]\<close>, and an assignment through one.\<close>

definition coord_x :: "coordinate \<Rightarrow> nat outcome" where
  "coord_x c = (if c_value c = [] then Inl OutOfBounds else Inr (axis_index AXISX))"

definition coord_y :: "coordinate \<Rightarrow> nat outcome" where
  "coord_y c = bind_outcome (vec_at (c_value c) (axis_index AXISY)) (\<lambda>_. Inr (axis_index AXISY))"

definition coord_z :: "coordinate \<Rightarrow> nat outcome" where
  "coord_z c = bind_outcome (vec_at (c_value c) (axis_index AXISZ)) (\<lambda>_. Inr (axis_index AXISZ))"

definition coord_index :: "coordinate \<Rightarrow> int \<Rightarrow> nat outcome" where
  "coord_index c ofs =
     (if 0 \<le> ofs \<and> ofs < int (length (c_value c)) then Inr (nat ofs) else Inl OutOfBounds)"

definition coord_assign :: "coordinate \<Rightarrow> nat \<Rightarrow> int \<Rightarrow> coordinate" where
  "coord_assign c r v = c\<lparr>c_value := (c_value c)[r := v]\<rparr>"

text \<open>\<open>Get\<close> is \<open>throw()\<close>: the exception of \<open>at\<close> ends the process.\<close>

definition coord_get :: "coordinate \<Rightarrow> nat \<Rightarrow> int outcome" where
  "coord_get c i = (case vec_at (c_value c) i of Inl _ \<Rightarrow> Inl Terminated | Inr v \<Rightarrow> Inr v)"

definition normal_projection :: "coordinate \<Rightarrow> coordinate outcome" where
  "normal_projection c =
     (if c_value c = [] then Inl OutOfBounds else Inr (coordinate_of (butlast (c_value c))))"

text \<open>One summand of a distance, \<open>pow( double( abs( m - b ) ), 2.0 )\<close>, and the loop over \<open>value\<close>.\<close>

definition square_diff :: "'d dbl \<Rightarrow> int \<Rightarrow> int \<Rightarrow> 'd outcome" where
  "square_diff D m b =
     bind_outcome (i_sub m b) (\<lambda>d. bind_outcome (i_abs d) (\<lambda>a. Inr (d_pow D (d_of_int D a) (d_two D))))"

fun distance_loop :: "'d dbl \<Rightarrow> int list \<Rightarrow> coordinate \<Rightarrow> nat \<Rightarrow> 'd \<Rightarrow> 'd outcome" where
  "distance_loop D [] b i ret = Inr ret"
| "distance_loop D (m # ms) b i ret =
     bind_outcome (coord_get b i) (\<lambda>v. bind_outcome (square_diff D m v)
       (\<lambda>s. distance_loop D ms b (Suc i) (d_add D ret s)))"

definition coord_distance :: "'d dbl \<Rightarrow> coordinate \<Rightarrow> coordinate \<Rightarrow> 'd outcome" where
  "coord_distance D a b =
     bind_outcome (distance_loop D (c_value a) b (axis_index AXISX) (d_zero D))
       (\<lambda>ret. Inr (d_pow D ret (d_half D)))"

definition twod_distance :: "'d dbl \<Rightarrow> coordinate \<Rightarrow> coordinate \<Rightarrow> 'd outcome" where
  "twod_distance D a b =
     bind_outcome (vec_index (c_value a) (axis_index AXISX)) (\<lambda>ax.
     bind_outcome (vec_index (c_value b) (axis_index AXISX)) (\<lambda>bx.
     bind_outcome (square_diff D ax bx) (\<lambda>sx.
     bind_outcome (vec_index (c_value a) (axis_index AXISY)) (\<lambda>ay.
     bind_outcome (vec_index (c_value b) (axis_index AXISY)) (\<lambda>by.
     bind_outcome (square_diff D ay by) (\<lambda>sy.
     Inr (d_pow D (d_add D (d_add D (d_zero D) sx) sy) (d_half D))))))))"

section \<open>TwoDVector\<close>

record vec2 =
  m_x :: int
  m_y :: int

definition vec2_0 :: vec2 where "vec2_0 = \<lparr>m_x = 0, m_y = 0\<rparr>"
definition vec2_of :: "int \<Rightarrow> int \<Rightarrow> vec2" where "vec2_of x y = \<lparr>m_x = x, m_y = y\<rparr>"

text \<open>Every operator works on one component and then on the other.\<close>

definition both :: "(int \<Rightarrow> int \<Rightarrow> int outcome) \<Rightarrow> vec2 \<Rightarrow> vec2 \<Rightarrow> vec2 outcome" where
  "both f a b = bind_outcome (f (m_x a) (m_x b)) (\<lambda>x. bind_outcome (f (m_y a) (m_y b)) (\<lambda>y. Inr (vec2_of x y)))"

definition vec2_add :: "vec2 \<Rightarrow> vec2 \<Rightarrow> vec2 outcome" where "vec2_add self b = both i_add self b"
definition vec2_sub :: "vec2 \<Rightarrow> vec2 \<Rightarrow> vec2 outcome" where "vec2_sub self b = both i_sub self b"
definition vec2_mul :: "vec2 \<Rightarrow> int \<Rightarrow> vec2 outcome" where "vec2_mul self v = both i_mul self (vec2_of v v)"

definition vec2_distance :: "'d dbl \<Rightarrow> vec2 \<Rightarrow> vec2 \<Rightarrow> 'd outcome" where
  "vec2_distance D a b =
     bind_outcome (square_diff D (m_x a) (m_x b)) (\<lambda>sx. bind_outcome (square_diff D (m_y a) (m_y b))
       (\<lambda>sy. Inr (d_pow D (d_add D (d_add D (d_zero D) sx) sy) (d_half D))))"

text \<open>
  The operators with a vector or a number (\<open>_num\<close>) on the right. A compound assignment yields
  the pair of its value, a copy, and the new left operand.
\<close>

definition op_mod_num :: "vec2 \<Rightarrow> int \<Rightarrow> vec2 outcome" where "op_mod_num a b = both i_mod a (vec2_of b b)"
definition op_mod :: "vec2 \<Rightarrow> vec2 \<Rightarrow> vec2 outcome" where "op_mod a b = both i_mod a b"
definition op_plus_num :: "vec2 \<Rightarrow> int \<Rightarrow> vec2 outcome" where "op_plus_num a b = both i_add a (vec2_of b b)"
definition op_plus :: "vec2 \<Rightarrow> vec2 \<Rightarrow> vec2 outcome" where "op_plus a b = both i_add a b"
definition op_minus_num :: "vec2 \<Rightarrow> int \<Rightarrow> vec2 outcome" where "op_minus_num a b = both i_sub a (vec2_of b b)"
definition op_minus :: "vec2 \<Rightarrow> vec2 \<Rightarrow> vec2 outcome" where "op_minus a b = both i_sub a b"
definition op_times_num :: "vec2 \<Rightarrow> int \<Rightarrow> vec2 outcome" where "op_times_num a b = both i_mul a (vec2_of b b)"
definition op_times :: "vec2 \<Rightarrow> vec2 \<Rightarrow> vec2 outcome" where "op_times a b = both i_mul a b"
definition op_div_num :: "vec2 \<Rightarrow> int \<Rightarrow> vec2 outcome" where "op_div_num a b = both i_div a (vec2_of b b)"
definition op_div :: "vec2 \<Rightarrow> vec2 \<Rightarrow> vec2 outcome" where "op_div a b = both i_div a b"

definition assigned :: "vec2 outcome \<Rightarrow> (vec2 \<times> vec2) outcome" where
  "assigned r = bind_outcome r (\<lambda>a. Inr (a, a))"

definition op_mod_num_eq :: "vec2 \<Rightarrow> int \<Rightarrow> (vec2 \<times> vec2) outcome" where
  "op_mod_num_eq a b = assigned (both i_mod a (vec2_of b b))"
definition op_mod_eq :: "vec2 \<Rightarrow> vec2 \<Rightarrow> (vec2 \<times> vec2) outcome" where
  "op_mod_eq a b = assigned (both i_mod a b)"
definition op_plus_num_eq :: "vec2 \<Rightarrow> int \<Rightarrow> (vec2 \<times> vec2) outcome" where
  "op_plus_num_eq a b = assigned (both i_add a (vec2_of b b))"
definition op_plus_eq :: "vec2 \<Rightarrow> vec2 \<Rightarrow> (vec2 \<times> vec2) outcome" where
  "op_plus_eq a b = assigned (both i_add a b)"
definition op_minus_num_eq :: "vec2 \<Rightarrow> int \<Rightarrow> (vec2 \<times> vec2) outcome" where
  "op_minus_num_eq a b = assigned (both i_sub a (vec2_of b b))"
definition op_minus_eq :: "vec2 \<Rightarrow> vec2 \<Rightarrow> (vec2 \<times> vec2) outcome" where
  "op_minus_eq a b = assigned (both i_sub a b)"
definition op_times_num_eq :: "vec2 \<Rightarrow> int \<Rightarrow> (vec2 \<times> vec2) outcome" where
  "op_times_num_eq a b = assigned (both i_mul a (vec2_of b b))"
definition op_times_eq :: "vec2 \<Rightarrow> vec2 \<Rightarrow> (vec2 \<times> vec2) outcome" where
  "op_times_eq a b = assigned (both i_mul a b)"
definition op_div_num_eq :: "vec2 \<Rightarrow> int \<Rightarrow> (vec2 \<times> vec2) outcome" where
  "op_div_num_eq a b = assigned (both i_div a (vec2_of b b))"
definition op_div_eq :: "vec2 \<Rightarrow> vec2 \<Rightarrow> (vec2 \<times> vec2) outcome" where
  "op_div_eq a b = assigned (both i_div a b)"

text \<open>
  The overload of \<open>switch_values\<close> on a constant returns the swapped vector; the other swaps in
  place and then runs off its end without the \<open>return\<close> its type promises, which is undefined
  in C++: only the new operand is modelled. Of \<open>floor\<close> and \<open>convert\<close>, the function on a
  component is a parameter.
\<close>

definition switch_values :: "vec2 \<Rightarrow> vec2" where "switch_values a = vec2_of (m_y a) (m_x a)"
definition switch_in_place :: "vec2 \<Rightarrow> vec2" where "switch_in_place a = a\<lparr>m_x := m_y a, m_y := m_x a\<rparr>"

definition op_eq :: "vec2 \<Rightarrow> vec2 \<Rightarrow> bool" where "op_eq a b \<longleftrightarrow> m_x a = m_x b \<and> m_y a = m_y b"
definition op_neq :: "vec2 \<Rightarrow> vec2 \<Rightarrow> bool" where "op_neq a b \<longleftrightarrow> m_x a \<noteq> m_x b \<or> m_y a \<noteq> m_y b"

definition common_part :: "vec2 \<Rightarrow> vec2 \<Rightarrow> vec2" where
  "common_part a b =
     (let (first, second) = (if m_x a < m_x b then (a, b) else (b, a))
      in if m_y first < m_x second then vec2_of 0 0
         else vec2_of (m_x second) (min (m_y first) (m_y second)))"

definition vec2_floor :: "(int \<Rightarrow> int) \<Rightarrow> vec2 \<Rightarrow> vec2" where
  "vec2_floor fl a = vec2_of (fl (m_x a)) (fl (m_y a))"

definition norm_distance :: "'d dbl \<Rightarrow> int \<Rightarrow> int \<Rightarrow> int outcome" where
  "norm_distance D lon lat =
     bind_outcome (i_mul lon lon) (\<lambda>t1. bind_outcome (i_mul lat lat) (\<lambda>t2.
     bind_outcome (i_add t1 t2) (\<lambda>s. to_int D (d_pow D (d_of_int D s) (d_half D)))))"

text \<open>\<open>operator<\<close> returns its \<open>bool\<close> as a number.\<close>

definition op_less :: "vec2 \<Rightarrow> vec2 \<Rightarrow> int" where
  "op_less l r = (if m_x l < m_x r then 1 else if m_x r < m_x l then 0
                  else if m_y l < m_y r then 1 else 0)"

definition convert :: "(int \<Rightarrow> int) \<Rightarrow> vec2 \<Rightarrow> vec2" where
  "convert f a = vec2_of (f (m_x a)) (f (m_y a))"

section \<open>Distances\<close>

text \<open>
  The version of \<open>distance\<close> specialised to two dimensions and the one of \<open>TwoDVector\<close> compute
  what the general loop computes, summand by summand in the same order, whatever the
  arithmetic of \<open>double\<close> is, faults included.
\<close>

theorem twod_distance_eq_general:
  "twod_distance D (coordinate2 ax ay) (coordinate2 bx by) = coord_distance D (coordinate2 ax ay) (coordinate2 bx by) \<and>
   vec2_distance D (vec2_of ax ay) (vec2_of bx by) = coord_distance D (coordinate2 ax ay) (coordinate2 bx by)"
  by (simp add: twod_distance_def coord_distance_def vec2_distance_def coordinate2_def coord_get_def
      vec_at_def vec_index_def vec2_of_def bind_outcome_assoc)

definition diff_fits :: "int \<Rightarrow> int \<Rightarrow> bool" where
  "diff_fits m b \<longleftrightarrow> \<bar>m - b\<bar> \<le> INT_MAX"

definition square :: "'d dbl \<Rightarrow> int \<Rightarrow> 'd" where
  "square D a = d_pow D (d_of_int D a) (d_two D)"

lemma square_diff_result:
  "square_diff D m b = (if diff_fits m b then Inr (square D \<bar>m - b\<bar>) else Inl SignedOverflow)"
  by (auto simp: square_diff_def i_sub_def i_abs_def i32_def diff_fits_def int_range_defs square_def)

lemma coord_get_nth [simp]: "i < length (c_value b) \<Longrightarrow> coord_get b i = Inr (c_value b ! i)"
  by (simp add: coord_get_def vec_at_def)

lemma coord_get_out [simp]: "length (c_value b) \<le> i \<Longrightarrow> coord_get b i = Inl Terminated"
  by (simp add: coord_get_def vec_at_def)

lemma distance_loop_result:
  "i + length ms = length (c_value b) \<Longrightarrow>
     distance_loop D ms b i ret =
       (if \<forall>(m, v) \<in> set (zip ms (drop i (c_value b))). diff_fits m v
        then Inr (fold (\<lambda>(m, v) r. d_add D r (square D \<bar>m - v\<bar>)) (zip ms (drop i (c_value b))) ret)
        else Inl SignedOverflow)"
proof (induction ms arbitrary: i ret)
  case Nil
  then show ?case by simp
next
  case (Cons m ms)
  then have "drop i (c_value b) = c_value b ! i # drop (Suc i) (c_value b)"
    by (simp add: Cons_nth_drop_Suc)
  with Cons show ?case by (simp add: square_diff_result)
qed

lemma coord_distance_result:
  assumes "length (c_value a) = length (c_value b)"
  shows "coord_distance D a b =
    (if list_all2 diff_fits (c_value a) (c_value b)
     then Inr (d_pow D (fold (\<lambda>(m, v) r. d_add D r (square D \<bar>m - v\<bar>)) (zip (c_value a) (c_value b)) (d_zero D)) (d_half D))
     else Inl SignedOverflow)"
  using assms by (simp add: coord_distance_def distance_loop_result list_all2_iff bind_outcome_def)

text \<open>
  C40. Between coordinates of as many dimensions, \<open>distance\<close> is symmetric and returns exactly if
  no two components differ by more than \<open>INT_MAX\<close>; otherwise the difference or its absolute value
  overflows.
\<close>

theorem distance_symmetric_and_bounded:
  assumes "length (c_value a) = length (c_value b)"
  shows "coord_distance D a b = coord_distance D b a \<and>
    ((\<exists>d. coord_distance D a b = Inr d) \<longleftrightarrow> (\<forall>i < length (c_value a). \<bar>c_value a ! i - c_value b ! i\<bar> \<le> INT_MAX)) \<and>
    (coord_distance D a b = Inl SignedOverflow \<or> (\<exists>d. coord_distance D a b = Inr d))"
proof -
  have fold: "fold (\<lambda>(m, v) r. d_add D r (square D \<bar>m - v\<bar>)) (zip xs ys) r =
      fold (\<lambda>(m, v) r. d_add D r (square D \<bar>m - v\<bar>)) (zip ys xs) r"
    if "length xs = length ys" for xs ys r
    using that by (induction xs ys arbitrary: r rule: list_induct2) (simp_all add: abs_minus_commute)
  have "list_all2 diff_fits (c_value a) (c_value b) = list_all2 diff_fits (c_value b) (c_value a)"
    using assms by (auto simp: list_all2_conv_all_nth diff_fits_def abs_minus_commute)
  then show ?thesis
    using assms fold [OF assms]
    by (auto simp: coord_distance_result list_all2_conv_all_nth diff_fits_def)
qed

text \<open>
  With a second point of fewer dimensions (the default constructor makes one of none) \<open>distance\<close>
  does not return: an earlier overflow, or the \<open>at\<close> inside \<open>Get\<close>, which may not throw, ends the
  process.
\<close>

theorem distance_to_shorter_terminates:
  assumes "length (c_value b) < length (c_value a)"
  shows "(\<exists>e. coord_distance D a b = Inl e) \<and>
    ((\<forall>i < length (c_value b). \<bar>c_value a ! i - c_value b ! i\<bar> \<le> INT_MAX)
       \<longrightarrow> coord_distance D a b = Inl Terminated)"
proof -
  have loop: "(\<exists>e. distance_loop D ms b i r = Inl e) \<and>
      ((\<forall>j < length (c_value b) - i. diff_fits (ms ! j) (c_value b ! (i + j))) \<longrightarrow> distance_loop D ms b i r = Inl Terminated)"
    if "length (c_value b) < i + length ms" "i \<le> length (c_value b)" for ms i r
    using that
  proof (induction ms arbitrary: i r)
    case (Cons m ms)
    show ?case
    proof (cases "i = length (c_value b)")
      case True
      then show ?thesis by simp
    next
      case False
      with Cons.prems have i: "i < length (c_value b)" by simp
      show ?thesis
      proof (cases "diff_fits m (c_value b ! i)")
        case True
        have shift: "\<forall>j < length (c_value b) - Suc i. diff_fits (ms ! j) (c_value b ! (Suc i + j))"
          if "\<forall>j < length (c_value b) - i. diff_fits ((m # ms) ! j) (c_value b ! (i + j))"
        proof (intro allI impI)
          fix j assume "j < length (c_value b) - Suc i"
          then show "diff_fits (ms ! j) (c_value b ! (Suc i + j))"
            using that [rule_format, of "Suc j"] by simp
        qed
        from Cons.IH [of "Suc i" "d_add D r (square D \<bar>m - c_value b ! i\<bar>)"] Cons.prems i True shift
        show ?thesis by (simp add: square_diff_result)
      next
        case False
        with i show ?thesis by (auto simp: square_diff_result intro!: exI [of _ 0])
      qed
    qed
  qed simp
  from loop [of 0 "c_value a" "d_zero D"] assms show ?thesis
    by (auto simp: coord_distance_def diff_fits_def bind_outcome_def)
qed

text \<open>
  On intervals \<open>[m_x, m_y]\<close>, \<open>common_part\<close> is the intersection, in either order of the
  arguments; intervals that do not meet give (0, 0).
\<close>

theorem common_part_intersection:
  assumes "m_x a \<le> m_y a" and "m_x b \<le> m_y b"
  shows "common_part a b = common_part b a \<and>
    (if {m_x a..m_y a} \<inter> {m_x b..m_y b} = {} then common_part a b = vec2_of 0 0
     else {m_x (common_part a b)..m_y (common_part a b)} = {m_x a..m_y a} \<inter> {m_x b..m_y b})"
proof -
  have "common_part a b = common_part b a"
    using assms by (cases "m_x a = m_x b") (auto simp: common_part_def vec2_of_def min.commute)
  moreover have "if {m_x a..m_y a} \<inter> {m_x b..m_y b} = {} then common_part a b = vec2_of 0 0
     else {m_x (common_part a b)..m_y (common_part a b)} = {m_x a..m_y a} \<inter> {m_x b..m_y b}"
  proof (cases "m_x a < m_x b")
    case True
    with assms show ?thesis by (auto simp: common_part_def vec2_of_def)
  next
    case False
    with assms show ?thesis by (auto simp: common_part_def vec2_of_def)
  qed
  ultimately show ?thesis by blast
qed

theorem common_part_intersection_witness:
  "{m_x (common_part (vec2_of 1 4) (vec2_of 3 9))..m_y (common_part (vec2_of 1 4) (vec2_of 3 9))} = {1..4} \<inter> {3..9}"
  using common_part_intersection [of "vec2_of 1 4" "vec2_of 3 9"] by (auto simp: vec2_of_def)

text \<open>The pairs of \<open>testCommonPart\<close>, which expects (2, 2) and (0, 0), are no intervals.\<close>

lemma common_part_test:
  "common_part (vec2_of 3 2) (vec2_of 2 3) = vec2_of 3 2 \<and> common_part (vec2_of 5 0) (vec2_of 0 5) = vec2_of 5 0"
  by (simp add: common_part_def vec2_of_def)

section \<open>Operators of TwoDVector\<close>

definition vec2_range :: "vec2 \<Rightarrow> bool" where
  "vec2_range a \<longleftrightarrow> in_i32 (m_x a) \<and> in_i32 (m_y a)"

lemma tdiv_remainder:
  assumes "b \<noteq> 0"
  shows "\<bar>a - tdiv a b * b\<bar> < \<bar>b\<bar>" "0 \<le> (a - tdiv a b * b) * a" "\<bar>tdiv a b * b\<bar> \<le> \<bar>a\<bar>"
    "a < 0 \<Longrightarrow> tdiv a b * b \<le> 0"
proof -
  have eq: "\<bar>a\<bar> - \<bar>a\<bar> div \<bar>b\<bar> * \<bar>b\<bar> = \<bar>a\<bar> mod \<bar>b\<bar>" by (simp add: minus_div_mult_eq_mod)
  have m: "0 \<le> \<bar>a\<bar> mod \<bar>b\<bar>" "\<bar>a\<bar> mod \<bar>b\<bar> < \<bar>b\<bar>" using assms by simp_all
  have prod: "tdiv a b * b = (if a < 0 then - (\<bar>a\<bar> div \<bar>b\<bar> * \<bar>b\<bar>) else \<bar>a\<bar> div \<bar>b\<bar> * \<bar>b\<bar>)"
    by (auto simp: tdiv_def)
  have r: "a - tdiv a b * b = (if a < 0 then - (\<bar>a\<bar> mod \<bar>b\<bar>) else \<bar>a\<bar> mod \<bar>b\<bar>)"
    unfolding prod using eq by auto
  from r m show "\<bar>a - tdiv a b * b\<bar> < \<bar>b\<bar>" by simp
  from r m show "0 \<le> (a - tdiv a b * b) * a" by (auto simp: mult_nonneg_nonneg mult_nonneg_nonpos)
  have "0 \<le> \<bar>a\<bar> div \<bar>b\<bar> * \<bar>b\<bar>" using assms by (intro mult_nonneg_nonneg) (simp_all add: pos_imp_zdiv_nonneg_iff)
  with prod eq m show "\<bar>tdiv a b * b\<bar> \<le> \<bar>a\<bar>" by (auto split: if_splits)
  show "a < 0 \<Longrightarrow> tdiv a b * b \<le> 0" using \<open>0 \<le> \<bar>a\<bar> div \<bar>b\<bar> * \<bar>b\<bar>\<close> prod by simp
qed

lemma i_div_mod:
  assumes "i_div a b = Inr q" and "in_i32 a"
  shows "i_mod a b = Inr (a - q * b) \<and> i_mul q b = Inr (q * b) \<and> i_add (q * b) (a - q * b) = Inr a \<and>
     \<bar>a - q * b\<bar> < \<bar>b\<bar> \<and> 0 \<le> (a - q * b) * a"
proof -
  from assms(1) have b: "b \<noteq> 0" and q: "q = tdiv a b" "in_i32 (tdiv a b)"
    by (auto simp: i_div_def i32_def split: if_splits)
  have "in_i32 (q * b)"
  proof (cases "a = INT_MIN")
    case False
    then show ?thesis using tdiv_remainder(3) [OF b, of a] assms(2) q(1) by (auto simp: int_range_defs)
  next
    case True
    then have "q * b \<le> 0" using tdiv_remainder(4) [OF b, of a] q(1) by (simp add: INT_MIN_def)
    with True show ?thesis using tdiv_remainder(3) [OF b, of a] q(1) by (auto simp: int_range_defs)
  qed
  with b q assms(2) tdiv_remainder [OF b, of a] show ?thesis
    by (simp add: i_mod_def i_mul_def i_add_def)
qed

text \<open>
  Division and remainder of vectors fit together component by component: where \<open>operator/\<close>
  returns, so does \<open>operator%\<close>, the quotient times the divisor plus the remainder is the dividend
  without overflow, and the remainder is smaller than the divisor and has the sign of the dividend.
\<close>

theorem division_with_remainder:
  assumes "op_div a b = Inr q" and "vec2_range a"
  shows "\<exists>r p. op_mod a b = Inr r \<and> op_times q b = Inr p \<and> op_plus p r = Inr a \<and>
     \<bar>m_x r\<bar> < \<bar>m_x b\<bar> \<and> \<bar>m_y r\<bar> < \<bar>m_y b\<bar> \<and> 0 \<le> m_x r * m_x a \<and> 0 \<le> m_y r * m_y a"
proof -
  from assms(1) have q: "i_div (m_x a) (m_x b) = Inr (m_x q)" "i_div (m_y a) (m_y b) = Inr (m_y q)"
    by (auto simp: op_div_def both_def vec2_of_def)
  from assms(2) have r: "in_i32 (m_x a)" "in_i32 (m_y a)" by (simp_all add: vec2_range_def)
  show ?thesis
    using i_div_mod [OF q(1) r(1)] i_div_mod [OF q(2) r(2)]
    by (intro exI [of _ "vec2_of (m_x a - m_x q * m_x b) (m_y a - m_y q * m_y b)"]
        exI [of _ "vec2_of (m_x q * m_x b) (m_y q * m_y b)"])
      (simp add: op_mod_def op_times_def op_plus_def both_def vec2_of_def)
qed

theorem division_with_remainder_witness:
  "\<exists>q r. op_div (vec2_of (- 7) 7) (vec2_of 2 (- 2)) = Inr q \<and> op_mod (vec2_of (- 7) 7) (vec2_of 2 (- 2)) = Inr r \<and>
     \<bar>m_x r\<bar> < 2"
proof -
  have q: "op_div (vec2_of (- 7) 7) (vec2_of 2 (- 2)) = Inr (vec2_of (- 3) (- 3))"
    by (simp add: op_div_def both_def vec2_of_def i_div_def tdiv_def i32_def int_range_defs)
  from division_with_remainder [OF q] show ?thesis
    using q by (auto simp: vec2_range_def vec2_of_def int_range_defs)
qed

text \<open>The order of \<open>operator<\<close>, by the first component and then by the second.\<close>

lemma vec2_eq_iff:
  "x = y \<longleftrightarrow> m_x x = m_x y \<and> m_y x = m_y y \<and> vec2.more x = vec2.more y" for x :: "'a vec2_scheme"
  by (cases x; cases y) simp

instantiation vec2_ext :: (linorder) linorder
begin

definition less_vec2_ext :: "'a vec2_ext \<Rightarrow> 'a vec2_ext \<Rightarrow> bool" where
  "less_vec2_ext l r \<longleftrightarrow> m_x l < m_x r \<or> m_x l = m_x r \<and>
     (m_y l < m_y r \<or> m_y l = m_y r \<and> vec2.more l < vec2.more r)"

definition less_eq_vec2_ext :: "'a vec2_ext \<Rightarrow> 'a vec2_ext \<Rightarrow> bool" where
  "less_eq_vec2_ext l r \<longleftrightarrow> l < r \<or> l = r"

instance
  by standard (auto simp: less_vec2_ext_def less_eq_vec2_ext_def vec2_eq_iff)

end

lemma op_less_iff: "op_less l r = (if l < r then 1 else 0)"
  by (auto simp: op_less_def less_vec2_ext_def)

lemma op_eq_iff: "op_eq a b \<longleftrightarrow> a = b" "op_neq a b \<longleftrightarrow> a \<noteq> b"
  by (simp_all add: op_eq_def op_neq_def) (auto intro: vec2.equality)

text \<open>
  \<open>operator<\<close> is the lexicographic order and fit for sorted containers: it is 1 for exactly one
  of two vectors that \<open>operator!=\<close> tells apart and 0 for equal ones, and it is transitive.
\<close>

theorem op_less_strict_order:
  "op_less a b + op_less b a = (if op_neq a b then 1 else 0) \<and>
   (op_less a b = 1 \<and> op_less b c = 1 \<longrightarrow> op_less a c = 1) \<and> (op_eq a b \<longleftrightarrow> \<not> op_neq a b)"
  by (auto simp: op_less_iff op_eq_iff)

section \<open>Exact arithmetic\<close>

text \<open>
  With real numbers for \<open>double\<close> the distance is the Euclidean one; \<open>std::abs\<close> and the squares
  of the code lose nothing.
\<close>

definition exact :: "real dbl" where
  "exact = \<lparr>d_of_int = real_of_int, d_trunc = (\<lambda>x. \<lfloor>x\<rfloor>), d_add = (+), d_pow = (powr),
            d_zero = 0, d_two = 2, d_half = 1 / 2\<rparr>"

lemma exact_simps [simp]:
  "d_add exact = (+)" "d_zero exact = 0" "0 \<le> a \<Longrightarrow> square exact a = (real_of_int a)\<^sup>2"
  "0 \<le> x \<Longrightarrow> d_pow exact x (d_half exact) = sqrt x" "d_trunc exact x = \<lfloor>x\<rfloor>"
  by (simp_all add: exact_def square_def powr_half_sqrt)

lemma exact_distance3:
  assumes "\<bar>ax - bx\<bar> \<le> INT_MAX" "\<bar>ay - by\<bar> \<le> INT_MAX" "\<bar>az - bz\<bar> \<le> INT_MAX"
  shows "coord_distance exact (coordinate3 ax ay az) (coordinate3 bx by bz) =
    Inr (sqrt ((real_of_int (ax - bx))\<^sup>2 + (real_of_int (ay - by))\<^sup>2 + (real_of_int (az - bz))\<^sup>2))"
  using assms by (simp add: coord_distance_result coordinate3_def diff_fits_def)

theorem distance_symmetric_and_bounded_witness:
  "coord_distance exact (coordinate3 0 0 0) (coordinate3 1 0 0) = coord_distance exact (coordinate3 1 0 0) (coordinate3 0 0 0) \<and>
   (\<exists>d. coord_distance exact (coordinate3 0 0 0) (coordinate3 1 0 0) = Inr d)"
proof -
  have fits: "\<forall>i < length (c_value (coordinate3 0 0 0)).
      \<bar>c_value (coordinate3 0 0 0) ! i - c_value (coordinate3 1 0 0) ! i\<bar> \<le> INT_MAX"
    by (auto simp: coordinate3_def nth_Cons INT_MAX_def split: nat.split)
  have len: "length (c_value (coordinate3 0 0 0)) = length (c_value (coordinate3 1 0 0))"
    by (simp add: coordinate3_def)
  from distance_symmetric_and_bounded [OF len, of exact] fits show ?thesis by blast
qed

end
