(* ===== verification/World_Model.thy ===== *)
theory World_Model
  imports Coordinates
begin

text \<open>
  \<open>src/core/model/\<close>: nodes, tracks, branches, routes and the types of cargo and nodes. Nodes
  and tracks are shared objects behind \<open>shared_ptr\<close>s: a pointer is an address in the world, or
  null. A member a constructor leaves without a value is a parameter of the constructor.
\<close>

section \<open>Node and Track\<close>

record node =
  n_pos :: coordinate

definition node_new :: node where "node_new = \<lparr>n_pos = coordinate0\<rparr>"
definition node_at :: "coordinate \<Rightarrow> node" where "node_at position = \<lparr>n_pos = position\<rparr>"
definition node_copy :: "node \<Rightarrow> node" where "node_copy orig = \<lparr>n_pos = coordinate0\<rparr>"
definition node_set_pos :: "coordinate \<Rightarrow> node \<Rightarrow> node" where "node_set_pos pos n = n\<lparr>n_pos := pos\<rparr>"
definition node_get_pos :: "node \<Rightarrow> coordinate" where "node_get_pos n = n_pos n"

record track =
  t_cachedLen :: int

definition track_new :: "int \<Rightarrow> track" where "track_new junk = \<lparr>t_cachedLen = junk\<rparr>"
definition track_copy :: "int \<Rightarrow> track \<Rightarrow> track" where "track_copy junk orig = \<lparr>t_cachedLen = junk\<rparr>"

definition track_len :: "track \<Rightarrow> int \<times> track" where
  "track_len t = (let t' = (if t_cachedLen t = 0 then t\<lparr>t_cachedLen := 0\<rparr> else t) in (t_cachedLen t', t'))"

record world =
  w_nodes :: "nat \<Rightarrow> node option"
  w_tracks :: "nat \<Rightarrow> track option"

section \<open>Branch\<close>

record branch =
  b_startNode :: "nat option"
  b_endNode :: "nat option"
  b_tracks :: "nat list"
  b_cachedLen :: int

definition branch_new :: branch where
  "branch_new = \<lparr>b_startNode = None, b_endNode = None, b_tracks = [], b_cachedLen = 0\<rparr>"

definition branch_between :: "nat option \<Rightarrow> nat option \<Rightarrow> branch" where
  "branch_between s e = \<lparr>b_startNode = s, b_endNode = e, b_tracks = [], b_cachedLen = 0\<rparr>"

definition branch_copy :: "int \<Rightarrow> branch \<Rightarrow> branch" where
  "branch_copy junk orig = \<lparr>b_startNode = None, b_endNode = None, b_tracks = [], b_cachedLen = junk\<rparr>"

definition set_end_node :: "nat option \<Rightarrow> branch \<Rightarrow> branch" where "set_end_node e b = b\<lparr>b_endNode := e\<rparr>"
definition get_end_node :: "branch \<Rightarrow> nat option" where "get_end_node b = b_endNode b"
definition set_start_node :: "nat option \<Rightarrow> branch \<Rightarrow> branch" where "set_start_node s b = b\<lparr>b_startNode := s\<rparr>"
definition get_start_node :: "branch \<Rightarrow> nat option" where "get_start_node b = b_startNode b"

text \<open>\<open>p->GetPos()\<close>, and the loop of \<open>Len\<close> over the tracks.\<close>

definition pos_of :: "world \<Rightarrow> nat option \<Rightarrow> coordinate outcome" where
  "pos_of w p = (case p of None \<Rightarrow> Inl NullDeref
     | Some a \<Rightarrow> (case w_nodes w a of None \<Rightarrow> Inl UseAfterFree | Some n \<Rightarrow> Inr (node_get_pos n)))"

fun sum_tracks :: "nat list \<Rightarrow> int \<Rightarrow> world \<Rightarrow> (int \<times> world) outcome" where
  "sum_tracks [] acc w = Inr (acc, w)"
| "sum_tracks (t # ts) acc w =
     (case w_tracks w t of
        None \<Rightarrow> Inl NullDeref
      | Some tr \<Rightarrow> (let (l, tr') = track_len tr
          in bind_outcome (i_add acc l) (\<lambda>acc'. sum_tracks ts acc' (w\<lparr>w_tracks := (w_tracks w)(t \<mapsto> tr')\<rparr>))))"

definition branch_len :: "'d dbl \<Rightarrow> bool \<Rightarrow> branch \<Rightarrow> world \<Rightarrow> (int \<times> branch \<times> world) outcome" where
  "branch_len D flush b w =
     (let b1 = (if flush then b\<lparr>b_cachedLen := 0\<rparr> else b)
      in if b_cachedLen b1 \<noteq> 0 then Inr (b_cachedLen b1, b1, w)
         else if b_tracks b1 \<noteq> []
         then bind_outcome (sum_tracks (b_tracks b1) (b_cachedLen b1) w)
                (\<lambda>(l, w'). Inr (l, b1\<lparr>b_cachedLen := l\<rparr>, w'))
         else bind_outcome (pos_of w (b_endNode b1)) (\<lambda>e. bind_outcome (pos_of w (b_startNode b1))
                (\<lambda>s. bind_outcome (coord_distance D e s) (\<lambda>d. bind_outcome (to_int D d)
                  (\<lambda>l. Inr (l, b1\<lparr>b_cachedLen := l\<rparr>, w))))))"

section \<open>Route, CargoType, NodeType\<close>

text \<open>Their copy constructors have empty bodies and start from the default base and members.\<close>

record route = branch +
  r_branches :: "nat list"

definition route_new :: route where
  "route_new = branch.extend branch_new \<lparr>r_branches = []\<rparr>"

definition route_copy :: "route \<Rightarrow> route" where
  "route_copy orig = branch.extend branch_new \<lparr>r_branches = []\<rparr>"

record cargo_type =
  ct_id :: int
  ct_name :: string

definition cargo_type_new :: "int \<Rightarrow> cargo_type" where "cargo_type_new junk = \<lparr>ct_id = junk, ct_name = []\<rparr>"
definition cargo_type_copy :: "int \<Rightarrow> cargo_type \<Rightarrow> cargo_type" where
  "cargo_type_copy junk orig = \<lparr>ct_id = junk, ct_name = []\<rparr>"

record node_type =
  nt_served :: "int list"
  nt_consume :: "int list"
  nt_emit :: "int list"

definition node_type_new :: node_type where "node_type_new = \<lparr>nt_served = [], nt_consume = [], nt_emit = []\<rparr>"
definition node_type_copy :: "node_type \<Rightarrow> node_type" where
  "node_type_copy orig = \<lparr>nt_served = [], nt_consume = [], nt_emit = []\<rparr>"

section \<open>Lengths\<close>

text \<open>What \<open>Len\<close> computes when it computes: the sum of the tracks, or the distance of the ends.\<close>

fun track_sum :: "world \<Rightarrow> nat list \<Rightarrow> int \<Rightarrow> int outcome" where
  "track_sum w [] acc = Inr acc"
| "track_sum w (t # ts) acc =
     (case w_tracks w t of None \<Rightarrow> Inl NullDeref
      | Some tr \<Rightarrow> bind_outcome (i_add acc (t_cachedLen tr)) (track_sum w ts))"

definition true_len :: "'d dbl \<Rightarrow> world \<Rightarrow> branch \<Rightarrow> int outcome" where
  "true_len D w b =
     (if b_tracks b \<noteq> [] then track_sum w (b_tracks b) 0
      else bind_outcome (pos_of w (b_endNode b)) (\<lambda>e. bind_outcome (pos_of w (b_startNode b))
             (\<lambda>s. bind_outcome (coord_distance D e s) (to_int D))))"

lemma track_len_result [simp]: "track_len t = (t_cachedLen t, t)"
  by (simp add: track_len_def Let_def)

lemma sum_tracks_result: "sum_tracks ts acc w = bind_outcome (track_sum w ts acc) (\<lambda>l. Inr (l, w))"
proof (induction ts arbitrary: acc)
  case (Cons t ts)
  show ?case
  proof (cases "w_tracks w t")
    case (Some tr)
    then have "(w_tracks w)(t \<mapsto> tr) = w_tracks w" by auto
    with Some Cons show ?thesis by (simp add: bind_outcome_assoc)
  qed simp
qed simp

lemma true_len_cached [simp]: "true_len D w (b\<lparr>b_cachedLen := c\<rparr>) = true_len D w b"
  by (simp add: true_len_def)

lemma branch_len_result:
  "branch_len D flush b w =
     (if \<not> flush \<and> b_cachedLen b \<noteq> 0 then Inr (b_cachedLen b, b, w)
      else bind_outcome (true_len D w b) (\<lambda>l. Inr (l, b\<lparr>b_cachedLen := l\<rparr>, w)))"
  by (auto simp: branch_len_def true_len_def sum_tracks_result bind_outcome_assoc)

definition cache_ok :: "'d dbl \<Rightarrow> world \<Rightarrow> branch \<Rightarrow> bool" where
  "cache_ok D w b \<longleftrightarrow> b_cachedLen b = 0 \<or> true_len D w b = Inr (b_cachedLen b)"

text \<open>
  \<open>Len\<close> changes nothing but the cache and returns the sum of the tracks or the distance of the
  end nodes; as long as neither end has moved since the cache was filled, the cached call and
  the flushing call give the same, errors included, and leave the cache coherent.
\<close>

theorem branch_len_coherent:
  assumes "cache_ok D w b"
  shows "branch_len D flush b w = bind_outcome (true_len D w b) (\<lambda>l. Inr (l, b\<lparr>b_cachedLen := l\<rparr>, w)) \<and>
    (\<forall>l b' w'. branch_len D flush b w = Inr (l, b', w') \<longrightarrow>
       cache_ok D w' b' \<and> branch_len D False b' w' = Inr (l, b', w') \<and> branch_len D True b' w' = Inr (l, b', w'))"
  using assms by (auto simp: branch_len_result cache_ok_def)

text \<open>The world of \<open>testBranch\<close> with one more node.\<close>

definition demo_world :: world where
  "demo_world = \<lparr>w_nodes = [0 \<mapsto> node_at (coordinate3 0 0 0), 1 \<mapsto> node_at (coordinate3 1 0 0),
      2 \<mapsto> node_at (coordinate3 5 0 0)], w_tracks = Map.empty\<rparr>"

lemma demo_len:
  "true_len exact demo_world (branch_between (Some 0) (Some 1)) = Inr 1"
  "true_len exact demo_world (branch_between (Some 0) (Some 2)) = Inr 5"
  by (simp_all add: true_len_def branch_between_def demo_world_def pos_of_def node_get_pos_def node_at_def
      exact_distance3 to_int_def i32_def int_range_defs)

theorem branch_len_coherent_witness:
  "branch_len exact False (branch_between (Some 0) (Some 1)) demo_world =
     Inr (1, (branch_between (Some 0) (Some 1))\<lparr>b_cachedLen := 1\<rparr>, demo_world)"
  using branch_len_coherent [of exact demo_world "branch_between (Some 0) (Some 1)" False] demo_len(1)
  by (simp add: cache_ok_def branch_between_def)

text \<open>
  The setters leave the cache as it is: after \<open>Len\<close> has returned 1, a branch whose end is set to
  a node at distance 5 still has length 1, until a call with \<open>flush\<close>.
\<close>

theorem set_end_node_keeps_old_length:
  "\<exists>b. branch_len exact False (branch_between (Some 0) (Some 1)) demo_world = Inr (1, b, demo_world) \<and>
     (\<exists>b'. branch_len exact False (set_end_node (Some 2) b) demo_world = Inr (1, b', demo_world)) \<and>
     (\<exists>b'. branch_len exact True (set_end_node (Some 2) b) demo_world = Inr (5, b', demo_world))"
proof -
  have set: "set_end_node (Some 2) ((branch_between (Some 0) (Some 1))\<lparr>b_cachedLen := 1\<rparr>) =
      (branch_between (Some 0) (Some 2))\<lparr>b_cachedLen := 1\<rparr>"
    by (simp add: set_end_node_def branch_between_def)
  have len: "b_cachedLen (branch_between s e) = 0" for s e by (simp add: branch_between_def)
  show ?thesis
    by (rule exI [of _ "(branch_between (Some 0) (Some 1))\<lparr>b_cachedLen := 1\<rparr>"])
      (simp only: set branch_len_result true_len_cached demo_len len bind_outcome_simps branch.simps
        branch.update_convs simp_thms if_True if_False sum.inject prod.inject ex_simps, simp)
qed

text \<open>
  A copy of a node, a branch, a route, a cargo type or a node type has nothing of its original:
  copies of any two are equal, and \<open>Len\<close> of a copied route dereferences a null pointer.
\<close>

theorem copies_forget_their_originals:
  "node_copy n = node_copy n' \<and> c_value (node_get_pos (node_copy n)) = [] \<and>
   branch_copy j b = branch_copy j b' \<and> get_end_node (branch_copy j b) = None \<and>
   route_copy r = route_new \<and> cargo_type_copy j c = cargo_type_new j \<and> node_type_copy t = node_type_new \<and>
   branch_len D flush (branch.truncate (route_copy r)) w = Inl NullDeref"
  by (simp add: node_copy_def node_get_pos_def coordinate0_def branch_copy_def get_end_node_def
      route_copy_def route_new_def cargo_type_copy_def cargo_type_new_def node_type_copy_def
      node_type_new_def branch_len_result true_len_def branch.defs branch_new_def pos_of_def)

end
