(* ===== verification/Clients.thy ===== *)
theory Clients
  imports Coordinates "HOL-Library.AList"
begin

text \<open>
  The players of a game: \<open>src/core/ConcurrentContainer.hpp\<close> and \<open>.cpp\<close>, \<open>Client.hpp\<close>,
  \<open>Clients.hpp\<close>, \<open>ViewPort.hpp\<close> and \<open>Game.hpp\<close> of \<open>src/server/\<close>, and the service
  \<open>src/server/network/RpcServiceClients.hpp\<close>. Objects behind a \<open>shared_ptr\<close> live at addresses
  of the state; a pointer is an address or null. Requests and responses are the messages of
  \<open>general.proto\<close>, an optional field without a value being \<open>None\<close>.
\<close>

section \<open>ConcurrentContainer\<close>

text \<open>
  The predicate of a container is a function of the new item and of an old one, and may fault.
  \<open>std::find_if\<close> stops at the first match. The counter \<open>mpNextItemID\<close> is never read.
\<close>

record 'i container =
  cc_items :: "'i list"
  cc_next :: u64

definition cc_new :: "u64 \<Rightarrow> 'i container" where
  "cc_new startFrom = \<lparr>cc_items = [], cc_next = startFrom\<rparr>"

definition empty_unique_predicate :: "'i \<Rightarrow> 'i \<Rightarrow> bool outcome" where
  "empty_unique_predicate new item = Inr False"

fun find_if :: "('i \<Rightarrow> bool outcome) \<Rightarrow> 'i list \<Rightarrow> bool outcome" where
  "find_if p [] = Inr False"
| "find_if p (x # xs) = bind_outcome (p x) (\<lambda>b. if b then Inr True else find_if p xs)"

definition cc_add :: "('i \<Rightarrow> 'i \<Rightarrow> bool outcome) \<Rightarrow> 'i \<Rightarrow> 'i container \<Rightarrow> (nat \<times> 'i container) outcome" where
  "cc_add uniq item c =
     (if item \<in> set (cc_items c) then Inr (0, c)
      else bind_outcome (find_if (uniq item) (cc_items c))
        (\<lambda>found. if found then Inr (0, c)
                 else let items = cc_items c @ [item] in Inr (length items, c\<lparr>cc_items := items\<rparr>)))"

definition cc_size :: "'i container \<Rightarrow> nat" where
  "cc_size c = length (cc_items c)"

definition cc_get :: "'i \<Rightarrow> nat \<Rightarrow> 'i container \<Rightarrow> 'i outcome" where
  "cc_get dflt index c =
     (if index \<noteq> 0 \<and> index \<le> cc_size c then vec_at (cc_items c) (index - 1) else Inr dflt)"

text \<open>
  The contract of a container towards its users: a number is granted once and for all, and no
  two numbers have items with the same key.
\<close>

locale id_registry =
  fixes add :: "'i \<Rightarrow> 'c \<Rightarrow> (nat \<times> 'c) outcome" and get :: "nat \<Rightarrow> 'c \<Rightarrow> 'i option"
    and key :: "'i \<Rightarrow> 'k" and inv :: "'c \<Rightarrow> bool" and valid :: "'i \<Rightarrow> bool"
  assumes add_total: "inv c \<Longrightarrow> valid i \<Longrightarrow> \<exists>n c'. add i c = Inr (n, c')"
    and add_inv: "inv c \<Longrightarrow> valid i \<Longrightarrow> add i c = Inr (n, c') \<Longrightarrow> inv c'"
    and add_grants: "inv c \<Longrightarrow> valid i \<Longrightarrow> add i c = Inr (n, c') \<Longrightarrow> n \<noteq> 0 \<Longrightarrow> get n c' = Some i"
    and add_refuses: "inv c \<Longrightarrow> valid i \<Longrightarrow> add i c = Inr (0, c') \<Longrightarrow> c' = c \<and> (\<exists>m j. get m c = Some j \<and> key j = key i)"
    and add_keeps: "inv c \<Longrightarrow> valid i \<Longrightarrow> add i c = Inr (n, c') \<Longrightarrow> get m c = Some j \<Longrightarrow> get m c' = Some j"
    and get_unique: "inv c \<Longrightarrow> get m c = Some i \<Longrightarrow> get n c = Some j \<Longrightarrow> key i = key j \<Longrightarrow> m = n"
begin

fun adds :: "'i list \<Rightarrow> 'c \<Rightarrow> (nat list \<times> 'c) outcome" where
  "adds [] c = Inr ([], c)"
| "adds (i # is) c = bind_outcome (add i c) (\<lambda>(n, c'). bind_outcome (adds is c') (\<lambda>(ns, c''). Inr (n # ns, c'')))"

lemma adds_inv: "inv c \<Longrightarrow> list_all valid is \<Longrightarrow> adds is c = Inr (ns, c') \<Longrightarrow> inv c'"
  by (induction "is" arbitrary: c ns) (auto dest: add_inv)

lemma adds_total: "inv c \<Longrightarrow> list_all valid is \<Longrightarrow> \<exists>ns c'. adds is c = Inr (ns, c') \<and> length ns = length is"
proof (induction "is" arbitrary: c)
  case (Cons i "is")
  then obtain n c1 where "add i c = Inr (n, c1)" using add_total by fastforce
  moreover from this Cons.prems add_inv [of c i n c1] have "inv c1" by simp
  ultimately show ?case using Cons by fastforce
qed simp

lemma adds_keep: "inv c \<Longrightarrow> list_all valid is \<Longrightarrow> adds is c = Inr (ns, c') \<Longrightarrow> get m c = Some j \<Longrightarrow> get m c' = Some j"
  by (induction "is" arbitrary: c ns) (auto dest: add_inv add_keeps)

lemma adds_grant:
  "inv c \<Longrightarrow> list_all valid is \<Longrightarrow> adds is c = Inr (ns, c') \<Longrightarrow>
     list_all2 (\<lambda>i n. n \<noteq> 0 \<longrightarrow> get n c' = Some i) is ns"
proof (induction "is" arbitrary: c ns)
  case (Cons i "is")
  then obtain n c1 ns' where 1: "add i c = Inr (n, c1)" "adds is c1 = Inr (ns', c')" "ns = n # ns'" by auto
  with Cons.prems add_inv [of c i n c1] have "inv c1" by simp
  with 1 Cons adds_keep [of c1 "is" ns' c'] add_grants [of c i n c1] show ?case by auto
qed simp

lemma same_key_same_number:
  assumes "inv c" "list_all valid is" "adds is c = Inr (ns, c')" "i < length is" "j < length is"
    "ns ! i \<noteq> 0" "ns ! j \<noteq> 0" "key (is ! i) = key (is ! j)"
  shows "ns ! i = ns ! j"
proof -
  have "get (ns ! i) c' = Some (is ! i)" "get (ns ! j) c' = Some (is ! j)"
    using adds_grant [OF assms(1-3)] assms(4-7) by (auto simp: list_all2_conv_all_nth)
  then show ?thesis using get_unique [OF adds_inv [OF assms(1-3)]] assms(8) by blast
qed

end

section \<open>Clients, viewports, the game\<close>

text \<open>\<open>lastActivity\<close> gets no value from the constructors. The union of a viewport is its 32 bits.\<close>

record viewport =
  vp_name :: string
  vp_pos :: coordinate
  vp_direction :: coordinate
  vp_viewsize :: u32

definition viewport_new :: "u32 \<Rightarrow> viewport" where
  "viewport_new junk = \<lparr>vp_name = [], vp_pos = coordinate0, vp_direction = coordinate0, vp_viewsize = junk\<rparr>"

record client =
  cl_login :: string
  cl_viewports :: "(string \<times> nat) list"
  cl_lastActivity :: int
  cl_password :: string
  cl_connection :: "nat option"

definition client_with_connection :: "int \<Rightarrow> string \<Rightarrow> nat option \<Rightarrow> client" where
  "client_with_connection junk user_name conn =
     \<lparr>cl_login = user_name, cl_viewports = [], cl_lastActivity = junk, cl_password = [], cl_connection = conn\<rparr>"

definition client_new :: "int \<Rightarrow> string \<Rightarrow> string \<Rightarrow> client" where
  "client_new junk user_name password =
     \<lparr>cl_login = user_name, cl_viewports = [], cl_lastActivity = junk, cl_password = password, cl_connection = None\<rparr>"

type_synonym client_heap = "nat \<Rightarrow> client option"
type_synonym clients = "nat option container"

definition deref :: "('a \<Rightarrow> 'b option) \<Rightarrow> 'a option \<Rightarrow> 'b outcome" where
  "deref heap p = (case p of None \<Rightarrow> Inl NullDeref
     | Some a \<Rightarrow> (case heap a of None \<Rightarrow> Inl UseAfterFree | Some x \<Rightarrow> Inr x))"

definition is_unique_login :: "client_heap \<Rightarrow> nat option \<Rightarrow> nat option \<Rightarrow> bool outcome" where
  "is_unique_login H target client =
     bind_outcome (deref H client) (\<lambda>c. bind_outcome (deref H target) (\<lambda>t. Inr (cl_login c = cl_login t)))"

definition clients_add :: "client_heap \<Rightarrow> nat option \<Rightarrow> clients \<Rightarrow> (nat \<times> clients) outcome" where
  "clients_add H = cc_add (is_unique_login H)"

definition clients_get :: "nat \<Rightarrow> clients \<Rightarrow> nat option outcome" where
  "clients_get = cc_get None"

definition login_of :: "client_heap \<Rightarrow> nat option \<Rightarrow> string option" where
  "login_of H p = Option.bind p (\<lambda>a. map_option cl_login (H a))"

definition clients_inv :: "client_heap \<Rightarrow> clients \<Rightarrow> bool" where
  "clients_inv H c \<longleftrightarrow> None \<notin> set (map (login_of H) (cc_items c)) \<and> distinct (map (login_of H) (cc_items c))"

lemma login_of_None [simp]: "login_of H None = None"
  by (simp add: login_of_def)

lemma login_of_SomeD: "login_of H p = Some l \<Longrightarrow> \<exists>x. deref H p = Inr x \<and> cl_login x = l"
  by (auto simp: login_of_def deref_def split: option.splits bind_splits)

lemma find_login:
  "None \<notin> set (map (login_of H) ps) \<Longrightarrow> login_of H t = Some l \<Longrightarrow>
     find_if (is_unique_login H t) ps = Inr (Some l \<in> set (map (login_of H) ps))"
proof (induction ps)
  case (Cons p ps)
  obtain m where "login_of H p = Some m" using Cons.prems(1) by (cases "login_of H p") auto
  with Cons login_of_SomeD [of H p] login_of_SomeD [of H t] show ?case by (auto simp: is_unique_login_def)
qed simp

lemma clients_add_result:
  assumes "clients_inv H c" and "login_of H p = Some l"
  shows "clients_add H p c =
    (if Some l \<in> set (map (login_of H) (cc_items c)) then Inr (0, c)
     else Inr (Suc (cc_size c), c\<lparr>cc_items := cc_items c @ [p]\<rparr>))"
  using find_login [of H "cc_items c" p l] assms
  by (auto simp: clients_inv_def clients_add_def cc_add_def Let_def cc_size_def intro: rev_image_eqI)

lemma clients_get_result:
  "clients_get n c = Inr (if n \<noteq> 0 \<and> n \<le> cc_size c then cc_items c ! (n - 1) else None)"
  by (auto simp: clients_get_def cc_get_def vec_at_def cc_size_def)

text \<open>The item of a number, if there is one.\<close>

definition clients_lookup :: "nat \<Rightarrow> clients \<Rightarrow> nat option option" where
  "clients_lookup n c = (if n \<noteq> 0 \<and> n \<le> cc_size c then Some (cc_items c ! (n - 1)) else None)"

lemma clients_lookup_Some:
  "clients_lookup n c = Some p \<longleftrightarrow> 0 < n \<and> n \<le> length (cc_items c) \<and> p = cc_items c ! (n - 1)"
  by (auto simp: clients_lookup_def cc_size_def)

interpretation players: id_registry "clients_add H" clients_lookup "login_of H" "clients_inv H" "\<lambda>p. login_of H p \<noteq> None"
  for H
proof
  fix c i assume c: "clients_inv H c" and i: "login_of H i \<noteq> None"
  then obtain l where l: "login_of H i = Some l" by blast
  note add = clients_add_result [OF c l]
  show "\<exists>n c'. clients_add H i c = Inr (n, c')" using add by simp
  fix n c' assume 1: "clients_add H i c = Inr (n, c')"
  show "clients_inv H c'" using 1 add c l by (auto simp: clients_inv_def split: if_splits)
  show "n \<noteq> 0 \<Longrightarrow> clients_lookup n c' = Some i"
    using 1 add by (auto simp: clients_lookup_Some cc_size_def split: if_splits)
  show "clients_lookup m c = Some j \<Longrightarrow> clients_lookup m c' = Some j" for m j
    using 1 add by (auto simp: clients_lookup_Some nth_append split: if_splits)
next
  fix c i c' assume c: "clients_inv H c" and i: "login_of H i \<noteq> None" and 1: "clients_add H i c = Inr (0, c')"
  then obtain l where l: "login_of H i = Some l" by blast
  have "Some l \<in> set (map (login_of H) (cc_items c))" "c' = c"
    using clients_add_result [OF c l] 1 by (auto split: if_splits)
  then obtain k where "k < length (cc_items c)" "login_of H (cc_items c ! k) = Some l"
    by (auto simp: in_set_conv_nth)
  then show "c' = c \<and> (\<exists>m j. clients_lookup m c = Some j \<and> login_of H j = login_of H i)"
    using l \<open>c' = c\<close> by (intro conjI exI [of _ "Suc k"] exI [of _ "cc_items c ! k"]) (simp_all add: clients_lookup_Some)
next
  fix c m n i j assume "clients_inv H c" "clients_lookup m c = Some i" "clients_lookup n c = Some j" "login_of H i = login_of H j"
  then have "m - 1 = n - 1" using nth_eq_iff_index_eq [of "map (login_of H) (cc_items c)" "m - 1" "n - 1"]
    by (auto simp: clients_inv_def clients_lookup_Some)
  with \<open>clients_lookup m c = Some i\<close> \<open>clients_lookup n c = Some j\<close> show "m = n"
    by (auto simp: clients_lookup_Some)
qed

section \<open>Game\<close>

text \<open>
  \<open>Singleton< Game >::Instance\<close> constructs its static object at the first call; a copy of a
  \<open>Game\<close> shares the clients of the original. \<open>gw_fresh\<close> and all addresses above are free.
  \<open>gw_ran\<close> lists the closures run.
\<close>

record game =
  g_clients :: "nat option"

record game_world =
  gw_game :: "game option"
  gw_registries :: "nat \<Rightarrow> clients option"
  gw_clients :: client_heap
  gw_viewports :: "nat \<Rightarrow> viewport option"
  gw_fresh :: nat
  gw_ran :: "nat list"

definition game_set_clients :: "nat option \<Rightarrow> game \<Rightarrow> game" where "game_set_clients p g = g\<lparr>g_clients := p\<rparr>"
definition game_get_clients :: "game \<Rightarrow> nat option" where "game_get_clients g = g_clients g"

definition game_new :: "game_world \<Rightarrow> game \<times> game_world" where
  "game_new w = (let a = gw_fresh w in (\<lparr>g_clients = Some a\<rparr>,
     w\<lparr>gw_registries := (gw_registries w)(a \<mapsto> cc_new 1), gw_fresh := a + 1\<rparr>))"

definition game_instance :: "game_world \<Rightarrow> game \<times> game_world" where
  "game_instance w = (case gw_game w of
       Some g \<Rightarrow> (g, w)
     | None \<Rightarrow> (let (g, w1) = game_new w in (g, w1\<lparr>gw_game := Some g\<rparr>)))"

section \<open>RpcServiceClients\<close>

record general_response =
  gr_code :: "u32 option"
  gr_text :: "string option"
  gr_close :: "bool option"

record client_request =
  rq_login :: string
  rq_password :: "string option"

record client_response =
  cr_response :: general_response
  cr_client :: "u32 option"

definition to_userID :: "nat \<Rightarrow> int" where
  "to_userID n = sint (word_of_nat n :: u32)"

definition register_rpc :: "int \<Rightarrow> client_request \<Rightarrow> nat \<Rightarrow> game_world \<Rightarrow> (client_response \<times> game_world) outcome" where
  "register_rpc junk request fin w =
     (let (game, w1) = game_instance w;
          a = gw_fresh w1;
          new_client = (case rq_password request of
              Some p \<Rightarrow> client_new junk (rq_login request) p
            | None \<Rightarrow> client_new junk (rq_login request) []);
          w2 = w1\<lparr>gw_clients := (gw_clients w1)(a \<mapsto> new_client), gw_fresh := a + 1\<rparr>
      in bind_outcome (deref (gw_registries w2) (game_get_clients game)) (\<lambda>reg.
         bind_outcome (clients_add (gw_clients w2) (Some a) reg) (\<lambda>(n, reg').
           let w3 = w2\<lparr>gw_registries := (gw_registries w2)(the (game_get_clients game) \<mapsto> reg'),
                        gw_ran := gw_ran w2 @ [fin]\<rparr>;
               userID = to_userID n
           in if userID = 0
              then Inr (\<lparr>cr_response = \<lparr>gr_code = Some 1, gr_text = Some ''Failed to add client'', gr_close = Some True\<rparr>,
                         cr_client = None\<rparr>, w3)
              else Inr (\<lparr>cr_response = \<lparr>gr_code = Some 0, gr_text = None, gr_close = None\<rparr>,
                         cr_client = Some (word_of_int userID)\<rparr>, w3))))"

record viewport_msg =
  vm_name :: string
  vm_x :: u32
  vm_y :: u32
  vm_viewsize :: "int option"
  vm_iviewsize :: "u32 option"

record viewport_response =
  rr_response :: general_response
  rr_viewportID :: "u32 option"

definition fill_viewport :: "viewport_msg \<Rightarrow> viewport \<Rightarrow> viewport outcome" where
  "fill_viewport m v0 =
     (let v1 = v0\<lparr>vp_name := vm_name m\<rparr>
      in bind_outcome (coord_x (vp_pos v1)) (\<lambda>rx.
         let v2 = v1\<lparr>vp_pos := coord_assign (vp_pos v1) rx (sint (vm_x m))\<rparr>
         in bind_outcome (coord_y (vp_pos v2)) (\<lambda>ry.
         let v3 = v2\<lparr>vp_pos := coord_assign (vp_pos v2) ry (sint (vm_y m))\<rparr>;
             v4 = (case vm_viewsize m of Some s \<Rightarrow> v3\<lparr>vp_viewsize := word_of_int s\<rparr> | None \<Rightarrow> v3);
             v5 = (case vm_iviewsize m of Some s \<Rightarrow> v4\<lparr>vp_viewsize := s\<rparr> | None \<Rightarrow> v4)
         in Inr v5)))"

definition register_viewport_rpc ::
    "u32 \<Rightarrow> u32 \<Rightarrow> viewport_msg \<Rightarrow> nat \<Rightarrow> game_world \<Rightarrow> (viewport_response \<times> game_world) outcome" where
  "register_viewport_rpc junk clientid viewport fin w =
     (let (game, w1) = game_instance w
      in bind_outcome (deref (gw_registries w1) (game_get_clients game)) (\<lambda>reg.
         bind_outcome (clients_get (unat clientid) reg) (\<lambda>client.
         case client of
           None \<Rightarrow> Inr (\<lparr>rr_response = \<lparr>gr_code = Some 1, gr_text = None, gr_close = None\<rparr>, rr_viewportID = None\<rparr>,
                        w1\<lparr>gw_ran := gw_ran w1 @ [fin]\<rparr>)
         | Some c \<Rightarrow>
             bind_outcome (fill_viewport viewport (viewport_new junk)) (\<lambda>v.
             bind_outcome (deref (gw_clients w1) client) (\<lambda>cl.
               let a = gw_fresh w1;
                   cl' = cl\<lparr>cl_viewports := AList.update (vp_name v) a (cl_viewports cl)\<rparr>
               in Inr (\<lparr>rr_response = \<lparr>gr_code = Some 0, gr_text = None, gr_close = None\<rparr>,
                        rr_viewportID = Some (word_of_nat (length (cl_viewports cl')))\<rparr>,
                      w1\<lparr>gw_viewports := (gw_viewports w1)(a \<mapsto> v), gw_clients := (gw_clients w1)(c \<mapsto> cl'),
                         gw_fresh := a + 1, gw_ran := gw_ran w1 @ [fin]\<rparr>))))))"

section \<open>What a game promises its players\<close>

text \<open>The players of a game are their logins and passwords, in the order of their numbers.\<close>

definition registry_of :: "game_world \<Rightarrow> clients" where
  "registry_of w = (case gw_game w of None \<Rightarrow> cc_new 1
     | Some g \<Rightarrow> (case deref (gw_registries w) (g_clients g) of Inl _ \<Rightarrow> cc_new 1 | Inr reg \<Rightarrow> reg))"

definition player_of :: "client_heap \<Rightarrow> nat option \<Rightarrow> string \<times> string" where
  "player_of H p = (case deref H p of Inl _ \<Rightarrow> ([], []) | Inr c \<Rightarrow> (cl_login c, cl_password c))"

definition players_of :: "game_world \<Rightarrow> (string \<times> string) list" where
  "players_of w = map (player_of (gw_clients w)) (cc_items (registry_of w))"

definition refusal :: client_response where
  "refusal = \<lparr>cr_response = \<lparr>gr_code = Some 1, gr_text = Some ''Failed to add client'', gr_close = Some True\<rparr>,
     cr_client = None\<rparr>"

definition granted :: "nat \<Rightarrow> client_response" where
  "granted n = \<lparr>cr_response = \<lparr>gr_code = Some 0, gr_text = None, gr_close = None\<rparr>, cr_client = Some (word_of_nat n)\<rparr>"

definition spec_register :: "client_request \<Rightarrow> (string \<times> string) list \<Rightarrow> client_response \<times> (string \<times> string) list" where
  "spec_register r ps =
     (if rq_login r \<in> fst ` set ps then (refusal, ps)
      else (granted (length ps + 1), ps @ [(rq_login r, case rq_password r of Some p \<Rightarrow> p | None \<Rightarrow> [])]))"

definition game_ok :: "game_world \<Rightarrow> bool" where
  "game_ok w \<longleftrightarrow>
     (case gw_game w of None \<Rightarrow> True
      | Some g \<Rightarrow> \<exists>a reg. g_clients g = Some a \<and> gw_registries w a = Some reg \<and> clients_inv (gw_clients w) reg) \<and>
     (\<forall>a \<ge> gw_fresh w. gw_registries w a = None \<and> gw_clients w a = None)"

lemma game_instance_ok:
  assumes "game_ok w" and "game_instance w = (g, w1)"
  shows "\<exists>a. g_clients g = Some a \<and> gw_game w1 = Some g \<and> gw_registries w1 a = Some (registry_of w) \<and>
    clients_inv (gw_clients w) (registry_of w) \<and> gw_clients w1 = gw_clients w \<and> gw_ran w1 = gw_ran w \<and>
    (\<forall>a \<ge> gw_fresh w1. gw_registries w1 a = None \<and> gw_clients w1 a = None)"
proof (cases "gw_game w")
  case None
  with assms show ?thesis
    by (auto simp: game_ok_def game_instance_def game_new_def Let_def registry_of_def cc_new_def clients_inv_def)
next
  case (Some h)
  with assms show ?thesis
    by (auto simp: game_ok_def game_instance_def registry_of_def deref_def)
qed

text \<open>A new client leaves what the registered ones are.\<close>

lemma fresh_client:
  assumes "clients_inv H reg" and "H a = None"
  shows "map (login_of (H(a \<mapsto> c))) (cc_items reg) = map (login_of H) (cc_items reg)"
    "map (player_of (H(a \<mapsto> c))) (cc_items reg) = map (player_of H) (cc_items reg)"
    "clients_inv (H(a \<mapsto> c)) reg"
proof -
  have a: "p \<noteq> Some a" if "p \<in> set (cc_items reg)" for p
  proof
    assume "p = Some a"
    with assms(2) have "login_of H p = None" by (simp add: login_of_def)
    with that assms(1) show False by (force simp: clients_inv_def)
  qed
  have *: "login_of (H(a \<mapsto> c)) p = login_of H p" "player_of (H(a \<mapsto> c)) p = player_of H p"
    if "p \<in> set (cc_items reg)" for p
    using a [OF that] by (cases p; simp add: login_of_def player_of_def deref_def)+
  then show logins: "map (login_of (H(a \<mapsto> c))) (cc_items reg) = map (login_of H) (cc_items reg)"
    and "map (player_of (H(a \<mapsto> c))) (cc_items reg) = map (player_of H) (cc_items reg)" by simp_all
  show "clients_inv (H(a \<mapsto> c)) reg" using assms(1) unfolding clients_inv_def logins .
qed

lemma logins_of_players:
  assumes "clients_inv H reg"
  shows "Some l \<in> set (map (login_of H) (cc_items reg)) \<longleftrightarrow> l \<in> fst ` set (map (player_of H) (cc_items reg))"
proof -
  have "login_of H p = Some (fst (player_of H p))" if "p \<in> set (cc_items reg)" for p
  proof -
    from assms that obtain m where "login_of H p = Some m" by (cases "login_of H p") (force simp: clients_inv_def)+
    then show ?thesis using login_of_SomeD [of H p m] by (auto simp: player_of_def)
  qed
  then show ?thesis by (auto simp: image_image)
qed

lemma to_userID_simps: "to_userID n = 0 \<longleftrightarrow> (word_of_nat n :: u32) = 0" "word_of_int (to_userID n) = (word_of_nat n :: u32)"
  by (simp_all add: to_userID_def signed_eq_0_iff)

lemma word_of_nat_Suc_0: "n < 2 ^ 32 - 1 \<Longrightarrow> (word_of_nat (Suc n) :: u32) \<noteq> 0"
  unfolding word_of_nat_eq_0_iff by (auto dest: dvd_imp_le)

text \<open>
  However many players there are; the number of player \<open>2 ^ 32\<close> would read as 0, so that the new player would be told of a refusal.
\<close>

lemma register_players:
  assumes ok: "game_ok w"
  shows "\<exists>resp w'. register_rpc junk r d w = Inr (resp, w') \<and> game_ok w' \<and> gw_ran w' = gw_ran w @ [d] \<and>
    players_of w' = snd (spec_register r (players_of w)) \<and>
    (if (word_of_nat (length (players_of w) + 1) :: u32) = 0 then resp = refusal
     else resp = fst (spec_register r (players_of w)))"
proof -
  obtain g w1 where gi: "game_instance w = (g, w1)" by fastforce
  from game_instance_ok [OF ok gi] obtain ra where w1: "g_clients g = Some ra" "gw_game w1 = Some g"
    "gw_registries w1 ra = Some (registry_of w)" "clients_inv (gw_clients w) (registry_of w)"
    "gw_clients w1 = gw_clients w" "gw_ran w1 = gw_ran w"
    "\<forall>a \<ge> gw_fresh w1. gw_registries w1 a = None \<and> gw_clients w1 a = None" by blast
  let ?reg = "registry_of w" and ?a = "gw_fresh w1" and ?H = "gw_clients w"
  let ?c = "client_new junk (rq_login r) (case rq_password r of Some p \<Rightarrow> p | None \<Rightarrow> [])"
  let ?H' = "?H(?a \<mapsto> ?c)"
  have c: "(case rq_password r of Some p \<Rightarrow> client_new junk (rq_login r) p | None \<Rightarrow> client_new junk (rq_login r) []) = ?c"
    by (simp split: option.split)
  have a: "?H ?a = None" using w1(5,7) by force
  note fresh = fresh_client [OF w1(4) a, of ?c]
  have la: "login_of ?H' (Some ?a) = Some (rq_login r)" by (simp add: login_of_def client_new_def)
  have ra: "ra < ?a" using w1(3,7) by (cases "ra < ?a") auto
  have taken: "Some (rq_login r) \<in> set (map (login_of ?H') (cc_items ?reg)) \<longleftrightarrow> rq_login r \<in> fst ` set (players_of w)"
    using logins_of_players [OF w1(4)] unfolding fresh(1) players_of_def by blast
  show ?thesis
  proof (cases "rq_login r \<in> fst ` set (players_of w)")
    case True
    with clients_add_result [OF fresh(3) la] taken have "clients_add ?H' (Some ?a) ?reg = Inr (0, ?reg)" by simp
    with True gi w1 c fresh show ?thesis
      by (auto simp: register_rpc_def Let_def game_get_clients_def deref_def to_userID_simps spec_register_def
          refusal_def game_ok_def players_of_def registry_of_def)
  next
    case False
    let ?reg' = "?reg\<lparr>cc_items := cc_items ?reg @ [Some ?a]\<rparr>"
    have add: "clients_add ?H' (Some ?a) ?reg = Inr (Suc (cc_size ?reg), ?reg')"
      using clients_add_result [OF fresh(3) la] taken False by simp
    have inv: "clients_inv ?H' ?reg'"
      using players.add_inv [OF fresh(3) _ add] la by simp
    have size: "cc_size ?reg = length (players_of w)" by (simp add: cc_size_def players_of_def)
    have pl: "player_of ?H' (Some ?a) = (rq_login r, case rq_password r of Some p \<Rightarrow> p | None \<Rightarrow> [])"
      by (simp add: player_of_def deref_def client_new_def)
    let ?w' = "w1\<lparr>gw_clients := ?H', gw_fresh := ?a + 1,
        gw_registries := (gw_registries w1)(ra \<mapsto> ?reg'), gw_ran := gw_ran w @ [d]\<rparr>"
    have "register_rpc junk r d w = Inr (if (word_of_nat (length (players_of w) + 1) :: u32) = 0 then refusal
        else granted (length (players_of w) + 1), ?w')"
      using gi w1 c add size
      by (simp add: register_rpc_def game_get_clients_def deref_def to_userID_simps granted_def refusal_def Let_def)
    moreover have "game_ok ?w'" using w1 inv ra by (auto simp: game_ok_def)
    moreover have "players_of ?w' = players_of w @ [(rq_login r, case rq_password r of Some p \<Rightarrow> p | None \<Rightarrow> [])]"
      using w1 fresh pl by (simp add: players_of_def registry_of_def deref_def)
    ultimately show ?thesis using False by (simp add: spec_register_def)
  qed
qed

lemma register_implements:
  assumes "game_ok w" and "length (players_of w) < 2 ^ 32 - 1"
  shows "\<exists>resp w'. register_rpc junk r d w = Inr (resp, w') \<and> game_ok w' \<and> gw_ran w' = gw_ran w @ [d] \<and>
    (resp, players_of w') = spec_register r (players_of w)"
  using register_players [OF assms(1), of junk r d] word_of_nat_Suc_0 [OF assms(2)] by auto

text \<open>
  \<open>Register\<close> is the abstract registration: a login that is taken is refused with code 1
  and a request to close, whatever the password, and nothing changes; any other becomes the next
  player, under its number, and the closure of the call runs once.
\<close>

theorem register_refines:
  assumes "game_ok w" and "length (players_of w) < 2 ^ 32 - 1"
  shows "\<exists>resp w'. register_rpc junk r d w = Inr (resp, w') \<and> game_ok w' \<and> gw_ran w' = gw_ran w @ [d] \<and>
    (resp, players_of w') = spec_register r (players_of w)"
  using assms by (rule register_implements)

text \<open>A session: the registrations of a game in their order, each with its closure.\<close>

fun registers :: "(int \<times> client_request \<times> nat) list \<Rightarrow> game_world \<Rightarrow> (client_response list \<times> game_world) outcome" where
  "registers [] w = Inr ([], w)"
| "registers ((junk, r, d) # rs) w =
     bind_outcome (register_rpc junk r d w) (\<lambda>(resp, w1). bind_outcome (registers rs w1) (\<lambda>(resps, w2). Inr (resp # resps, w2)))"

fun spec_registers :: "client_request list \<Rightarrow> (string \<times> string) list \<Rightarrow> client_response list \<times> (string \<times> string) list" where
  "spec_registers [] ps = ([], ps)"
| "spec_registers (r # rs) ps =
     (let (resp, ps1) = spec_register r ps; (resps, ps2) = spec_registers rs ps1 in (resp # resps, ps2))"

lemma spec_register_length: "length (snd (spec_register r ps)) \<le> Suc (length ps)"
  by (simp add: spec_register_def)

lemma registers_refine:
  "game_ok w \<Longrightarrow> length (players_of w) + length rs < 2 ^ 32 \<Longrightarrow>
     \<exists>resps w'. registers rs w = Inr (resps, w') \<and> game_ok w' \<and> gw_ran w' = gw_ran w @ map (snd \<circ> snd) rs \<and>
       (resps, players_of w') = spec_registers (map (fst \<circ> snd) rs) (players_of w)"
proof (induction rs arbitrary: w)
  case Nil
  then show ?case by simp
next
  case (Cons q rs)
  obtain j r d where q: "q = (j, r, d)" by (cases q)
  obtain resp w1 where 1: "register_rpc j r d w = Inr (resp, w1)" "game_ok w1" "gw_ran w1 = gw_ran w @ [d]"
      "(resp, players_of w1) = spec_register r (players_of w)"
    using register_implements [of w j r d] Cons.prems by auto
  have "length (players_of w1) \<le> Suc (length (players_of w))"
    using spec_register_length [of r "players_of w"] by (simp flip: 1(4))
  with Cons.prems have "length (players_of w1) + length rs < 2 ^ 32" by simp
  from Cons.IH [OF 1(2) this] obtain resps w2 where 2: "registers rs w1 = Inr (resps, w2)" "game_ok w2"
      "gw_ran w2 = gw_ran w1 @ map (snd \<circ> snd) rs"
      "(resps, players_of w2) = spec_registers (map (fst \<circ> snd) rs) (players_of w1)" by blast
  have "spec_registers (map (\<lambda>x. fst (snd x)) rs) (players_of w1) = (resps, players_of w2)"
    using 2(4) by (simp add: comp_def)
  with 1 2(1-3) q show ?case by (simp add: comp_def flip: 1(4))
qed

text \<open>The answer to one request of a session that ends with the players \<open>qs\<close>.\<close>

definition answered :: "bool \<Rightarrow> client_request \<Rightarrow> client_response \<Rightarrow> (string \<times> string) list \<Rightarrow> bool" where
  "answered taken r resp qs \<longleftrightarrow>
     (if taken then resp = refusal
      else \<exists>n < length qs. resp = granted (Suc n) \<and>
             qs ! n = (rq_login r, case rq_password r of Some p \<Rightarrow> p | None \<Rightarrow> []))"

lemma answered_more: "answered t r resp qs \<Longrightarrow> answered t r resp (qs @ new)"
  by (auto simp: answered_def nth_append split: if_splits)

lemma spec_register_answers:
  "spec_register r ps = (resp, ps1) \<Longrightarrow> distinct (map fst ps) \<Longrightarrow>
     answered (rq_login r \<in> fst ` set ps) r resp ps1 \<and> distinct (map fst ps1) \<and> prefix ps ps1 \<and>
     fst ` set ps1 = insert (rq_login r) (fst ` set ps)"
  by (auto simp: spec_register_def answered_def nth_append image_iff split: if_splits)

lemma spec_registers_answers:
  "spec_registers rs ps = (resps, qs) \<Longrightarrow> distinct (map fst ps) \<Longrightarrow>
     distinct (map fst qs) \<and> prefix ps qs \<and> length resps = length rs \<and>
     (\<forall>k < length rs. answered (rq_login (rs ! k) \<in> fst ` set ps \<union> rq_login ` set (take k rs)) (rs ! k) (resps ! k) qs)"
proof (induction rs arbitrary: ps resps)
  case Nil
  then show ?case by simp
next
  case (Cons r rs)
  obtain resp ps1 where 1: "spec_register r ps = (resp, ps1)" by fastforce
  with Cons.prems(1) obtain resps' where 2: "spec_registers rs ps1 = (resps', qs)" "resps = resp # resps'"
    by (auto split: prod.splits)
  note first = spec_register_answers [OF 1 Cons.prems(2)]
  have IH: "distinct (map fst qs)" "prefix ps1 qs" "length resps' = length rs"
    "\<And>k. k < length rs \<Longrightarrow>
       answered (rq_login (rs ! k) \<in> fst ` set ps1 \<union> rq_login ` set (take k rs)) (rs ! k) (resps' ! k) qs"
    using Cons.IH [OF 2(1)] first by blast+
  have "answered (rq_login r \<in> fst ` set ps) r resp qs"
    using first IH(2) by (auto simp: prefix_def intro: answered_more)
  then have "answered (rq_login ((r # rs) ! k) \<in> fst ` set ps \<union> rq_login ` set (take k (r # rs))) ((r # rs) ! k) (resps ! k) qs"
    if "k < length (r # rs)" for k
    using that IH(4) [of "k - 1"] first 2(2) by (cases k) auto
  moreover have "prefix ps qs" using first IH(2) prefix_order.trans by blast
  ultimately show ?case using IH 2(2) by simp
qed

text \<open>
  C18. In a session of a new game a request is refused exactly if its login was asked for before;
  every other gets a number under which the game holds its login and password until the end, no
  two numbers have the same login, and the closures run once each, in order.
\<close>

theorem registration_session:
  assumes "game_ok w" and "players_of w = []" and "length rs < 2 ^ 32"
  shows "\<exists>resps w'. registers rs w = Inr (resps, w') \<and> gw_ran w' = gw_ran w @ map (snd \<circ> snd) rs \<and>
    length resps = length rs \<and> distinct (map fst (players_of w')) \<and>
    (\<forall>k < length rs. let r = fst (snd (rs ! k)) in
       if rq_login r \<in> rq_login ` set (map (fst \<circ> snd) (take k rs)) then resps ! k = refusal
       else \<exists>n < length (players_of w'). resps ! k = granted (Suc n) \<and>
              players_of w' ! n = (rq_login r, case rq_password r of Some p \<Rightarrow> p | None \<Rightarrow> []))"
proof -
  obtain resps w' where 1: "registers rs w = Inr (resps, w')" "gw_ran w' = gw_ran w @ map (snd \<circ> snd) rs"
      "spec_registers (map (fst \<circ> snd) rs) [] = (resps, players_of w')"
    using registers_refine [of w rs] assms by auto
  from spec_registers_answers [OF 1(3)] 1(1,2) show ?thesis
    by (auto simp: answered_def Let_def take_map)
qed

definition demo_game :: game_world where
  "demo_game = \<lparr>gw_game = None, gw_registries = Map.empty, gw_clients = Map.empty, gw_viewports = Map.empty,
     gw_fresh = 0, gw_ran = []\<rparr>"

lemma demo_game_ok: "game_ok demo_game" "players_of demo_game = []"
  by (simp_all add: game_ok_def demo_game_def players_of_def registry_of_def cc_new_def)

theorem register_refines_witness:
  "\<exists>resp w'. register_rpc 0 \<lparr>rq_login = ''ann'', rq_password = None\<rparr> 7 demo_game = Inr (resp, w') \<and>
     players_of w' = [(''ann'', '''')]"
  using register_refines [of demo_game 0 "\<lparr>rq_login = ''ann'', rq_password = None\<rparr>" 7] demo_game_ok
  by (auto simp: spec_register_def)

theorem registration_session_witness:
  "\<exists>resps w'. registers [(0, \<lparr>rq_login = ''ann'', rq_password = None\<rparr>, 7), (0, \<lparr>rq_login = ''ann'', rq_password = Some ''x''\<rparr>, 8)]
     demo_game = Inr (resps, w') \<and> length resps = 2 \<and> resps ! 1 = refusal"
  using registration_session [of demo_game "[(0, \<lparr>rq_login = ''ann'', rq_password = None\<rparr>, 7),
      (0, \<lparr>rq_login = ''ann'', rq_password = Some ''x''\<rparr>, 8)]"] demo_game_ok
  by (fastforce simp: nth_Cons less_Suc_eq)

section \<open>RegisterViewport\<close>

lemma viewport_result:
  assumes "game_ok w"
  shows "register_viewport_rpc junk n m d w =
      (if unat n \<noteq> 0 \<and> unat n \<le> length (players_of w) then Inl OutOfBounds
       else Inr (\<lparr>rr_response = \<lparr>gr_code = Some 1, gr_text = None, gr_close = None\<rparr>, rr_viewportID = None\<rparr>,
              (snd (game_instance w))\<lparr>gw_ran := gw_ran w @ [d]\<rparr>))"
proof -
  obtain g w1 where gi: "game_instance w = (g, w1)" by fastforce
  from game_instance_ok [OF assms gi] obtain ra where w1: "g_clients g = Some ra"
    "gw_registries w1 ra = Some (registry_of w)" "clients_inv (gw_clients w) (registry_of w)" "gw_ran w1 = gw_ran w"
    by blast
  have "cc_items (registry_of w) ! i \<noteq> None" if "i < length (cc_items (registry_of w))" for i
    using w1(3) by (metis clients_inv_def image_eqI login_of_None nth_mem set_map that)
  then have "cc_items (registry_of w) ! (unat n - 1) \<noteq> None"
    if "0 < unat n" "unat n \<le> length (cc_items (registry_of w))"
    using that by simp
  then show ?thesis
    using gi w1 by (auto simp: register_viewport_rpc_def Let_def game_get_clients_def deref_def clients_get_result
        fill_viewport_def viewport_new_def coord_x_def coordinate0_def cc_size_def players_of_def split: option.splits)
qed

text \<open>
  No viewport can be registered: for a number without a client the call is answered with
  code 1, for the number of any player it writes the first coordinate of a position that has
  none. The position of a new viewport is an empty vector.
\<close>

theorem register_viewport_never_succeeds:
  assumes "game_ok w"
  shows "register_viewport_rpc junk n m d w =
      (if unat n \<noteq> 0 \<and> unat n \<le> length (players_of w) then Inl OutOfBounds
       else Inr (\<lparr>rr_response = \<lparr>gr_code = Some 1, gr_text = None, gr_close = None\<rparr>, rr_viewportID = None\<rparr>,
              (snd (game_instance w))\<lparr>gw_ran := gw_ran w @ [d]\<rparr>))"
  using assms by (rule viewport_result)

theorem register_viewport_never_succeeds_witness:
  "\<exists>resp w'. register_rpc 0 \<lparr>rq_login = ''ann'', rq_password = None\<rparr> 7 demo_game = Inr (resp, w') \<and>
     register_viewport_rpc 0 1 \<lparr>vm_name = ''Main'', vm_x = 1, vm_y = 2, vm_viewsize = None, vm_iviewsize = None\<rparr> 8 w'
       = Inl OutOfBounds"
proof -
  obtain resp w' where "register_rpc 0 \<lparr>rq_login = ''ann'', rq_password = None\<rparr> 7 demo_game = Inr (resp, w')"
      "game_ok w'" "players_of w' = [(''ann'', '''')]"
    using register_implements [of demo_game 0 "\<lparr>rq_login = ''ann'', rq_password = None\<rparr>" 7] demo_game_ok
    by (auto simp: spec_register_def)
  then show ?thesis using register_viewport_never_succeeds [of w'] by auto
qed

end
