(* ===== verification/Container_Race.thy ===== *)
theory Container_Race
  imports Clients
begin

text \<open>
  \<open>src/core/ConcurrentContainer.hpp\<close> and \<open>.cpp\<close> with several threads. \<open>Add\<close> holds the mutex; \<open>Get\<close> and \<open>Size\<close> do not, as the comment
  in the source admits. The services of a server run on several threads, so a \<open>Get\<close> of one may meet an \<open>Add\<close> of another. The
  \<open>std::vector\<close> is modelled as far as that matters: its buffer is an object of the heap, and a \<open>push_back\<close> on a full buffer moves the
  items to a new one and frees the old. A thread is a task and the place it has reached, as in \<open>Status_Lock\<close>.

  \<open>Add\<close>s alone behave like some order of the calls of the sequential model; with room for all new items
  \<open>Get\<close> is safe beside them; without, it can read the freed buffer.
\<close>

section \<open>The vector and the threads\<close>

record 'i shared_vec =
  sv_heap :: "nat \<Rightarrow> 'i list option"   \<comment> \<open>the buffers, with the items constructed in them\<close>
  sv_next :: nat                        \<comment> \<open>the next address\<close>
  sv_begin :: nat
  sv_size :: nat
  sv_capacity :: nat
  sv_lock :: "nat option"               \<comment> \<open>the thread that holds \<open>mItemsMutex\<close>\<close>
  sv_log :: "(nat \<times> 'i \<times> nat) list"     \<comment> \<open>thread, item and answer of every \<open>Add\<close>, in the order in which they took effect\<close>

datatype 'i container_task = RunAdd 'i | RunGet nat

datatype 'i container_place =
    TakeLock | Search | PushBack | Move nat | GiveLock nat | Added nat
  | ReadSize | ReadBegin | ReadItem nat | Got "'i option"

type_synonym 'i container_result = "('i container_place \<times> 'i shared_vec) outcome option"

text \<open>A place is what the thread does next. \<open>grow n\<close> is the capacity of the buffer that replaces a full one of \<open>n\<close> items.\<close>

fun add_step ::
  "('i \<Rightarrow> 'i \<Rightarrow> bool) \<Rightarrow> (nat \<Rightarrow> nat) \<Rightarrow> nat \<Rightarrow> 'i \<Rightarrow> 'i container_place \<Rightarrow> 'i shared_vec \<Rightarrow> 'i container_result"
where
  "add_step uniq grow t x TakeLock s =
     (if sv_lock s = None then Some (Inr (Search, s\<lparr>sv_lock := Some t\<rparr>)) else None)"
| "add_step uniq grow t x Search s =
     Some (case sv_heap s (sv_begin s) of
         None \<Rightarrow> Inl UseAfterFree
       | Some xs \<Rightarrow> Inr (if x \<in> set xs \<or> list_ex (uniq x) xs then (GiveLock 0, s\<lparr>sv_log := sv_log s @ [(t, x, 0)]\<rparr>)
                       else (PushBack, s)))"
| "add_step uniq grow t x PushBack s =
     Some (case sv_heap s (sv_begin s) of
         None \<Rightarrow> Inl UseAfterFree
       | Some xs \<Rightarrow> Inr (
           if sv_size s < sv_capacity s
           then (GiveLock (Suc (sv_size s)),
             s\<lparr>sv_heap := (sv_heap s)(sv_begin s \<mapsto> xs @ [x]), sv_size := Suc (sv_size s),
               sv_log := sv_log s @ [(t, x, Suc (sv_size s))]\<rparr>)
           else (Move (sv_next s), s\<lparr>sv_heap := (sv_heap s)(sv_next s \<mapsto> xs @ [x]), sv_next := Suc (sv_next s)\<rparr>)))"
| "add_step uniq grow t x (Move a) s =
     Some (Inr (GiveLock (Suc (sv_size s)),
       s\<lparr>sv_heap := (sv_heap s)(sv_begin s := None), sv_begin := a, sv_size := Suc (sv_size s), sv_capacity := grow (sv_size s),
         sv_log := sv_log s @ [(t, x, Suc (sv_size s))]\<rparr>))"
| "add_step uniq grow t x (GiveLock n) s = Some (Inr (Added n, s\<lparr>sv_lock := None\<rparr>))"
| "add_step uniq grow t x _ s = None"

fun get_step :: "nat \<Rightarrow> 'i container_place \<Rightarrow> 'i shared_vec \<Rightarrow> 'i container_result" where
  "get_step index ReadSize s =
     Some (Inr (if index \<noteq> 0 \<and> index \<le> sv_size s then ReadBegin else Got None, s))"
| "get_step index ReadBegin s =
     Some (if index - 1 < sv_size s then Inr (ReadItem (sv_begin s), s) else Inl OutOfRange)"
| "get_step index (ReadItem a) s =
     Some (case sv_heap s a of
         None \<Rightarrow> Inl UseAfterFree
       | Some xs \<Rightarrow> bind_outcome (vec_index xs (index - 1)) (\<lambda>x. Inr (Got (Some x), s)))"
| "get_step index _ s = None"

fun container_step ::
  "('i \<Rightarrow> 'i \<Rightarrow> bool) \<Rightarrow> (nat \<Rightarrow> nat) \<Rightarrow> nat \<Rightarrow> 'i container_task \<Rightarrow> 'i container_place \<Rightarrow> 'i shared_vec \<Rightarrow> 'i container_result"
where
  "container_step uniq grow t (RunAdd x) = add_step uniq grow t x"
| "container_step uniq grow t (RunGet i) = get_step i"

fun container_entry :: "'i container_task \<Rightarrow> 'i container_place" where
  "container_entry (RunAdd x) = TakeLock"
| "container_entry (RunGet i) = ReadSize"

record 'i container_state =
  cs_vec :: "'i shared_vec"
  cs_threads :: "('i container_task \<times> 'i container_place) list"

definition container_turn ::
  "('i \<Rightarrow> 'i \<Rightarrow> bool) \<Rightarrow> (nat \<Rightarrow> nat) \<Rightarrow> nat \<Rightarrow> 'i container_state \<Rightarrow> 'i container_state outcome"
where
  "container_turn uniq grow t s =
     (if t < length (cs_threads s) then
        let (k, p) = cs_threads s ! t in
        case container_step uniq grow t k p (cs_vec s) of
          None \<Rightarrow> Inr s
        | Some r \<Rightarrow> bind_outcome r (\<lambda>(p', v). Inr \<lparr>cs_vec = v, cs_threads = (cs_threads s)[t := (k, p')]\<rparr>)
      else Inr s)"

definition container_start :: "'i list \<Rightarrow> nat \<Rightarrow> 'i container_task list \<Rightarrow> 'i container_state" where
  "container_start xs capacity tasks =
     \<lparr>cs_vec = \<lparr>sv_heap = [0 \<mapsto> xs], sv_next = 1, sv_begin = 0, sv_size = length xs, sv_capacity = capacity,
        sv_lock = None, sv_log = []\<rparr>,
      cs_threads = map (\<lambda>k. (k, container_entry k)) tasks\<rparr>"

definition container_run ::
  "('i \<Rightarrow> 'i \<Rightarrow> bool) \<Rightarrow> (nat \<Rightarrow> nat) \<Rightarrow> nat list \<Rightarrow> 'i container_state \<Rightarrow> 'i container_state outcome"
where
  "container_run uniq grow = fold_outcome (container_turn uniq grow)"

section \<open>The sequential container\<close>

fun seq_adds :: "('i \<Rightarrow> 'i \<Rightarrow> bool) \<Rightarrow> 'i list \<Rightarrow> 'i container \<Rightarrow> (nat list \<times> 'i container) outcome" where
  "seq_adds uniq [] c = Inr ([], c)"
| "seq_adds uniq (x # xs) c =
     bind_outcome (cc_add (\<lambda>x y. Inr (uniq x y)) x c) (\<lambda>(n, c).
     bind_outcome (seq_adds uniq xs c) (\<lambda>(ns, c). Inr (n # ns, c)))"

lemma seq_adds_snoc:
  "seq_adds uniq xs c = Inr (ns, c1) \<Longrightarrow> cc_add (\<lambda>x y. Inr (uniq x y)) x c1 = Inr (n, c2) \<Longrightarrow>
    seq_adds uniq (xs @ [x]) c = Inr (ns @ [n], c2)"
  by (induction xs arbitrary: c ns) auto

lemma find_if_pure: "find_if (\<lambda>y. Inr (p y)) xs = Inr (list_ex p xs)"
  by (induction xs) auto

lemma cc_add_pure:
  "cc_add (\<lambda>x y. Inr (uniq x y)) x c =
     Inr (if x \<in> set (cc_items c) \<or> list_ex (uniq x) (cc_items c) then (0, c)
          else (Suc (length (cc_items c)), c\<lparr>cc_items := cc_items c @ [x]\<rparr>))"
  by (simp add: cc_add_def find_if_pure)

section \<open>Invariant\<close>

fun in_add :: "'i container_place \<Rightarrow> bool" where
  "in_add Search = True" | "in_add PushBack = True" | "in_add (Move a) = True" | "in_add (GiveLock n) = True" | "in_add _ = False"

fun add_pending :: "'i container_task \<times> 'i container_place \<Rightarrow> bool" where
  "add_pending (RunAdd x, GiveLock n) = False"
| "add_pending (RunAdd x, Added n) = False"
| "add_pending (RunAdd x, p) = True"
| "add_pending (RunGet i, p) = False"

fun is_add :: "'i container_task \<Rightarrow> bool" where
  "is_add (RunAdd x) = True" | "is_add (RunGet i) = False"

definition pending_adds :: "('i container_task \<times> 'i container_place) list \<Rightarrow> nat" where
  "pending_adds ths = length (filter add_pending ths)"

text \<open>What a thread relies on, given the items \<open>xs\<close> of the vector.\<close>

fun thread_ok :: "('i \<Rightarrow> 'i \<Rightarrow> bool) \<Rightarrow> 'i shared_vec \<Rightarrow> 'i list \<Rightarrow> nat \<Rightarrow> 'i container_task \<times> 'i container_place \<Rightarrow> bool" where
  "thread_ok uniq v xs t (RunAdd x, TakeLock) = True"
| "thread_ok uniq v xs t (RunAdd x, Search) = True"
| "thread_ok uniq v xs t (RunAdd x, PushBack) = (x \<notin> set xs \<and> \<not> list_ex (uniq x) xs)"
| "thread_ok uniq v xs t (RunAdd x, Move a) =
     (x \<notin> set xs \<and> \<not> list_ex (uniq x) xs \<and> \<not> sv_size v < sv_capacity v \<and> a < sv_next v \<and> a \<noteq> sv_begin v \<and> sv_heap v a = Some (xs @ [x]))"
| "thread_ok uniq v xs t (RunAdd x, GiveLock n) = ((t, x, n) \<in> set (sv_log v))"
| "thread_ok uniq v xs t (RunAdd x, Added n) = ((t, x, n) \<in> set (sv_log v))"
| "thread_ok uniq v xs t (RunGet i, ReadSize) = True"
| "thread_ok uniq v xs t (RunGet i, ReadBegin) = (i \<noteq> 0 \<and> i \<le> length xs)"
| "thread_ok uniq v xs t (RunGet i, ReadItem a) = (i \<noteq> 0 \<and> i \<le> length xs \<and> a = sv_begin v)"
| "thread_ok uniq v xs t (RunGet i, Got None) = True"
| "thread_ok uniq v xs t (RunGet i, Got (Some y)) = (i \<noteq> 0 \<and> i \<le> length xs \<and> y = xs ! (i - 1))"
| "thread_ok uniq v xs t _ = False"

definition vec_ok :: "('i \<Rightarrow> 'i \<Rightarrow> bool) \<Rightarrow> 'i list \<Rightarrow> 'i shared_vec \<Rightarrow> 'i list \<Rightarrow> bool" where
  "vec_ok uniq xs0 v xs \<longleftrightarrow> sv_heap v (sv_begin v) = Some xs \<and> sv_size v = length xs \<and> sv_begin v < sv_next v \<and>
     seq_adds uniq (map (fst \<circ> snd) (sv_log v)) \<lparr>cc_items = xs0, cc_next = 1\<rparr> =
       Inr (map (snd \<circ> snd) (sv_log v), \<lparr>cc_items = xs, cc_next = 1\<rparr>)"

definition threads_ok :: "('i \<Rightarrow> 'i \<Rightarrow> bool) \<Rightarrow> 'i shared_vec \<Rightarrow> 'i list \<Rightarrow> ('i container_task \<times> 'i container_place) list \<Rightarrow> bool" where
  "threads_ok uniq v xs ths \<longleftrightarrow> (\<forall>t. sv_lock v = Some t \<longrightarrow> t < length ths) \<and>
     (\<forall>t < length ths. thread_ok uniq v xs t (ths ! t) \<and> (in_add (snd (ths ! t)) \<longleftrightarrow> sv_lock v = Some t) \<and>
     (t \<in> fst ` set (sv_log v) \<longrightarrow> \<not> add_pending (ths ! t)))"

definition room :: "'i shared_vec \<Rightarrow> ('i container_task \<times> 'i container_place) list \<Rightarrow> bool" where
  "room v ths \<longleftrightarrow> list_all (\<lambda>(k, p). is_add k) ths \<or> sv_size v + pending_adds ths \<le> sv_capacity v"

definition container_inv :: "('i \<Rightarrow> 'i \<Rightarrow> bool) \<Rightarrow> 'i list \<Rightarrow> 'i container_state \<Rightarrow> bool" where
  "container_inv uniq xs0 s \<longleftrightarrow> (\<exists>xs. vec_ok uniq xs0 (cs_vec s) xs \<and> threads_ok uniq (cs_vec s) xs (cs_threads s) \<and>
     room (cs_vec s) (cs_threads s) \<and> distinct (map fst (sv_log (cs_vec s))))"

lemma pending_append: "pending_adds (xs @ y # ys) = pending_adds xs + of_bool (add_pending y) + pending_adds ys"
  by (simp add: pending_adds_def)

lemma pending_update:
  assumes "t < length ths"
  shows "pending_adds (ths[t := y]) + of_bool (add_pending (ths ! t)) = pending_adds ths + of_bool (add_pending y)"
  using arg_cong [OF id_take_nth_drop [OF assms], of pending_adds]
  by (simp add: upd_conv_take_nth_drop [OF assms] pending_append)

lemma thread_ok_kept:
  assumes "thread_ok uniq v xs t kp" and "\<not> in_add (snd kp)" and "prefix xs xs'" and "set (sv_log v) \<subseteq> set (sv_log v')"
    and "sv_begin v' = sv_begin v \<or> is_add (fst kp)"
  shows "thread_ok uniq v' xs' t kp"
proof -
  obtain k p where kp: "kp = (k, p)" by (cases kp)
  have len: "length xs \<le> length xs'" using assms(3) by (rule prefix_length_le)
  have nth: "i \<le> length xs \<Longrightarrow> i \<noteq> 0 \<Longrightarrow> xs' ! (i - 1) = xs ! (i - 1)" for i
    using assms(3) by (auto simp: prefix_def nth_append)
  show ?thesis
  proof (cases k)
    case (RunAdd x)
    then show ?thesis using assms kp by (cases p) auto
  next
    case (RunGet i)
    show ?thesis
    proof (cases p)
      case (Got r)
      then show ?thesis using assms(1) kp RunGet len nth by (cases r) auto
    qed (use assms kp RunGet len in auto)
  qed
qed

text \<open>A turn of thread \<open>t\<close> that changes what is its to change.\<close>

lemma turn_keeps:
  assumes inv: "vec_ok uniq xs0 v xs" "threads_ok uniq v xs ths" "room v ths" "distinct (map fst (sv_log v))"
    and t: "t < length ths" "ths ! t = (k, p)"
    and new: "vec_ok uniq xs0 v' xs'" "thread_ok uniq v' xs' t (k, p')" "in_add p' \<longleftrightarrow> sv_lock v' = Some t"
      "t \<in> fst ` set (sv_log v') \<Longrightarrow> \<not> add_pending (k, p')" "distinct (map fst (sv_log v'))"
    and frame: "v' = v \<or> prefix xs xs' \<and> set (sv_log v) \<subseteq> set (sv_log v') \<and> sv_lock v \<in> {None, Some t} \<and> sv_lock v' \<in> {None, Some t}"
      "fst ` set (sv_log v') \<subseteq> insert t (fst ` set (sv_log v))"
      "sv_begin v' = sv_begin v \<or> list_all (\<lambda>(k, p). is_add k) ths"
    and cap: "sv_size v + pending_adds ths \<le> sv_capacity v \<Longrightarrow>
      sv_size v' + pending_adds (ths[t := (k, p')]) \<le> sv_capacity v'"
  shows "container_inv uniq xs0 \<lparr>cs_vec = v', cs_threads = ths[t := (k, p')]\<rparr>"
proof -
  have same: "xs' = xs" if "v' = v" using new(1) inv(1) that by (simp add: vec_ok_def)
  have "thread_ok uniq v' xs' t' (ths ! t') \<and> (in_add (snd (ths ! t')) \<longleftrightarrow> sv_lock v' = Some t') \<and>
      (t' \<in> fst ` set (sv_log v') \<longrightarrow> \<not> add_pending (ths ! t'))" if "t' < length ths" "t' \<noteq> t" for t'
  proof -
    have old: "thread_ok uniq v xs t' (ths ! t')" "in_add (snd (ths ! t')) \<longleftrightarrow> sv_lock v = Some t'"
      "t' \<in> fst ` set (sv_log v) \<longrightarrow> \<not> add_pending (ths ! t')"
      using inv(2) that(1) by (auto simp: threads_ok_def)
    have "t' \<in> fst ` set (sv_log v') \<longrightarrow> t' \<in> fst ` set (sv_log v)" using frame(2) that(2) by auto
    moreover have "thread_ok uniq v' xs' t' (ths ! t') \<and> (in_add (snd (ths ! t')) \<longleftrightarrow> sv_lock v' = Some t')"
    proof (cases "v' = v")
      case True
      then show ?thesis using old same by simp
    next
      case False
      then have f: "prefix xs xs'" "set (sv_log v) \<subseteq> set (sv_log v')" "sv_lock v \<noteq> Some t'" "sv_lock v' \<noteq> Some t'"
        using frame(1) that(2) by auto
      have "sv_begin v' = sv_begin v \<or> is_add (fst (ths ! t'))"
        using frame(3) that(1) by (auto simp: list_all_length case_prod_beta)
      then show ?thesis using thread_ok_kept [OF old(1) _ f(1,2)] old(2) f(3,4) by simp
    qed
    ultimately show ?thesis using old(3) by blast
  qed
  moreover have "t' < length ths" if "sv_lock v' = Some t'" for t'
    using frame(1) that t(1) inv(2) by (auto simp: threads_ok_def)
  ultimately have "threads_ok uniq v' xs' (ths[t := (k, p')])"
    using new(2-4) t(1) by (auto simp: threads_ok_def nth_list_update)
  moreover have "room v' (ths[t := (k, p')])"
    using inv(3) cap t by (auto simp: room_def list_all_length nth_list_update split: prod.splits)
  ultimately show ?thesis using new(1,5) by (auto simp: container_inv_def)
qed

lemma vec_ok_log:
  assumes "vec_ok uniq xs0 v xs"
  shows "x \<in> set xs \<or> list_ex (uniq x) xs \<Longrightarrow> vec_ok uniq xs0 (v\<lparr>sv_log := sv_log v @ [(t, x, 0)]\<rparr>) xs"
    and "x \<notin> set xs \<Longrightarrow> \<not> list_ex (uniq x) xs \<Longrightarrow>
      seq_adds uniq (map (fst \<circ> snd) (sv_log v @ [(t, x, Suc (length xs))])) \<lparr>cc_items = xs0, cc_next = 1\<rparr> =
        Inr (map (snd \<circ> snd) (sv_log v @ [(t, x, Suc (length xs))]), \<lparr>cc_items = xs @ [x], cc_next = 1\<rparr>)"
proof -
  have seq: "seq_adds uniq (map (fst \<circ> snd) (sv_log v)) \<lparr>cc_items = xs0, cc_next = 1\<rparr> =
      Inr (map (snd \<circ> snd) (sv_log v), \<lparr>cc_items = xs, cc_next = 1\<rparr>)"
    using assms by (simp add: vec_ok_def)
  note snoc = seq_adds_snoc [OF seq]
  show "vec_ok uniq xs0 (v\<lparr>sv_log := sv_log v @ [(t, x, 0)]\<rparr>) xs" if "x \<in> set xs \<or> list_ex (uniq x) xs"
    using assms that by (simp add: vec_ok_def snoc cc_add_pure)
  show "seq_adds uniq (map (fst \<circ> snd) (sv_log v @ [(t, x, Suc (length xs))])) \<lparr>cc_items = xs0, cc_next = 1\<rparr> =
        Inr (map (snd \<circ> snd) (sv_log v @ [(t, x, Suc (length xs))]), \<lparr>cc_items = xs @ [x], cc_next = 1\<rparr>)"
    if "x \<notin> set xs" "\<not> list_ex (uniq x) xs"
    using that by (simp add: snoc cc_add_pure)
qed

lemma add_turn:
  assumes inv: "vec_ok uniq xs0 v xs" "threads_ok uniq v xs ths" "room v ths" "distinct (map fst (sv_log v))"
    and t: "t < length ths" "ths ! t = (RunAdd x, p)" and step: "add_step uniq grow t x p v = Some r"
  shows "\<exists>p' v'. r = Inr (p', v') \<and> container_inv uniq xs0 \<lparr>cs_vec = v', cs_threads = ths[t := (RunAdd x, p')]\<rparr>"
proof -
  have vec: "sv_heap v (sv_begin v) = Some xs" "sv_size v = length xs" "sv_begin v < sv_next v"
    using inv(1) by (simp_all add: vec_ok_def)
  have own: "thread_ok uniq v xs t (RunAdd x, p)" "in_add p \<longleftrightarrow> sv_lock v = Some t"
    "t \<in> fst ` set (sv_log v) \<longrightarrow> \<not> add_pending (RunAdd x, p)"
    using inv(2) t by (auto simp: threads_ok_def)
  have fresh: "t \<notin> fst ` set (sv_log v)" if "add_pending (RunAdd x, p)" using own(3) that by blast
  have pend: "pending_adds (ths[t := y]) + of_bool (add_pending (RunAdd x, p)) = pending_adds ths + of_bool (add_pending y)" for y
    using pending_update [OF t(1), of y] t(2) by simp
  note keep = turn_keeps [OF inv t]
  show ?thesis
  proof (cases p)
    case TakeLock
    then have "r = Inr (Search, v\<lparr>sv_lock := Some t\<rparr>)" "sv_lock v = None" using step by (auto split: if_splits)
    moreover have "container_inv uniq xs0 \<lparr>cs_vec = v\<lparr>sv_lock := Some t\<rparr>, cs_threads = ths[t := (RunAdd x, Search)]\<rparr>"
      by (rule keep [of _ xs]) (use inv(1,4) fresh pend [of "(RunAdd x, Search)"] TakeLock calculation(2) in \<open>auto simp: vec_ok_def\<close>)
    ultimately show ?thesis by blast
  next
    case Search
    show ?thesis
    proof (cases "x \<in> set xs \<or> list_ex (uniq x) xs")
      case True
      then have "r = Inr (GiveLock 0, v\<lparr>sv_log := sv_log v @ [(t, x, 0)]\<rparr>)" using step Search vec by auto
      moreover have "container_inv uniq xs0 \<lparr>cs_vec = v\<lparr>sv_log := sv_log v @ [(t, x, 0)]\<rparr>, cs_threads = ths[t := (RunAdd x, GiveLock 0)]\<rparr>"
        by (rule keep [of _ xs]) (use inv(4) vec_ok_log(1) [OF inv(1) True] fresh own(2) pend [of "(RunAdd x, GiveLock 0)"] Search in auto)
      ultimately show ?thesis by blast
    next
      case False
      then have "r = Inr (PushBack, v)" using step Search vec by auto
      moreover have "container_inv uniq xs0 \<lparr>cs_vec = v, cs_threads = ths[t := (RunAdd x, PushBack)]\<rparr>"
        by (rule keep [of _ xs]) (use inv(1,4) False fresh own(2) pend [of "(RunAdd x, PushBack)"] Search in auto)
      ultimately show ?thesis by blast
    qed
  next
    case PushBack
    then have new: "x \<notin> set xs" "\<not> list_ex (uniq x) xs" using own(1) by auto
    show ?thesis
    proof (cases "sv_size v < sv_capacity v")
      case True
      let ?v = "v\<lparr>sv_heap := (sv_heap v)(sv_begin v \<mapsto> xs @ [x]), sv_size := Suc (sv_size v), sv_log := sv_log v @ [(t, x, Suc (sv_size v))]\<rparr>"
      have "r = Inr (GiveLock (Suc (sv_size v)), ?v)" using step PushBack vec True by auto
      moreover have "vec_ok uniq xs0 ?v (xs @ [x])"
        using vec vec_ok_log(2) [OF inv(1) new] by (simp add: vec_ok_def)
      then have "container_inv uniq xs0 \<lparr>cs_vec = ?v, cs_threads = ths[t := (RunAdd x, GiveLock (Suc (sv_size v)))]\<rparr>"
        by (rule keep [of _ "xs @ [x]"]) (use inv(4) fresh own(2) pend [of "(RunAdd x, GiveLock (Suc (sv_size v)))"] PushBack in auto)
      ultimately show ?thesis by blast
    next
      case False
      let ?v = "v\<lparr>sv_heap := (sv_heap v)(sv_next v \<mapsto> xs @ [x]), sv_next := Suc (sv_next v)\<rparr>"
      have "r = Inr (Move (sv_next v), ?v)" using step PushBack vec False by auto
      moreover have "vec_ok uniq xs0 ?v xs" using inv(1) by (auto simp: vec_ok_def)
      then have "container_inv uniq xs0 \<lparr>cs_vec = ?v, cs_threads = ths[t := (RunAdd x, Move (sv_next v))]\<rparr>"
        by (rule keep [of _ xs]) (use vec new False inv(4) fresh own(2) pend [of "(RunAdd x, Move (sv_next v))"] PushBack in auto)
      ultimately show ?thesis by blast
    qed
  next
    case (Move a)
    then have new: "x \<notin> set xs" "\<not> list_ex (uniq x) xs" "\<not> sv_size v < sv_capacity v" "a < sv_next v" "a \<noteq> sv_begin v"
      "sv_heap v a = Some (xs @ [x])" using own(1) by auto
    have "0 < pending_adds ths" using pend [of "(RunAdd x, GiveLock 0)"] Move by simp
    then have only: "list_all (\<lambda>(k, p). is_add k) ths" and full: "\<not> sv_size v + pending_adds ths \<le> sv_capacity v"
      using inv(3) new(3) by (auto simp: room_def)
    let ?v = "v\<lparr>sv_heap := (sv_heap v)(sv_begin v := None), sv_begin := a, sv_size := Suc (sv_size v), sv_capacity := grow (sv_size v),
       sv_log := sv_log v @ [(t, x, Suc (sv_size v))]\<rparr>"
    have "r = Inr (GiveLock (Suc (sv_size v)), ?v)" using step Move by auto
    moreover have "vec_ok uniq xs0 ?v (xs @ [x])"
      using vec new vec_ok_log(2) [OF inv(1) new(1,2)] by (simp add: vec_ok_def)
    then have "container_inv uniq xs0 \<lparr>cs_vec = ?v, cs_threads = ths[t := (RunAdd x, GiveLock (Suc (sv_size v)))]\<rparr>"
      by (rule keep [of _ "xs @ [x]"]) (use only full inv(4) fresh own(2) Move in auto)
    ultimately show ?thesis by blast
  next
    case (GiveLock n)
    then have "r = Inr (Added n, v\<lparr>sv_lock := None\<rparr>)" using step by auto
    moreover have "container_inv uniq xs0 \<lparr>cs_vec = v\<lparr>sv_lock := None\<rparr>, cs_threads = ths[t := (RunAdd x, Added n)]\<rparr>"
      by (rule keep [of _ xs]) (use inv(1,4) own pend [of "(RunAdd x, Added n)"] GiveLock in \<open>auto simp: vec_ok_def\<close>)
    ultimately show ?thesis by blast
  qed (use step in auto)
qed

lemma get_turn:
  assumes inv: "vec_ok uniq xs0 v xs" "threads_ok uniq v xs ths" "room v ths" "distinct (map fst (sv_log v))"
    and t: "t < length ths" "ths ! t = (RunGet i, p)" and step: "get_step i p v = Some r"
  shows "\<exists>p'. r = Inr (p', v) \<and> container_inv uniq xs0 \<lparr>cs_vec = v, cs_threads = ths[t := (RunGet i, p')]\<rparr>"
proof -
  have vec: "sv_heap v (sv_begin v) = Some xs" "sv_size v = length xs"
    using inv(1) by (simp_all add: vec_ok_def)
  have own: "thread_ok uniq v xs t (RunGet i, p)" "in_add p \<longleftrightarrow> sv_lock v = Some t"
    using inv(2) t by (auto simp: threads_ok_def)
  have pend: "pending_adds (ths[t := (RunGet i, p')]) = pending_adds ths" for p'
    using pending_update [OF t(1), of "(RunGet i, p')"] t(2) by simp
  have keep: "container_inv uniq xs0 \<lparr>cs_vec = v, cs_threads = ths[t := (RunGet i, p')]\<rparr>"
    if "thread_ok uniq v xs t (RunGet i, p')" "\<not> in_add p" "\<not> in_add p'" for p'
    by (rule turn_keeps [OF inv t]) (use that inv own(2) pend in auto)
  show ?thesis
  proof (cases p)
    case ReadSize
    show ?thesis
    proof (cases "i \<noteq> 0 \<and> i \<le> length xs")
      case True
      then have "r = Inr (ReadBegin, v)" using step ReadSize vec by auto
      then show ?thesis using True ReadSize keep by auto
    next
      case False
      then have "r = Inr (Got None, v)" using step ReadSize vec by auto
      then show ?thesis using keep [of "Got None"] ReadSize by auto
    qed
  next
    case ReadBegin
    then show ?thesis using step vec own(1) by (auto intro!: keep)
  next
    case (ReadItem a)
    then have "r = Inr (Got (Some (xs ! (i - 1))), v)" using step vec own(1) by (auto simp: vec_index_def)
    then show ?thesis using own(1) ReadItem by (auto intro!: keep)
  qed (use step in auto)
qed

lemma container_turn_keeps:
  assumes "container_inv uniq xs0 s"
  shows "\<exists>s'. container_turn uniq grow t s = Inr s' \<and> container_inv uniq xs0 s'"
proof -
  obtain xs where inv: "vec_ok uniq xs0 (cs_vec s) xs" "threads_ok uniq (cs_vec s) xs (cs_threads s)" "room (cs_vec s) (cs_threads s)"
    "distinct (map fst (sv_log (cs_vec s)))"
    using assms by (auto simp: container_inv_def)
  show ?thesis
  proof (cases "t < length (cs_threads s)")
    case True
    obtain k p where kp: "cs_threads s ! t = (k, p)" by (cases "cs_threads s ! t")
    show ?thesis
    proof (cases "container_step uniq grow t k p (cs_vec s)")
      case None
      then show ?thesis using assms True kp by (simp add: container_turn_def)
    next
      case (Some r)
      have "\<exists>p' v'. r = Inr (p', v') \<and> container_inv uniq xs0 \<lparr>cs_vec = v', cs_threads = (cs_threads s)[t := (k, p')]\<rparr>"
      proof (cases k)
        case (RunAdd x)
        then show ?thesis using add_turn [OF inv True] kp Some by simp
      next
        case (RunGet i)
        then show ?thesis using get_turn [OF inv True] kp Some by fastforce
      qed
      then show ?thesis using True kp Some by (auto simp: container_turn_def)
    qed
  qed (use assms in \<open>simp add: container_turn_def\<close>)
qed

lemma container_start_inv:
  assumes "list_all is_add tasks \<or> length xs + length (filter is_add tasks) \<le> capacity"
  shows "container_inv uniq xs (container_start xs capacity tasks)"
proof -
  let ?ths = "map (\<lambda>k. (k, container_entry k)) tasks"
  have entry: "add_pending (k, container_entry k) \<longleftrightarrow> is_add k" "thread_ok uniq v xs t (k, container_entry k)"
    "\<not> in_add (container_entry k)" for k v t
    by (cases k; simp)+
  have "pending_adds ?ths = length (filter is_add tasks)"
    by (simp add: pending_adds_def filter_map o_def entry)
  then show ?thesis
    using assms entry unfolding container_inv_def container_start_def
    by (intro exI [of _ xs]) (auto simp: vec_ok_def threads_ok_def room_def list_all_iff)
qed

section \<open>Every call can finish\<close>

fun steps_left :: "'i container_place \<Rightarrow> nat" where
  "steps_left TakeLock = 5" | "steps_left Search = 4" | "steps_left PushBack = 3" | "steps_left (Move a) = 2"
| "steps_left (GiveLock n) = 1" | "steps_left (Added n) = 0"
| "steps_left ReadSize = 3" | "steps_left ReadBegin = 2" | "steps_left (ReadItem a) = 1" | "steps_left (Got r) = 0"

definition all_steps_left :: "'i container_state \<Rightarrow> nat" where
  "all_steps_left s = sum_list (map (steps_left \<circ> snd) (cs_threads s))"

lemma steps_shrink: "container_step uniq grow t k p v = Some (Inr (p', v')) \<Longrightarrow> steps_left p' < steps_left p"
  by (cases k; cases p) (auto split: if_splits option.splits)

lemma step_enabled:
  assumes "thread_ok uniq v xs t (k, p)" and "steps_left p \<noteq> 0" and "p = TakeLock \<longrightarrow> sv_lock v = None"
  shows "container_step uniq grow t k p v \<noteq> None"
  using assms by (cases k; cases p) auto

lemma some_turn_shrinks:
  assumes inv: "container_inv uniq xs0 s" and left: "all_steps_left s \<noteq> 0"
  shows "\<exists>t s'. container_turn uniq grow t s = Inr s' \<and> all_steps_left s' < all_steps_left s"
proof -
  obtain xs where ok: "threads_ok uniq (cs_vec s) xs (cs_threads s)"
    using inv by (auto simp: container_inv_def)
  obtain u where u: "u < length (cs_threads s)" "steps_left (snd (cs_threads s ! u)) \<noteq> 0"
    using left by (auto simp: all_steps_left_def in_set_conv_nth)
  obtain t where t: "t < length (cs_threads s)" "steps_left (snd (cs_threads s ! t)) \<noteq> 0"
    "snd (cs_threads s ! t) = TakeLock \<longrightarrow> sv_lock (cs_vec s) = None"
  proof (cases "sv_lock (cs_vec s)")
    case None
    then show ?thesis using that u by blast
  next
    case (Some t)
    then have "t < length (cs_threads s)" "in_add (snd (cs_threads s ! t))" using ok by (auto simp: threads_ok_def)
    then show ?thesis using that [of t] by (cases "snd (cs_threads s ! t)") auto
  qed
  obtain k p where kp: "cs_threads s ! t = (k, p)" by (cases "cs_threads s ! t")
  have "thread_ok uniq (cs_vec s) xs t (k, p)" using ok t(1) kp by (auto simp: threads_ok_def)
  then obtain r where r: "container_step uniq grow t k p (cs_vec s) = Some r"
    using step_enabled t kp by (metis not_Some_eq snd_conv)
  obtain s' where s': "container_turn uniq grow t s = Inr s'" using container_turn_keeps [OF inv] by blast
  then obtain p' v' where new: "r = Inr (p', v')" "s' = \<lparr>cs_vec = v', cs_threads = (cs_threads s)[t := (k, p')]\<rparr>"
    using t(1) kp r by (auto simp: container_turn_def)
  have "all_steps_left s' + steps_left p = all_steps_left s + steps_left p'"
    using t(1) kp elem_le_sum_list [of t "map (steps_left \<circ> snd) (cs_threads s)"]
    by (simp add: all_steps_left_def new(2) map_update sum_list_update)
  then show ?thesis using s' steps_shrink r new(1) by fastforce
qed

interpretation container: interleaved "container_turn uniq grow" "container_inv uniq xs0" all_steps_left for uniq grow xs0
  by unfold_locales (simp_all add: container_turn_keeps some_turn_shrinks)

lemma container_run_tasks:
  "container_run uniq grow ts s = Inr s' \<Longrightarrow> map fst (cs_threads s') = map fst (cs_threads s)"
proof (induction ts arbitrary: s)
  case (Cons t ts)
  obtain s1 where s1: "container_turn uniq grow t s = Inr s1" "container_run uniq grow ts s1 = Inr s'"
    using Cons.prems by (auto simp: container_run_def)
  have "map fst (cs_threads s1) = map fst (cs_threads s)"
    using s1(1) by (auto simp: container_turn_def map_update list_update_same_conv split: if_splits prod.splits option.splits)
  then show ?case using Cons.IH [OF s1(2)] by simp
qed (simp add: container_run_def)

section \<open>What the threads see\<close>

text \<open>
  What a finished thread has got, given the items and the log.
\<close>

fun result_ok :: "'i list \<Rightarrow> (nat \<times> 'i \<times> nat) list \<Rightarrow> nat \<Rightarrow> 'i container_task \<times> 'i container_place \<Rightarrow> bool" where
  "result_ok items answers t (RunAdd x, Added n) = ((t, x, n) \<in> set answers)"
| "result_ok items answers t (RunGet i, Got (Some y)) = (0 < i \<and> i \<le> length items \<and> y = items ! (i - 1))"
| "result_ok items answers t _ = True"

lemma thread_ok_result: "thread_ok uniq v xs t kp \<Longrightarrow> result_ok xs (sv_log v) t kp"
  by (cases "(xs, sv_log v, t, kp)" rule: result_ok.cases) auto

text \<open>
  C28. Whatever calls of \<open>Add\<close> run at once, alone or beside calls of \<open>Get\<close> when the vector has room for all the new items, and however
  their statements interleave: no thread reads freed memory, the answers and the items are those of the same calls
  of the sequential \<open>cc_add\<close> made one after the other, each thread once; what \<open>Get\<close> returns is an
  item of the container, which keeps its number; and all threads can finish.
\<close>

theorem adds_linearizable:
  assumes "list_all is_add tasks \<or> length xs + length (filter is_add tasks) \<le> capacity"
  shows "\<exists>s items. container_run uniq grow ts (container_start xs capacity tasks) = Inr s \<and>
    sv_heap (cs_vec s) (sv_begin (cs_vec s)) = Some items \<and> sv_size (cs_vec s) = length items \<and>
    seq_adds uniq (map (fst \<circ> snd) (sv_log (cs_vec s))) \<lparr>cc_items = xs, cc_next = 1\<rparr> =
      Inr (map (snd \<circ> snd) (sv_log (cs_vec s)), \<lparr>cc_items = items, cc_next = 1\<rparr>) \<and>
    distinct (map fst (sv_log (cs_vec s))) \<and> map fst (cs_threads s) = tasks \<and>
    list_all (\<lambda>(t, kp). result_ok items (sv_log (cs_vec s)) t kp) (enumerate 0 (cs_threads s)) \<and>
    (\<exists>ts' s'. container_run uniq grow ts' s = Inr s' \<and> all_steps_left s' = 0)"
proof -
  have "container_inv uniq xs (container_start xs capacity tasks)" using assms by (rule container_start_inv)
  then obtain s where s: "container_run uniq grow ts (container_start xs capacity tasks) = Inr s" "container_inv uniq xs s"
    using container.run_keeps unfolding container_run_def by blast
  obtain items where items: "vec_ok uniq xs (cs_vec s) items" "threads_ok uniq (cs_vec s) items (cs_threads s)"
    "distinct (map fst (sv_log (cs_vec s)))"
    using s(2) by (auto simp: container_inv_def)
  have "list_all (\<lambda>(t, kp). result_ok items (sv_log (cs_vec s)) t kp) (enumerate 0 (cs_threads s))"
    using items(2) by (auto simp: list_all_length threads_ok_def nth_enumerate_eq intro: thread_ok_result)
  moreover have "map fst (cs_threads s) = tasks"
    using container_run_tasks [OF s(1)] by (simp add: container_start_def o_def)
  ultimately show ?thesis
    using s(1) items(1,3) container.can_finish [OF s(2), of grow]
    by (intro exI [of _ s] exI [of _ items]) (simp add: vec_ok_def container_run_def)
qed

text \<open>
  Two clients register the same login at once on a container that must grow: one gets number 2, the other is refused, though both
  saw the mutex free at their start.
\<close>

lemma adds_linearizable_witness:
  "\<exists>s items. container_run (=) (\<lambda>n. 2 * n) [1, 0, 1, 1, 1, 0, 1, 0, 0, 0] (container_start [''anna''] 1 [RunAdd ''bert'', RunAdd ''bert'']) = Inr s \<and>
    sv_log (cs_vec s) = [(1, ''bert'', 2), (0, ''bert'', 0)] \<and> all_steps_left s = 0 \<and>
    seq_adds (=) [''bert'', ''bert''] \<lparr>cc_items = [''anna''], cc_next = 1\<rparr> = Inr ([2, 0], \<lparr>cc_items = items, cc_next = 1\<rparr>) \<and>
    sv_heap (cs_vec s) (sv_begin (cs_vec s)) = Some items"
proof -
  let ?s0 = "container_start [''anna''] 1 [RunAdd ''bert'', RunAdd ''bert'']"
  have "list_all is_add [RunAdd ''bert'', RunAdd ''bert''] \<or>
      length [''anna''] + length (filter is_add [RunAdd ''bert'', RunAdd ''bert'']) \<le> 1" by simp
  from adds_linearizable [OF this, of "(=)" "\<lambda>n. 2 * n" "[1, 0, 1, 1, 1, 0, 1, 0, 0, 0]"]
  obtain s items where s: "container_run (=) (\<lambda>n. 2 * n) [1, 0, 1, 1, 1, 0, 1, 0, 0, 0] ?s0 = Inr s"
    "sv_heap (cs_vec s) (sv_begin (cs_vec s)) = Some items"
    "seq_adds (=) (map (fst \<circ> snd) (sv_log (cs_vec s))) \<lparr>cc_items = [''anna''], cc_next = 1\<rparr> =
      Inr (map (snd \<circ> snd) (sv_log (cs_vec s)), \<lparr>cc_items = items, cc_next = 1\<rparr>)"
    by blast
  moreover have "sv_log (cs_vec s) = [(1, ''bert'', 2), (0, ''bert'', 0)]" "all_steps_left s = 0"
    using s(1) by (auto simp: container_run_def container_turn_def container_start_def all_steps_left_def)
  ultimately show ?thesis by auto
qed

section \<open>The race\<close>

text \<open>
  C33. In any full container, a thread inside a valid \<open>Get( index )\<close> that has read where the buffer lies reads it after it is freed, when an
  \<open>Add\<close> of a new item on another thread gets its five statements in between: the comment of the source leaves the lock out of \<open>Get\<close>.
\<close>

theorem get_reads_freed_buffer:
  assumes "0 < index" "index \<le> length xs" and "x \<notin> set xs" "\<not> list_ex (uniq x) xs" and "capacity \<le> length xs"
  shows "container_run uniq grow [1, 1, 0, 0, 0, 0, 1] (container_start xs capacity [RunAdd x, RunGet index]) = Inl UseAfterFree"
  using assms by (simp add: container_run_def container_turn_def container_start_def)

lemma get_reads_freed_buffer_witness:
  "container_run (=) (\<lambda>n. 2 * n) [1, 1, 0, 0, 0, 0, 1] (container_start [''anna''] 1 [RunAdd ''bert'', RunGet 1]) = Inl UseAfterFree"
  by (rule get_reads_freed_buffer) simp_all

end
