(* ===== verification/Server.thy ===== *)
theory Server
  imports Rpc Thread_Pool Timer_Master
begin

text \<open>
  \<open>src/server/network/Server.hpp\<close> and \<open>Server.cpp\<close> on top of the connections, the pool of
  services, the timers and the notifier. A step is one call of the server, one completion of
  an accept, or one step of a connection (the expiry of its timer is one) with what it tells the server.
\<close>

section \<open>State\<close>

text \<open>
  Connections and acceptor resources are objects at addresses; an acceptor resource (the
  acceptor, the pointer to its next socket and that socket, which live and die together) is
  alive or deleted. \<open>s_accepts\<close> are the accepts asio holds, each with the members of its handler.
  The hash set of channels is kept in the order of insertion. The connections are of any class
  derived from \<open>Connection\<close>: what they do when they run is the environment \<open>se_conn\<close>, \<open>se_span\<close> is
  the virtual \<open>Span\<close> on the n-th socket, and \<open>se_told\<close> reads from the world of a connection
  how often it has told the server, its listener 0, that it closed.
\<close>

record ('b, 'z, 'w) server_env =
  se_conn :: "('b, 'z, 'w) conn_env"
  se_span :: "nat \<Rightarrow> ('b, 'z, 'w) conn option outcome"
  se_told :: "'w \<Rightarrow> nat"

record ('b, 'z, 'w) server =
  s_pool :: io_pool
  s_timers :: "nat timer_master"
  s_notifier :: notifier
  s_drain :: int
  s_conns :: "nat \<Rightarrow> ('b, 'z, 'w) conn option"
  s_fresh :: nat
  s_channels :: "nat list"
  s_acceptors :: "(string \<times> nat) list"
  s_resources :: "nat list"
  s_accepts :: "(nat \<times> string) list"
  s_stop_shared :: nat

definition server_new :: "nat \<Rightarrow> nat \<Rightarrow> int \<Rightarrow> ('b, 'z, 'w) server" where
  "server_new io_service_number worker_threads drain_timeout =
     \<lparr>s_pool = iop_new ''ServerIOService'' io_service_number worker_threads, s_timers = new_timer_master,
      s_notifier = notifier_new 1, s_drain = drain_timeout, s_conns = (\<lambda>_. None), s_fresh = 0,
      s_channels = [], s_acceptors = [], s_resources = [], s_accepts = [], s_stop_shared = 0\<rparr>"

definition stop_lock_shared :: "('b, 'z, 'w) server \<Rightarrow> ('b, 'z, 'w) server" where
  "stop_lock_shared s = s\<lparr>s_stop_shared := s_stop_shared s + 1\<rparr>"

definition stop_unlock_shared :: "('b, 'z, 'w) server \<Rightarrow> ('b, 'z, 'w) server" where
  "stop_unlock_shared s = s\<lparr>s_stop_shared := s_stop_shared s - 1\<rparr>"

section \<open>Acceptors\<close>

definition acceptor_release :: "nat \<Rightarrow> ('b, 'z, 'w) server \<Rightarrow> ('b, 'z, 'w) server outcome" where
  "acceptor_release a s =
     (if a \<in> set (s_resources s) then Inr (s\<lparr>s_resources := remove1 a (s_resources s)\<rparr>) else Inl UseAfterFree)"

definition release_acceptor :: "string \<Rightarrow> ('b, 'z, 'w) server \<Rightarrow> ('b, 'z, 'w) server outcome" where
  "release_acceptor host s =
     (case map_of (s_acceptors s) host of None \<Rightarrow> Inr s | Some a \<Rightarrow> acceptor_release a s)"

text \<open>
  \<open>Listen\<close>. \<open>sys\<close> tells whether resolving, opening, binding and listening succeed; otherwise one
  of them throws. \<open>hash_map::insert\<close> leaves an entry that is there.
\<close>

definition listen :: "string \<Rightarrow> string \<Rightarrow> bool \<Rightarrow> ('b, 'z, 'w) server \<Rightarrow> ('b, 'z, 'w) server outcome" where
  "listen address port sys s =
     bind_outcome (iop_start (s_pool s)) (\<lambda>pool.
     bind_outcome (iop_get pool) (\<lambda>(io_acceptor, pool).
     bind_outcome (check SystemError sys) (\<lambda>_.
     bind_outcome (iop_get pool) (\<lambda>(io_socket, pool).
     let a = s_fresh s; host = address @ ''::'' @ port
     in Inr (s\<lparr>s_pool := pool, s_timers := tm_start (s_timers s), s_fresh := a + 1, s_resources := a # s_resources s,
          s_acceptors := (if map_of (s_acceptors s) host = None then (host, a) # s_acceptors s else s_acceptors s),
          s_accepts := (a, host) # s_accepts s\<rparr>)))))"

section \<open>Channels\<close>

text \<open>\<open>ConnectionClosed\<close>, called from a connection that closes.\<close>

definition connection_closed :: "nat \<Rightarrow> ('b, 'z, 'w) server \<Rightarrow> ('b, 'z, 'w) server outcome" where
  "connection_closed k s =
     (if k \<in> set (s_channels s)
      then bind_outcome (notifier_dec 1 (s_notifier s))
             (\<lambda>n. Inr (s\<lparr>s_channels := remove1 k (s_channels s), s_notifier := n\<rparr>))
      else Inr s)"

fun connection_closed_times :: "nat \<Rightarrow> nat \<Rightarrow> ('b, 'z, 'w) server \<Rightarrow> ('b, 'z, 'w) server outcome" where
  "connection_closed_times 0 k s = Inr s"
| "connection_closed_times (Suc n) k s = bind_outcome (connection_closed k s) (connection_closed_times n k)"

text \<open>
  A connection as a \<open>Timer\<close>, over all connections by address; \<open>sent k\<close> is the fate of the
  heartbeats of connection \<open>k\<close>. A fault in an \<open>Expired\<close> ends the process, after which nothing
  else expires.
\<close>

definition conn_timers ::
  "('b, 'z, 'w) conn_env \<Rightarrow> (nat \<Rightarrow> bool) \<Rightarrow> (nat, (nat \<Rightarrow> ('b, 'z, 'w) conn option) outcome) timer_api" where
  "conn_timers env sent =
     \<lparr>api_alive = (\<lambda>k W. case W of Inl _ \<Rightarrow> False | Inr H \<Rightarrow> H k \<noteq> None),
      api_period = (\<lambda>k W. case W of Inl _ \<Rightarrow> False
        | Inr H \<Rightarrow> (case H k of None \<Rightarrow> False | Some c \<Rightarrow> conn_period c)),
      api_timeout = (\<lambda>k W. case W of Inl _ \<Rightarrow> kTimeoutSec
        | Inr H \<Rightarrow> (case H k of None \<Rightarrow> kTimeoutSec | Some c \<Rightarrow> conn_timeout c)),
      api_expired = (\<lambda>k W. bind_outcome W (\<lambda>H. case H k of None \<Rightarrow> Inr H
        | Some c \<Rightarrow> bind_outcome (conn_expired env (sent k) c) (\<lambda>c'. Inr (H(k \<mapsto> c')))))\<rparr>"

text \<open>
  \<open>HandleAccept\<close>. Between \<open>Span\<close>, which starts the reads, and the registration of the listener
  the new connection may already take steps of its own: \<open>early\<close>. Two returns keep the shared
  hold of \<open>stop_mutex_\<close>.
\<close>

definition handle_accept ::
  "('b, 'z, 'w) server_env \<Rightarrow> (('b, 'z, 'w) conn \<Rightarrow> ('b, 'z, 'w) conn outcome) \<Rightarrow> nat
     \<Rightarrow> ('b, 'z, 'w) server \<Rightarrow> ('b, 'z, 'w) server outcome" where
  "handle_accept E early socket s =
     (let s = stop_lock_shared s in
      if \<not> iop_is_running (s_pool s) then Inr (stop_unlock_shared s)
      else
        bind_outcome (se_span E socket) (\<lambda>connection.
        case connection of
          None \<Rightarrow> Inr s
        | Some c \<Rightarrow>
            bind_outcome (early c) (\<lambda>c.
            let (ok, c) = register_listener 0 c in
            if \<not> ok then
              bind_outcome (conn_disconnect (se_conn E) c) (\<lambda>c. Inr s)
            else
              let k = s_fresh s;
                  s = s\<lparr>s_conns := (s_conns s)(k \<mapsto> c), s_fresh := k + 1, s_channels := s_channels s @ [k]\<rparr>
              in bind_outcome (tm_register (conn_timers (se_conn E) (\<lambda>_. True)) k (Inr (s_conns s)) (s_timers s)) (\<lambda>timers.
                 bind_outcome (notifier_inc 1 (s_notifier s)) (\<lambda>n.
                 Inr (stop_unlock_shared (s\<lparr>s_timers := timers, s_notifier := n\<rparr>)))))))"

text \<open>\<open>AcceptorHandler::operator()\<close> of the accept on resource \<open>a\<close> for \<open>host\<close>.\<close>

definition accept_done ::
  "('b, 'z, 'w) server_env \<Rightarrow> (('b, 'z, 'w) conn \<Rightarrow> ('b, 'z, 'w) conn outcome) \<Rightarrow> bool \<Rightarrow> bool \<Rightarrow> nat \<Rightarrow> nat \<times> string
     \<Rightarrow> ('b, 'z, 'w) server \<Rightarrow> ('b, 'z, 'w) server outcome" where
  "accept_done E early err is_open socket ah s =
     (let s = s\<lparr>s_accepts := remove1 ah (s_accepts s)\<rparr> in
      if \<not> err then
        if fst ah \<notin> set (s_resources s) then Inl UseAfterFree
        else
          let s = s\<lparr>s_accepts := ah # s_accepts s\<rparr>
          in if is_open then handle_accept E early socket s else Inr s
      else release_acceptor (snd ah) s)"

text \<open>\<open>Stop\<close>: the loops over the channels and over the acceptors, then the whole.\<close>

fun stop_channels ::
  "('b, 'z, 'w) server_env \<Rightarrow> nat list \<Rightarrow> ('b, 'z, 'w) server \<Rightarrow> ('b, 'z, 'w) server outcome" where
  "stop_channels E [] s = Inr s"
| "stop_channels E (k # ks) s =
     (case s_conns s k of
        None \<Rightarrow> Inl UseAfterFree
      | Some c \<Rightarrow>
          bind_outcome (conn_disconnect (se_conn E) c) (\<lambda>c.
          bind_outcome (notifier_dec 1 (s_notifier s)) (\<lambda>n.
          stop_channels E ks (s\<lparr>s_conns := (s_conns s)(k \<mapsto> c), s_notifier := n\<rparr>))))"

definition release_all :: "(string \<times> nat) list \<Rightarrow> ('b, 'z, 'w) server \<Rightarrow> ('b, 'z, 'w) server outcome" where
  "release_all = fold_outcome (\<lambda>(host, a). acceptor_release a)"

definition stop ::
  "('b, 'z, 'w) server_env \<Rightarrow> (nat pool \<Rightarrow> nat pool) \<Rightarrow> ('b, 'z, 'w) server \<Rightarrow> ('b, 'z, 'w) server outcome" where
  "stop E joins s =
     bind_outcome (check SelfDeadlock (s_stop_shared s = 0)) (\<lambda>_.
     if \<not> iop_is_running (s_pool s) then Inr s
     else
       bind_outcome (stop_channels E (s_channels s) s) (\<lambda>s.
       bind_outcome (notifier_dec 1 (s_notifier s)) (\<lambda>n.
       let s = s\<lparr>s_notifier := n, s_channels := []\<rparr> in
       bind_outcome (check Blocked (notifier_wait False (s_notifier s))) (\<lambda>_.
       bind_outcome (release_all (s_acceptors s) s) (\<lambda>s.
       let s = s\<lparr>s_acceptors := [], s_pool := iop_stop joins (s_pool s), s_timers := tm_stop (s_timers s)\<rparr>
       in bind_outcome (check CheckFailed (s_channels s = [])) (\<lambda>_. Inr s))))))"

definition delete_server ::
  "('b, 'z, 'w) server_env \<Rightarrow> (nat pool \<Rightarrow> nat pool) \<Rightarrow> ('b, 'z, 'w) server \<Rightarrow> ('b, 'z, 'w) server outcome" where
  "delete_server E joins s = (if iop_is_running (s_pool s) then stop E joins s else Inr s)"

section \<open>Steps\<close>

text \<open>A step of connection \<open>k\<close>, then the calls of \<open>ConnectionClosed\<close> it has made.\<close>

definition conn_step ::
  "('b, 'z, 'w) server_env \<Rightarrow> nat \<Rightarrow> conn_event \<Rightarrow> ('b, 'z, 'w) server \<Rightarrow> ('b, 'z, 'w) server outcome" where
  "conn_step E k ev s =
     (case s_conns s k of
        None \<Rightarrow> Inr s
      | Some c \<Rightarrow>
          bind_outcome (conn_exec (se_conn E) ev c) (\<lambda>c'.
          connection_closed_times (se_told E (c_world c') - se_told E (c_world c)) k
            (s\<lparr>s_conns := (s_conns s)(k \<mapsto> c')\<rparr>)))"

section \<open>Histories\<close>

text \<open>
  The steps of a connection before the server is its listener, when they can occur; and the
  histories of a server, with the number of accepts that have completed with an error. The
  counts stay within \<open>int\<close>.
\<close>

definition early_steps :: "('b, 'z, 'w) conn_env \<Rightarrow> conn_event list \<Rightarrow> ('b, 'z, 'w) conn \<Rightarrow> ('b, 'z, 'w) conn outcome" where
  "early_steps env = fold_outcome (conn_exec env)"

fun events_ok :: "('b, 'z, 'w) conn_env \<Rightarrow> conn_event list \<Rightarrow> ('b, 'z, 'w) conn \<Rightarrow> bool" where
  "events_ok env [] c \<longleftrightarrow> True"
| "events_ok env (ev # evs) c \<longleftrightarrow> event_ok (e_buf env) ev c \<and>
     (case conn_exec env ev c of Inl _ \<Rightarrow> True | Inr c' \<Rightarrow> events_ok env evs c')"

definition room :: "('b, 'z, 'w) server \<Rightarrow> bool" where
  "room s \<longleftrightarrow> in_i32 (n_count (s_notifier s) + 1) \<and> kTimeoutSec + timer_jiffies (s_timers s) \<le> INT_MAX"

inductive server_run :: "('b, 'z, 'w) server_env \<Rightarrow> ('b, 'z, 'w) server \<Rightarrow> nat \<Rightarrow> ('b, 'z, 'w) server \<Rightarrow> bool" for E s0 where
  run_created: "server_run E s0 0 s0"
| run_listens: "server_run E s0 errs s \<Longrightarrow> listen address port sys s = Inr s' \<Longrightarrow> server_run E s0 errs s'"
| run_accepts: "server_run E s0 errs s \<Longrightarrow> ah \<in> set (s_accepts s) \<Longrightarrow> room s \<Longrightarrow>
    (\<And>c. se_span E socket = Inr (Some c) \<Longrightarrow> events_ok (se_conn E) evs c) \<Longrightarrow>
    accept_done E (early_steps (se_conn E) evs) err is_open socket ah s = Inr s' \<Longrightarrow>
    server_run E s0 (errs + (if err then 1 else 0)) s'"
| run_connection: "server_run E s0 errs s \<Longrightarrow> (\<And>c. s_conns s k = Some c \<Longrightarrow> event_ok (e_buf (se_conn E)) ev c) \<Longrightarrow>
    conn_step E k ev s = Inr s' \<Longrightarrow> server_run E s0 errs s'"
| run_stops: "server_run E s0 errs s \<Longrightarrow> stop E joins s = Inr s' \<Longrightarrow> server_run E s0 errs s'"

text \<open>
  The same histories, with a note whether a \<open>Stop\<close> has found the pool running, and so has gone
  through to its end.
\<close>

inductive server_history ::
  "('b, 'z, 'w) server_env \<Rightarrow> ('b, 'z, 'w) server \<Rightarrow> nat \<Rightarrow> bool \<Rightarrow> ('b, 'z, 'w) server \<Rightarrow> bool" for E s0 where
  history_created: "server_history E s0 0 False s0"
| history_listens: "server_history E s0 errs stopped s \<Longrightarrow> listen address port sys s = Inr s' \<Longrightarrow>
    server_history E s0 errs stopped s'"
| history_accepts: "server_history E s0 errs stopped s \<Longrightarrow> ah \<in> set (s_accepts s) \<Longrightarrow> room s \<Longrightarrow>
    (\<And>c. se_span E socket = Inr (Some c) \<Longrightarrow> events_ok (se_conn E) evs c) \<Longrightarrow>
    accept_done E (early_steps (se_conn E) evs) err is_open socket ah s = Inr s' \<Longrightarrow>
    server_history E s0 (errs + (if err then 1 else 0)) stopped s'"
| history_connection: "server_history E s0 errs stopped s \<Longrightarrow>
    (\<And>c. s_conns s k = Some c \<Longrightarrow> event_ok (e_buf (se_conn E)) ev c) \<Longrightarrow>
    conn_step E k ev s = Inr s' \<Longrightarrow> server_history E s0 errs stopped s'"
| history_stops: "server_history E s0 errs stopped s \<Longrightarrow> stop E joins s = Inr s' \<Longrightarrow>
    server_history E s0 errs (stopped \<or> iop_is_running (s_pool s)) s'"

lemma history_run: "server_history E s0 errs stopped s \<Longrightarrow> server_run E s0 errs s"
  by (induction rule: server_history.induct) (blast intro: server_run.intros)+

lemma run_history: "server_run E s0 errs s \<Longrightarrow> \<exists>stopped. server_history E s0 errs stopped s"
  by (induction rule: server_run.induct) (blast intro: server_history.intros)+

section \<open>What holds between two steps\<close>

text \<open>
  The count of the notifier is the number of channels, plus one until the first \<open>Stop\<close>. Every
  connection keeps its own invariant; a channel is closing or has the server as listener.
\<close>

definition host_inv ::
  "('b, 'z, 'w) server_env \<Rightarrow> ('z \<Rightarrow> bool) \<Rightarrow> int \<Rightarrow> ('b, 'z, 'w) server \<Rightarrow> bool" where
  "host_inv E M b s \<longleftrightarrow> distinct (s_channels s) \<and> s_stop_shared s = 0 \<and> 1 \<le> timer_jiffies (s_timers s) \<and>
     (\<forall>k c. s_conns s k = Some c \<longrightarrow> k < s_fresh s \<and> conn_inv (e_buf (se_conn E)) M c) \<and>
     (\<forall>k \<in> set (s_channels s). \<exists>c. s_conns s k = Some c \<and> (conn_closing c \<or> 0 \<in> set (c_listeners c))) \<and>
     0 \<le> b \<and> n_count (s_notifier s) = int (length (s_channels s)) + b \<and> in_i32 (n_count (s_notifier s))"

lemma host_inv_new: "host_inv E M 1 (server_new n t d)"
  by (simp add: host_inv_def server_new_def notifier_new_def new_timer_master_def int_range_defs)

text \<open>
  The count of the notifier above the number of the channels: every step but a \<open>Stop\<close> of a running
  server leaves it as it is.
\<close>

definition above :: "('b, 'z, 'w) server \<Rightarrow> int" where
  "above s = n_count (s_notifier s) - int (length (s_channels s))"

lemma host_inv_above: "host_inv E M b s \<Longrightarrow> above s = b"
  by (simp add: host_inv_def above_def)

lemma notifier_dec_one:
  assumes "n_count n = int (Suc k) + b" "0 \<le> b" "in_i32 (n_count n)"
  shows "\<exists>n'. notifier_dec 1 n = Inr n' \<and> n_count n' = int k + b \<and> in_i32 (n_count n')"
proof -
  have c: "count_after 1 (n_count n) = int k + b" using assms by (simp add: count_after_def)
  moreover have "in_i32 (int k + b)" using assms by (simp add: int_range_defs)
  ultimately show ?thesis using dec_result [of n 1] assms by auto
qed

lemma connection_closed_inv:
  assumes "host_inv E M b s"
  shows "\<exists>s'. connection_closed k s = Inr s' \<and> host_inv E M b s' \<and> k \<notin> set (s_channels s') \<and>
    s_channels s' = remove1 k (s_channels s) \<and> s_conns s' = s_conns s \<and> s_pool s' = s_pool s \<and>
    s_acceptors s' = s_acceptors s \<and> s_resources s' = s_resources s"
proof (cases "k \<in> set (s_channels s)")
  case True
  then have len: "length (s_channels s) = Suc (length (remove1 k (s_channels s)))"
    using length_pos_if_in_set [OF True] by (simp add: length_remove1)
  have "n_count (s_notifier s) = int (Suc (length (remove1 k (s_channels s)))) + b" "0 \<le> b" "in_i32 (n_count (s_notifier s))"
    using assms len unfolding host_inv_def by auto
  from notifier_dec_one [OF this] obtain n where "notifier_dec 1 (s_notifier s) = Inr n"
    "n_count n = int (length (remove1 k (s_channels s))) + b" "in_i32 (n_count n)" by blast
  moreover from this True have "connection_closed k s =
      Inr (s\<lparr>s_channels := remove1 k (s_channels s), s_notifier := n\<rparr>)"
    by (simp add: connection_closed_def)
  moreover have "host_inv E M b (s\<lparr>s_channels := remove1 k (s_channels s), s_notifier := n\<rparr>)"
    using assms calculation(2,3) unfolding host_inv_def by (simp add: distinct_remove1 set_remove1_eq)
  moreover have "k \<notin> set (remove1 k (s_channels s))"
    using assms by (simp add: host_inv_def)
  ultimately show ?thesis by simp
next
  case False
  with assms show ?thesis by (simp add: connection_closed_def remove1_idem)
qed

lemma connection_closed_times_inv:
  "host_inv E M b s \<Longrightarrow> \<exists>s'. connection_closed_times n k s = Inr s' \<and> host_inv E M b s' \<and>
    s_channels s' = (if n = 0 then s_channels s else remove1 k (s_channels s)) \<and>
    s_conns s' = s_conns s \<and> s_pool s' = s_pool s \<and>
    s_acceptors s' = s_acceptors s \<and> s_resources s' = s_resources s"
proof (induction n arbitrary: s)
  case (Suc n)
  from connection_closed_inv [OF Suc.prems, of k] obtain s1 where 1: "connection_closed k s = Inr s1"
    "host_inv E M b s1" "k \<notin> set (s_channels s1)" "s_channels s1 = remove1 k (s_channels s)"
    "s_conns s1 = s_conns s" "s_pool s1 = s_pool s" "s_acceptors s1 = s_acceptors s" "s_resources s1 = s_resources s"
    by blast
  from Suc.IH [OF 1(2)] 1 show ?case by (auto simp: remove1_idem)
qed simp

definition attached :: "('b, 'z, 'w) server \<Rightarrow> bool" where
  "attached s \<longleftrightarrow> (\<forall>k c. s_conns s k = Some c \<longrightarrow> c_impl c \<noteq> None \<or> conn_closing c)"

definition acceptors_alive :: "('b, 'z, 'w) server \<Rightarrow> bool" where
  "acceptors_alive s \<longleftrightarrow> distinct (map snd (s_acceptors s)) \<and> snd ` set (s_acceptors s) \<subseteq> set (s_resources s) \<and>
     distinct (s_resources s)"

definition server_ok ::
  "('b, 'z, 'w) server_env \<Rightarrow> ('z \<Rightarrow> bool) \<Rightarrow> nat \<Rightarrow> ('b, 'z, 'w) server \<Rightarrow> bool" where
  "server_ok E M errs s \<longleftrightarrow> (\<exists>b \<le> 1. host_inv E M b s \<and> (b = 0 \<longrightarrow> n_notified (s_notifier s))) \<and> attached s \<and>
     (\<forall>a \<in> set (s_resources s). a < s_fresh s) \<and> (errs = 0 \<longrightarrow> acceptors_alive s)"

text \<open>
  The interface between a server and the class of its connections: \<open>Decode\<close> keeps a connection
  working, and the server hears of a close once for each time it is a listener.
\<close>

locale channel_host =
  fixes E :: "('b, 'z, 'w) server_env" and M :: "'z \<Rightarrow> bool" and F :: "fault \<Rightarrow> bool"
  assumes decode: "decode_ok (se_conn E) M F"
    and alive: "e_alive (se_conn E) 0 w"
    and told_closed: "se_told E (e_closed (se_conn E) l w) = se_told E w + (if l = 0 then 1 else 0)"
    and told_dtor: "se_told E (e_dtor (se_conn E) r w) = se_told E w"
begin

abbreviation "env \<equiv> se_conn E"
abbreviation "A \<equiv> e_buf (se_conn E)"

lemma exec_channel:
  assumes "conn_inv A M c" and "event_ok A ev c"
  shows "case conn_exec env ev c of
      Inl e \<Rightarrow> F e \<and> (\<exists>bytes. ev = ReadDone False bytes)
    | Inr c' \<Rightarrow> conn_inv A M c' \<and> (conn_closing c' \<or> c_listeners c' = c_listeners c) \<and>
        (conn_closing c \<longrightarrow> conn_closing c') \<and>
        (c_impl c \<noteq> None \<or> conn_closing c \<longrightarrow> c_impl c' \<noteq> None \<or> conn_closing c')"
proof -
  consider "conn_closing c" | "\<not> conn_closing c" "c_impl c = None" | "conn_ok A M 0 1 1 c"
    using assms(1) by (auto simp: conn_inv_def conn_ok_def)
  then show ?thesis
  proof cases
    case 1
    with conn_exec_closing [OF 1, of env ev] assms(1) show ?thesis by (auto simp: conn_inv_def)
  next
    case 2
    then have "conn_exec env ev c = Inr c"
      using assms by (intro idle_exec) (auto simp: conn_inv_def conn_ok_def)
    with assms(1) show ?thesis by simp
  next
    case 3
    from live_exec [OF 3 decode refl assms(2)] conn_okD(2) [OF 3] show ?thesis
      by (auto simp: step_good_def conn_ok_def split: sum.splits)
  qed
qed

lemma conn_step_inv:
  assumes "host_inv E M b s" and "\<And>c. s_conns s k = Some c \<Longrightarrow> event_ok A ev c"
  shows "case conn_step E k ev s of
      Inl e \<Rightarrow> F e \<and> (\<exists>bytes. ev = ReadDone False bytes)
    | Inr s' \<Rightarrow> host_inv E M b s' \<and> s_pool s' = s_pool s \<and> s_acceptors s' = s_acceptors s \<and> s_resources s' = s_resources s"
proof (cases "s_conns s k")
  case None
  with assms(1) show ?thesis by (simp add: conn_step_def)
next
  case (Some c)
  have c: "conn_inv A M c" "k < s_fresh s" using assms(1) Some by (auto simp: host_inv_def)
  note ex = exec_channel [OF c(1) assms(2) [OF Some]]
  show ?thesis
  proof (cases "conn_exec env ev c")
    case (Inl e)
    with ex Some show ?thesis by (simp add: conn_step_def)
  next
    case (Inr c')
    let ?s = "s\<lparr>s_conns := (s_conns s)(k \<mapsto> c')\<rparr>"
    have "host_inv E M b ?s"
      using assms(1) Some Inr ex c unfolding host_inv_def by auto
    from connection_closed_times_inv [OF this, of "se_told E (c_world c') - se_told E (c_world c)" k] Some Inr
    show ?thesis by (auto simp: conn_step_def)
  qed
qed

lemma told_listeners:
  "se_told E (notify_listeners env ls w) = se_told E w + count_list ls 0"
proof (induction ls arbitrary: w)
  case (Cons l ls)
  then show ?case using alive told_closed by (auto simp: notify_listeners_def)
qed (simp add: notify_listeners_def)

text \<open>A channel whose connection fails leaves the table at once.\<close>

lemma failed_channel_leaves:
  assumes inv: "host_inv E M b s" and k: "k \<in> set (s_channels s)" "s_conns s k = Some c" "\<not> conn_closing c"
    and ok: "conn_ok A M 0 1 1 c"
    and ev: "ev = ReadDone True bytes \<or> ev = OobDone True" "event_ok A ev c"
  shows "\<exists>s'. conn_step E k ev s = Inr s' \<and> s_channels s' = remove1 k (s_channels s) \<and> host_inv E M b s'"
proof -
  obtain r where r: "c_impl c = Some r" using conn_okD(6) [OF ok] by blast
  from error_closes [OF ok r ev(1), of env] obtain c' where c': "conn_exec env ev c = Inr c'" "conn_closing c'"
    "c_world c' = e_dtor env (r\<lparr>r_socket := False, r_conn := False\<rparr>) (notify_listeners env (c_listeners c) (c_world c))"
    by blast
  have "0 \<in> set (c_listeners c)" using inv k by (force simp: host_inv_def)
  then have "se_told E (c_world c') - se_told E (c_world c) \<noteq> 0"
    using c'(3) told_dtor told_listeners by (simp add: count_list_0_iff)
  moreover have c: "conn_inv A M c" "k < s_fresh s" using inv k by (auto simp: host_inv_def)
  ultimately have "conn_inv A M c'" using exec_channel [OF c(1) ev(2)] c'(1) by simp
  then have "host_inv E M b (s\<lparr>s_conns := (s_conns s)(k \<mapsto> c')\<rparr>)"
    using inv k c' c by (auto simp: host_inv_def)
  from connection_closed_times_inv [OF this, of "se_told E (c_world c') - se_told E (c_world c)" k] k c'
    \<open>se_told E (c_world c') - se_told E (c_world c) \<noteq> 0\<close>
  show ?thesis by (auto simp: conn_step_def)
qed

text \<open>
  An accepted socket becomes a channel, unless the pool is stopped: \<open>handle_accept\<close> on a working
  connection that takes steps of its own before the server has registered as its listener.
\<close>

lemma handle_accept_inv:
  assumes inv: "host_inv E M b s" and run: "iop_is_running (s_pool s)"
    and span: "se_span E socket = Inr (Some c)" and early: "early c = Inr c1" "conn_inv A M c1"
    and room: "in_i32 (n_count (s_notifier s) + 1)" "kTimeoutSec + timer_jiffies (s_timers s) \<le> INT_MAX"
  shows "\<exists>s'. handle_accept E early socket s = Inr s' \<and> host_inv E M b s' \<and>
    s_channels s' = s_channels s @ [s_fresh s] \<and> s_pool s' = s_pool s \<and>
    s_conns s' = (s_conns s)(s_fresh s \<mapsto> c1\<lparr>c_listeners := c_listeners c1 @ [0]\<rparr>) \<and>
    s_acceptors s' = s_acceptors s \<and> s_resources s' = s_resources s"
proof -
  let ?k = "s_fresh s" and ?c = "c1\<lparr>c_listeners := c_listeners c1 @ [0]\<rparr>"
  let ?H = "(s_conns s)(?k \<mapsto> ?c)" and ?api = "conn_timers env (\<lambda>_. True)"
  have new: "?k \<notin> set (s_channels s)" using inv by (force simp: host_inv_def)
  have tmo: "api_timeout ?api ?k (Inr ?H) = kTimeoutSec" by (simp add: conn_timers_def conn_timeout_def)
  obtain ts where ts: "tm_register ?api ?k (Inr ?H) (s_timers s) = Inr ts" "timer_jiffies ts = timer_jiffies (s_timers s)"
    using register_clock [of "s_timers s" ?api ?k "Inr ?H"] inv room(2)
    unfolding tmo host_inv_def by (auto simp: kTimeoutSec_def)
  have c0: "0 \<le> n_count (s_notifier s)" "n_count (s_notifier s) = int (length (s_channels s)) + b"
    using inv by (auto simp: host_inv_def)
  have "\<exists>n. notifier_inc 1 (s_notifier s) = Inr n \<and> n_count n = n_count (s_notifier s) + 1"
    using dec_result [of "s_notifier s" "- 1"] c0 room(1)
    by (auto simp: notifier_inc_def count_after_def int_range_defs)
  then obtain n where n: "notifier_inc 1 (s_notifier s) = Inr n" "n_count n = n_count (s_notifier s) + 1" by blast
  have cinv: "conn_inv A M ?c" using early(2) by (auto simp: conn_inv_def conn_ok_def writes_ok_def split: if_splits)
  let ?s' = "s\<lparr>s_conns := ?H, s_fresh := ?k + 1, s_channels := s_channels s @ [?k], s_timers := ts, s_notifier := n\<rparr>"
  have "handle_accept E early socket s = Inr ?s'"
    using run span early(1) ts(1) n(1)
    by (simp add: handle_accept_def Let_def stop_lock_shared_def stop_unlock_shared_def register_listener_def)
  moreover have "host_inv E M b ?s'"
    using inv new cinv ts(2) n(2) c0 room(1) unfolding host_inv_def by (auto simp: less_SucI)
  ultimately show ?thesis by simp
qed

section \<open>Stop\<close>

lemma conn_disconnect_closes:
  assumes "conn_inv A M c" "c_impl c \<noteq> None \<or> conn_closing c"
  shows "\<exists>c'. conn_disconnect env c = Inr c' \<and> conn_closing c' \<and> conn_inv A M c'"
proof (cases "conn_closing c")
  case True
  then show ?thesis using assms(1) by (simp add: conn_disconnect_def)
next
  case False
  with assms have "conn_ok A M 0 1 1 c" by (auto simp: conn_inv_def)
  note ok = conn_okD [OF this]
  then obtain r where r: "c_impl c = Some r" "r_conn r" by (auto simp: raw_ok_def)
  let ?c = "on_status lock_shared c"
  have "conn_disconnect env c = disconnect env False ?c"
    using ok r by (simp add: conn_disconnect_def Let_def on_status_def)
  moreover obtain c' where "disconnect env False ?c = Inr c'" "conn_closing c'" "st_shared (c_status c') = 0"
    using disconnect_Inr [of ?c r env False] ok r by (auto simp: on_status_def)
  ultimately show ?thesis by (simp add: conn_inv_def)
qed

lemma stop_channels_result:
  assumes "\<forall>k c. s_conns s k = Some c \<longrightarrow> conn_inv A M c \<and> (c_impl c \<noteq> None \<or> conn_closing c)"
    and "\<forall>k \<in> set ks. s_conns s k \<noteq> None" "n_count (s_notifier s) = int (length ks) + b" "0 \<le> b" "in_i32 (n_count (s_notifier s))"
  shows "\<exists>H n. stop_channels E ks s = Inr (s\<lparr>s_conns := H, s_notifier := n\<rparr>) \<and> n_count n = b \<and> in_i32 b \<and>
    (ks \<noteq> [] \<and> b = 0 \<longrightarrow> n_notified n) \<and> (n_notified (s_notifier s) \<longrightarrow> n_notified n) \<and>
    (\<forall>k c. H k = Some c \<longrightarrow> conn_inv A M c \<and> (c_impl c \<noteq> None \<or> conn_closing c)) \<and>
    (\<forall>k. H k = None \<longleftrightarrow> s_conns s k = None) \<and>
    (\<forall>k c. s_conns s k = Some c \<and> conn_closing c \<longrightarrow> (\<exists>c'. H k = Some c' \<and> conn_closing c')) \<and>
    (\<forall>k \<in> set ks. \<exists>c. H k = Some c \<and> conn_closing c)"
  using assms
proof (induction ks arbitrary: s)
  case Nil
  then show ?case by (intro exI [of _ "s_conns s"] exI [of _ "s_notifier s"]) auto
next
  case (Cons k ks)
  obtain c where c: "s_conns s k = Some c" using Cons.prems(2) by auto
  obtain c' where c': "conn_disconnect env c = Inr c'" "conn_closing c'" "conn_inv A M c'"
    using conn_disconnect_closes [of c] Cons.prems(1) c by blast
  have cnt: "n_count (s_notifier s) = int (Suc (length ks)) + b" using Cons.prems(3) by simp
  have ca: "count_after 1 (n_count (s_notifier s)) = int (length ks) + b" using cnt Cons.prems(4) by (simp add: count_after_def)
  have fits: "in_i32 (int (length ks) + b)" using cnt Cons.prems(4,5) by (simp add: int_range_defs)
  have "0 \<le> n_count (s_notifier s)" using cnt Cons.prems(4) by simp
  from dec_result [OF this, of 1, unfolded ca, OF fits] fits obtain n where
    n: "notifier_dec 1 (s_notifier s) = Inr n" "n_count n = int (length ks) + b"
      "n_notified n = (n_notified (s_notifier s) \<or> n_count n = 0)" "in_i32 (n_count n)" by metis
  let ?s = "s\<lparr>s_conns := (s_conns s)(k \<mapsto> c'), s_notifier := n\<rparr>"
  have step: "stop_channels E (k # ks) s = stop_channels E ks ?s" using c c'(1) n(1) by simp
  have pre: "\<forall>k c. s_conns ?s k = Some c \<longrightarrow> conn_inv A M c \<and> (c_impl c \<noteq> None \<or> conn_closing c)"
    "\<forall>k \<in> set ks. s_conns ?s k \<noteq> None" "n_count (s_notifier ?s) = int (length ks) + b" "in_i32 (n_count (s_notifier ?s))"
    using Cons.prems(1,2) c' n by auto
  from Cons.IH [OF pre(1-3) Cons.prems(4) pre(4)] obtain H n' where
    H: "stop_channels E ks ?s = Inr (?s\<lparr>s_conns := H, s_notifier := n'\<rparr>)" "n_count n' = b" "in_i32 b"
    "ks \<noteq> [] \<and> b = 0 \<longrightarrow> n_notified n'" "n_notified n \<longrightarrow> n_notified n'"
    "\<forall>k c. H k = Some c \<longrightarrow> conn_inv A M c \<and> (c_impl c \<noteq> None \<or> conn_closing c)"
    "\<forall>j. H j = None \<longleftrightarrow> s_conns ?s j = None"
    "\<forall>k c. s_conns ?s k = Some c \<and> conn_closing c \<longrightarrow> (\<exists>c'. H k = Some c' \<and> conn_closing c')"
    "\<forall>k \<in> set ks. \<exists>c. H k = Some c \<and> conn_closing c" by auto
  have notified: "b = 0 \<longrightarrow> n_notified n'" using H(4,5) n by (cases ks) auto
  have closing: "\<forall>j c. s_conns s j = Some c \<and> conn_closing c \<longrightarrow> (\<exists>c'. H j = Some c' \<and> conn_closing c')"
    using H(8) c c'(2) by (auto split: if_splits)
  have here: "\<exists>c. H k = Some c \<and> conn_closing c" using H(8) c'(2) by auto
  show ?case
    unfolding step
    by (rule exI [of _ H], rule exI [of _ n'])
      (use H notified closing here n(3) c in auto)
qed

text \<open>
  \<open>Stop\<close> on a running server whose acceptors are all alive returns, with every channel closed
  and none left, no acceptor, the notifier at its end and the pool stopped.
\<close>

lemma release_all_result:
  "distinct (map snd as) \<Longrightarrow> snd ` set as \<subseteq> set (s_resources s) \<Longrightarrow> distinct (s_resources s) \<Longrightarrow>
     \<exists>rs. release_all as s = Inr (s\<lparr>s_resources := rs\<rparr>) \<and> set rs = set (s_resources s) - snd ` set as \<and> distinct rs"
proof (induction as arbitrary: s)
  case Nil
  then show ?case by (intro exI [of _ "s_resources s"]) (simp add: release_all_def)
next
  case (Cons x as)
  obtain h a where x: "x = (h, a)" by (cases x)
  let ?s = "s\<lparr>s_resources := remove1 a (s_resources s)\<rparr>"
  have pre: "distinct (map snd as)" "snd ` set as \<subseteq> set (s_resources ?s)" "distinct (s_resources ?s)"
    using Cons.prems x by auto
  from Cons.IH [OF pre] obtain rs where "release_all as ?s = Inr (?s\<lparr>s_resources := rs\<rparr>)"
    "set rs = set (s_resources ?s) - snd ` set as" "distinct rs" by blast
  moreover have "release_all (x # as) s = release_all as ?s"
    using Cons.prems x by (simp add: release_all_def acceptor_release_def)
  ultimately show ?case using Cons.prems x by (intro exI [of _ rs]) auto
qed

lemma stop_result:
  assumes inv: "host_inv E M b s" and run: "iop_is_running (s_pool s)" and b: "b \<le> 1" "b = 0 \<longrightarrow> n_notified (s_notifier s)"
    and acc: "acceptors_alive s" and att: "attached s"
  shows "\<exists>s'. stop E joins s = Inr s' \<and> s_channels s' = [] \<and> s_acceptors s' = [] \<and>
    set (s_resources s') = set (s_resources s) - snd ` set (s_acceptors s) \<and>
    n_count (s_notifier s') = 0 \<and> n_notified (s_notifier s') \<and> \<not> iop_is_running (s_pool s') \<and>
    mbStop (s_timers s') \<and> host_inv E M 0 s' \<and>
    (\<forall>k \<in> set (s_channels s). \<exists>c. s_conns s' k = Some c \<and> conn_closing c)"
proof -
  have "\<forall>k c. s_conns s k = Some c \<longrightarrow> conn_inv A M c \<and> (c_impl c \<noteq> None \<or> conn_closing c)"
    using inv att by (simp add: host_inv_def attached_def)
  moreover have "\<forall>k \<in> set (s_channels s). s_conns s k \<noteq> None" using inv by (force simp: host_inv_def)
  ultimately obtain H n where H: "stop_channels E (s_channels s) s = Inr (s\<lparr>s_conns := H, s_notifier := n\<rparr>)"
    "n_count n = b" "in_i32 b" "n_notified (s_notifier s) \<longrightarrow> n_notified n"
    "\<forall>k c. H k = Some c \<longrightarrow> conn_inv A M c \<and> (c_impl c \<noteq> None \<or> conn_closing c)"
    "\<forall>k. H k = None \<longleftrightarrow> s_conns s k = None"
    "\<forall>k \<in> set (s_channels s). \<exists>c. H k = Some c \<and> conn_closing c"
    using stop_channels_result [of s "s_channels s" b] inv unfolding host_inv_def by blast
  have b0: "0 \<le> b" using inv by (simp add: host_inv_def)
  have ca: "count_after 1 (n_count n) = 0" using b(1) b0 H(2) by (auto simp: count_after_def)
  obtain n' where n': "notifier_dec 1 n = Inr n'" "n_count n' = 0" "n_notified n'"
    using dec_result [of n 1] ca H(2) b0 by (auto simp: int_range_defs)
  let ?s = "s\<lparr>s_conns := H, s_notifier := n', s_channels := []\<rparr>"
  have acc': "distinct (map snd (s_acceptors ?s))" "snd ` set (s_acceptors ?s) \<subseteq> set (s_resources ?s)" "distinct (s_resources ?s)"
    using acc by (simp_all add: acceptors_alive_def)
  from release_all_result [OF acc'] obtain rs where rs: "release_all (s_acceptors ?s) ?s = Inr (?s\<lparr>s_resources := rs\<rparr>)"
    "set rs = set (s_resources s) - snd ` set (s_acceptors s)" by auto
  let ?s' = "?s\<lparr>s_resources := rs, s_acceptors := [], s_pool := iop_stop joins (s_pool s), s_timers := tm_stop (s_timers s)\<rparr>"
  have "stop E joins s = Inr ?s'"
    using inv run H(1) n' rs(1) by (simp add: stop_def host_inv_def Let_def notifier_wait_def)
  moreover have "\<not> iop_is_running (iop_stop joins (s_pool s))"
    using run by (simp add: iop_is_running_def iop_stop_def)
  moreover have fresh: "k < s_fresh s" if "H k = Some c" for k c
  proof -
    from that H(6) have "s_conns s k \<noteq> None" by (metis option.distinct(1))
    with inv show ?thesis by (auto simp: host_inv_def)
  qed
  have "timer_jiffies (tm_stop (s_timers s)) = timer_jiffies (s_timers s)" by (simp add: tm_stop_def)
  then have "host_inv E M 0 ?s'"
    using inv n'(2) H(5) fresh unfolding host_inv_def by (auto simp: int_range_defs)
  ultimately show ?thesis using n' H(7) rs(2) by (simp add: tm_stop_def)
qed

section \<open>Every history\<close>

lemma early_steps_inv:
  assumes "conn_inv A M c" "c_impl c \<noteq> None \<or> conn_closing c" "events_ok env evs c" "early_steps env evs c = Inr c'"
  shows "conn_inv A M c' \<and> (c_impl c' \<noteq> None \<or> conn_closing c')"
  using assms
proof (induction evs arbitrary: c)
  case Nil
  then show ?case by (simp add: early_steps_def)
next
  case (Cons ev evs)
  then obtain c1 where c1: "conn_exec env ev c = Inr c1" "early_steps env evs c1 = Inr c'"
    by (auto simp: early_steps_def)
  with Cons.prems exec_channel [OF Cons.prems(1), of ev] have "conn_inv A M c1" "c_impl c1 \<noteq> None \<or> conn_closing c1"
    by auto
  from Cons.IH [OF this] c1 Cons.prems(3) show ?case by simp
qed

lemma notified_stays: "notifier_dec d n = Inr n' \<Longrightarrow> n_notified n \<Longrightarrow> n_notified n'"
  by (auto simp: notifier_dec_def Let_def)

lemma connection_closed_times_frame:
  "connection_closed_times n k s = Inr s' \<Longrightarrow> (n_notified (s_notifier s) \<longrightarrow> n_notified (s_notifier s')) \<and>
     s_fresh s' = s_fresh s \<and> s_resources s' = s_resources s \<and> s_acceptors s' = s_acceptors s \<and> s_conns s' = s_conns s"
proof (induction n arbitrary: s)
  case (Suc n)
  then obtain s1 where 1: "connection_closed k s = Inr s1" "connection_closed_times n k s1 = Inr s'" by auto
  then have "(n_notified (s_notifier s) \<longrightarrow> n_notified (s_notifier s1)) \<and>
     s_fresh s1 = s_fresh s \<and> s_resources s1 = s_resources s \<and> s_acceptors s1 = s_acceptors s \<and> s_conns s1 = s_conns s"
    by (auto simp: connection_closed_def notified_stays split: if_splits)
  with Suc.IH [OF 1(2)] show ?case by simp
qed simp

text \<open>One step of each kind.\<close>

lemma accept_ok:
  assumes ok: "server_ok E M errs s" and room: "room s"
    and spans: "\<And>c. se_span E socket = Inr (Some c) \<Longrightarrow> conn_ok A M 0 1 1 c"
    and spanned: "\<exists>c. se_span E socket = Inr (Some c)"
    and evs: "\<And>c. se_span E socket = Inr (Some c) \<Longrightarrow> events_ok env evs c"
    and acc: "handle_accept E (early_steps env evs) socket s = Inr s'"
  shows "server_ok E M errs s' \<and> s_accepts s' = s_accepts s"
proof -
  obtain b where inv: "host_inv E M b s" "b \<le> 1" "b = 0 \<longrightarrow> n_notified (s_notifier s)"
    using ok by (auto simp: server_ok_def)
  show ?thesis
  proof (cases "iop_is_running (s_pool s)")
    case False
    with acc have "s' = stop_unlock_shared (stop_lock_shared s)"
      by (simp add: handle_accept_def Let_def stop_lock_shared_def)
    then have "s' = s" by (simp add: stop_lock_shared_def stop_unlock_shared_def)
    with ok show ?thesis by simp
  next
    case True
    obtain c where c: "se_span E socket = Inr (Some c)" using spanned by blast
    note cok = spans [OF c]
    have impl: "c_impl c \<noteq> None \<or> conn_closing c" using conn_okD(6) [OF cok] by auto
    obtain c1 where c1: "early_steps env evs c = Inr c1"
      using acc True c by (auto simp: handle_accept_def Let_def stop_lock_shared_def)
    note e = early_steps_inv [OF conn_ok_inv [OF cok] impl evs [OF c] c1]
    have room': "in_i32 (n_count (s_notifier s) + 1)" "kTimeoutSec + timer_jiffies (s_timers s) \<le> INT_MAX"
      using room by (simp_all add: room_def)
    note c1inv = e [THEN conjunct1]
    from handle_accept_inv [where early = "early_steps env evs", OF inv(1) True c c1 c1inv room'] acc
    have h: "host_inv E M b s'" "s_conns s' = (s_conns s)(s_fresh s \<mapsto> c1\<lparr>c_listeners := c_listeners c1 @ [0]\<rparr>)"
      "s_acceptors s' = s_acceptors s" "s_resources s' = s_resources s" by auto
    have f: "s_fresh s' = Suc (s_fresh s)" "s_accepts s' = s_accepts s"
      "n_notified (s_notifier s) \<longrightarrow> n_notified (s_notifier s')"
      using acc True c c1
      by (auto simp: handle_accept_def Let_def stop_lock_shared_def stop_unlock_shared_def register_listener_def
          notifier_inc_def dest: notified_stays)
    have "attached s'" using ok e h(2) by (simp add: server_ok_def attached_def)
    moreover have "acceptors_alive s' \<longleftrightarrow> acceptors_alive s" using h by (simp add: acceptors_alive_def)
    ultimately show ?thesis
      using ok inv h f unfolding server_ok_def by (metis less_SucI)
  qed
qed

lemma release_acceptor_ok:
  assumes "server_ok E M errs s" "release_acceptor host s = Inr s'"
  shows "server_ok E M (Suc errs) s'"
proof -
  have "\<exists>rs. set rs \<subseteq> set (s_resources s) \<and> s' = s\<lparr>s_resources := rs\<rparr>"
  proof (cases "map_of (s_acceptors s) host")
    case None
    with assms(2) show ?thesis by (intro exI [of _ "s_resources s"]) (simp add: release_acceptor_def)
  next
    case (Some a)
    with assms(2) show ?thesis
      by (intro exI [of _ "remove1 a (s_resources s)"])
        (auto simp: release_acceptor_def acceptor_release_def set_remove1_subset split: if_splits dest: notin_set_remove1)
  qed
  then obtain rs where rs: "set rs \<subseteq> set (s_resources s)" "s' = s\<lparr>s_resources := rs\<rparr>" by blast
  then have "host_inv E M b s' = host_inv E M b s" for b by (simp add: host_inv_def)
  moreover have "attached s' = attached s" by (simp add: rs(2) attached_def)
  moreover have "\<forall>a \<in> set rs. a < s_fresh s" using assms(1) rs(1) by (auto simp: server_ok_def)
  moreover have "s_notifier s' = s_notifier s" "s_fresh s' = s_fresh s" "s_resources s' = rs" by (simp_all add: rs(2))
  ultimately show ?thesis using assms(1) unfolding server_ok_def by simp
qed

lemma listen_ok:
  assumes "server_ok E M errs s" "listen address port sys s = Inr s'"
  shows "server_ok E M errs s'"
proof -
  let ?host = "address @ ''::'' @ port"
  have f: "s_timers s' = tm_start (s_timers s)" "s_fresh s' = Suc (s_fresh s)" "s_resources s' = s_fresh s # s_resources s"
    "s_acceptors s' = (if map_of (s_acceptors s) ?host = None then (?host, s_fresh s) # s_acceptors s else s_acceptors s)"
    "s_notifier s' = s_notifier s" "s_conns s' = s_conns s" "s_channels s' = s_channels s" "s_stop_shared s' = s_stop_shared s"
    using assms(2) by (auto simp: listen_def Let_def)
  obtain b where b: "b \<le> 1" "host_inv E M b s" "b = 0 \<longrightarrow> n_notified (s_notifier s)"
    using assms(1) by (auto simp: server_ok_def)
  have jif: "1 \<le> timer_jiffies (s_timers s')" using b(2) unfolding f host_inv_def by (simp add: tm_start_def)
  then have "host_inv E M b s'"
    using b(2) f unfolding host_inv_def by (metis less_SucI)
  moreover have "attached s'" using assms(1) f by (simp add: server_ok_def attached_def)
  moreover have old: "\<forall>a \<in> set (s_resources s). a < s_fresh s" using assms(1) by (simp add: server_ok_def)
  then have "\<forall>a \<in> set (s_resources s'). a < s_fresh s'" using f by (auto simp: less_SucI)
  moreover have "acceptors_alive s'" if "errs = 0"
  proof -
    have alive: "distinct (map snd (s_acceptors s))" "snd ` set (s_acceptors s) \<subseteq> set (s_resources s)"
      "distinct (s_resources s)" using assms(1) that by (auto simp: server_ok_def acceptors_alive_def)
    then have "s_fresh s \<notin> set (s_resources s)" "s_fresh s \<notin> snd ` set (s_acceptors s)" using old by blast+
    with alive f show ?thesis by (auto simp: acceptors_alive_def)
  qed
  ultimately show ?thesis using b f(5) unfolding server_ok_def by metis
qed

lemma connection_ok:
  assumes "server_ok E M errs s" "\<And>c. s_conns s k = Some c \<Longrightarrow> event_ok A ev c" "conn_step E k ev s = Inr s'"
  shows "server_ok E M errs s'"
proof (cases "s_conns s k")
  case None
  with assms show ?thesis by (simp add: conn_step_def)
next
  case (Some c)
  obtain b where b: "b \<le> 1" "host_inv E M b s" "b = 0 \<longrightarrow> n_notified (s_notifier s)"
    using assms(1) by (auto simp: server_ok_def)
  obtain c' where c': "conn_exec env ev c = Inr c'" using assms(3) Some by (auto simp: conn_step_def)
  have c: "conn_inv A M c" using b(2) Some by (simp add: host_inv_def)
  have "c_impl c \<noteq> None \<or> conn_closing c" using assms(1) Some by (simp add: server_ok_def attached_def)
  with exec_channel [OF c assms(2) [OF Some]] c' have at: "c_impl c' \<noteq> None \<or> conn_closing c'" by auto
  have inv: "host_inv E M b s'" using conn_step_inv [OF b(2), of k ev] assms(2,3) by auto
  obtain n where "connection_closed_times n k (s\<lparr>s_conns := (s_conns s)(k \<mapsto> c')\<rparr>) = Inr s'"
    using assms(3) Some c' by (auto simp: conn_step_def)
  from connection_closed_times_frame [OF this] have f: "n_notified (s_notifier s) \<longrightarrow> n_notified (s_notifier s')"
    "s_fresh s' = s_fresh s" "s_resources s' = s_resources s" "s_acceptors s' = s_acceptors s"
    "s_conns s' = (s_conns s)(k \<mapsto> c')" by auto
  have "attached s'" using assms(1) at f(5) by (simp add: server_ok_def attached_def)
  moreover have "acceptors_alive s' \<longleftrightarrow> acceptors_alive s" using f by (simp add: acceptors_alive_def)
  ultimately show ?thesis using assms(1) b inv f unfolding server_ok_def by metis
qed

lemma release_all_frame:
  "release_all as s = Inr s' \<Longrightarrow> \<exists>rs. set rs \<subseteq> set (s_resources s) \<and> (distinct (s_resources s) \<longrightarrow> distinct rs) \<and>
     s' = s\<lparr>s_resources := rs\<rparr>"
proof (induction as arbitrary: s)
  case Nil
  then show ?case by (intro exI [of _ "s_resources s"]) (simp add: release_all_def)
next
  case (Cons x as)
  obtain h a where x: "x = (h, a)" by (cases x)
  have "release_all as (s\<lparr>s_resources := remove1 a (s_resources s)\<rparr>) = Inr s'"
    using Cons.prems x by (auto simp: release_all_def acceptor_release_def split: if_splits)
  from Cons.IH [OF this] obtain rs where rs: "set rs \<subseteq> set (remove1 a (s_resources s))"
    "distinct (remove1 a (s_resources s)) \<longrightarrow> distinct rs" "s' = s\<lparr>s_resources := rs\<rparr>" by auto
  then have "set rs \<subseteq> set (s_resources s)" using set_remove1_subset [of a "s_resources s"] by blast
  with rs distinct_remove1 [of "s_resources s" a] show ?case by blast
qed

lemma release_all_fault: "release_all as s = Inl f \<Longrightarrow> f = UseAfterFree"
  by (induction as arbitrary: s) (auto simp: release_all_def acceptor_release_def split: if_splits)

lemma stop_ok:
  assumes ok: "server_ok E M errs s" and stop: "stop E joins s = Inr s'"
  shows "server_ok E M errs s'"
proof (cases "iop_is_running (s_pool s)")
  case False
  with assms show ?thesis by (simp add: stop_def)
next
  case True
  obtain b where b: "b \<le> 1" "host_inv E M b s" "b = 0 \<longrightarrow> n_notified (s_notifier s)"
    using ok by (auto simp: server_ok_def)
  have "\<forall>k c. s_conns s k = Some c \<longrightarrow> conn_inv A M c \<and> (c_impl c \<noteq> None \<or> conn_closing c)"
    using b(2) ok by (simp add: host_inv_def server_ok_def attached_def)
  moreover have "\<forall>k \<in> set (s_channels s). s_conns s k \<noteq> None" using b(2) by (force simp: host_inv_def)
  ultimately obtain H n where H: "stop_channels E (s_channels s) s = Inr (s\<lparr>s_conns := H, s_notifier := n\<rparr>)"
    "n_count n = b"
    "\<forall>k c. H k = Some c \<longrightarrow> conn_inv A M c \<and> (c_impl c \<noteq> None \<or> conn_closing c)"
    "\<forall>k. H k = None \<longleftrightarrow> s_conns s k = None"
    using stop_channels_result [of s "s_channels s" b] b(2) unfolding host_inv_def by blast
  have b0: "0 \<le> b" "s_stop_shared s = 0" using b(2) by (simp_all add: host_inv_def)
  have ca: "count_after 1 (n_count n) = 0" using b(1) b0 H(2) by (auto simp: count_after_def)
  obtain n' where n': "notifier_dec 1 n = Inr n'" "n_count n' = 0" "n_notified n'"
    using dec_result [of n 1] ca H(2) b0 by (auto simp: int_range_defs)
  let ?s = "s\<lparr>s_conns := H, s_notifier := n', s_channels := []\<rparr>"
  obtain s2 where s2: "release_all (s_acceptors s) ?s = Inr s2"
    "s' = s2\<lparr>s_acceptors := [], s_pool := iop_stop joins (s_pool s), s_timers := tm_stop (s_timers s)\<rparr>"
    "\<exists>rs. set rs \<subseteq> set (s_resources s) \<and> (distinct (s_resources s) \<longrightarrow> distinct rs) \<and> s2 = ?s\<lparr>s_resources := rs\<rparr>"
  proof -
    from stop True H(1) n' b0(2) obtain s2 where 2: "release_all (s_acceptors s) ?s = Inr s2"
      "s' = s2\<lparr>s_acceptors := [], s_pool := iop_stop joins (s_pool s2), s_timers := tm_stop (s_timers s2)\<rparr>"
      by (auto simp: stop_def Let_def)
    from release_all_frame [OF 2(1)] obtain rs where "set rs \<subseteq> set (s_resources s)"
      "distinct (s_resources s) \<longrightarrow> distinct rs" "s2 = ?s\<lparr>s_resources := rs\<rparr>" by auto
    with 2 show thesis by (intro that) auto
  qed
  then obtain rs where rs: "set rs \<subseteq> set (s_resources s)" "distinct (s_resources s) \<longrightarrow> distinct rs" "s2 = ?s\<lparr>s_resources := rs\<rparr>"
    by blast
  have fresh: "k < s_fresh s" if "H k = Some c" for k c
  proof -
    from that H(4) have "s_conns s k \<noteq> None" by (metis option.distinct(1))
    with b(2) show ?thesis by (auto simp: host_inv_def)
  qed
  have f: "s_conns s' = H" "s_notifier s' = n'" "s_channels s' = []" "s_resources s' = rs" "s_fresh s' = s_fresh s"
    "s_acceptors s' = []" "timer_jiffies (s_timers s') = timer_jiffies (s_timers s)" "s_stop_shared s' = 0"
    using s2(2) rs(3) b0(2) by (simp_all add: tm_stop_def)
  have "host_inv E M 0 s'"
    using b(2) n'(2) H(3) fresh unfolding host_inv_def f by (auto simp: int_range_defs)
  moreover have "attached s'" using H(3) by (simp add: attached_def f)
  moreover have "\<forall>a \<in> set rs. a < s_fresh s" using ok rs(1) by (auto simp: server_ok_def)
  moreover have "errs = 0 \<longrightarrow> acceptors_alive s'" using ok rs(2) by (simp add: server_ok_def acceptors_alive_def f)
  ultimately show ?thesis using n'(3) unfolding server_ok_def f by (auto intro!: exI [of _ 0])
qed

text \<open>Every history keeps the server in order.\<close>

lemma server_run_ok:
  assumes "server_run E s0 errs s" and "server_ok E M 0 s0"
    and spans: "\<And>n. \<exists>c. se_span E n = Inr (Some c) \<and> conn_ok A M 0 1 1 c"
  shows "server_ok E M errs s"
  using assms(1)
proof (induction rule: server_run.induct)
  case run_created
  then show ?case by (rule assms(2))
next
  case (run_listens errs s address port sys s')
  then show ?case using listen_ok by blast
next
  case (run_connection errs s k ev s')
  then show ?case using connection_ok by blast
next
  case (run_stops errs s joins s')
  then show ?case using stop_ok by blast
next
  case (run_accepts errs s ah socket evs err is_open s')
  have ok: "server_ok E M errs (s\<lparr>s_accepts := as\<rparr>)" "room (s\<lparr>s_accepts := as\<rparr>)" for as
    using run_accepts.IH run_accepts.hyps(3)
    by (simp_all add: server_ok_def host_inv_def attached_def acceptors_alive_def room_def)
  show ?case
  proof (cases err)
    case True
    with run_accepts.hyps(5) have "release_acceptor (snd ah) (s\<lparr>s_accepts := remove1 ah (s_accepts s)\<rparr>) = Inr s'"
      by (simp add: accept_done_def Let_def)
    from release_acceptor_ok [OF ok(1) this] True show ?thesis by simp
  next
    case False
    let ?s = "s\<lparr>s_accepts := ah # remove1 ah (s_accepts s)\<rparr>"
    have "(if is_open then handle_accept E (early_steps env evs) socket ?s else Inr ?s) = Inr s'"
      using run_accepts.hyps(5) False by (simp add: accept_done_def Let_def split: if_splits)
    moreover have "\<And>c. se_span E socket = Inr (Some c) \<Longrightarrow> conn_ok A M 0 1 1 c"
      "\<exists>c. se_span E socket = Inr (Some c)" using spans [of socket] by auto
    ultimately show ?thesis
      using accept_ok [OF ok, of socket evs _ s'] run_accepts.hyps(4) ok(1) False by (cases is_open) auto
  qed
qed

lemma accept_above:
  assumes ok: "server_ok E M errs s" and room: "room s"
    and spans: "\<exists>c. se_span E socket = Inr (Some c) \<and> conn_ok A M 0 1 1 c"
    and evs: "\<And>c. se_span E socket = Inr (Some c) \<Longrightarrow> events_ok env evs c"
    and acc: "handle_accept E (early_steps env evs) socket s = Inr s'"
  shows "above s' = above s"
proof (cases "iop_is_running (s_pool s)")
  case False
  with acc show ?thesis
    by (auto simp: handle_accept_def Let_def stop_lock_shared_def stop_unlock_shared_def above_def)
next
  case True
  obtain b where inv: "host_inv E M b s" using ok by (auto simp: server_ok_def)
  obtain c where c: "se_span E socket = Inr (Some c)" "conn_ok A M 0 1 1 c" using spans by blast
  have impl: "c_impl c \<noteq> None \<or> conn_closing c" using conn_okD(6) [OF c(2)] by auto
  obtain c1 where c1: "early_steps env evs c = Inr c1"
    using acc True c by (auto simp: handle_accept_def Let_def stop_lock_shared_def)
  have c1inv: "conn_inv A M c1" using early_steps_inv [OF conn_ok_inv [OF c(2)] impl evs [OF c(1)] c1] by simp
  have room': "in_i32 (n_count (s_notifier s) + 1)" "kTimeoutSec + timer_jiffies (s_timers s) \<le> INT_MAX"
    using room by (simp_all add: room_def)
  from handle_accept_inv [where early = "early_steps env evs", OF inv True c(1) c1 c1inv room'] acc
  have "host_inv E M b s'" by auto
  then show ?thesis using inv by (simp add: host_inv_above)
qed

lemma accept_done_above:
  assumes ok: "server_ok E M errs s" and room: "room s"
    and spans: "\<exists>c. se_span E socket = Inr (Some c) \<and> conn_ok A M 0 1 1 c"
    and evs: "\<And>c. se_span E socket = Inr (Some c) \<Longrightarrow> events_ok env evs c"
    and acc: "accept_done E (early_steps env evs) err is_open socket ah s = Inr s'"
  shows "above s' = above s"
proof (cases err)
  case True
  with acc have "release_acceptor (snd ah) (s\<lparr>s_accepts := remove1 ah (s_accepts s)\<rparr>) = Inr s'"
    by (simp add: accept_done_def Let_def)
  then show ?thesis
    by (auto simp: release_acceptor_def acceptor_release_def above_def split: option.splits if_splits)
next
  case False
  let ?s = "s\<lparr>s_accepts := ah # remove1 ah (s_accepts s)\<rparr>"
  have s: "server_ok E M errs ?s" "room ?s" "above ?s = above s"
    using ok room by (simp_all add: server_ok_def host_inv_def attached_def acceptors_alive_def room_def above_def)
  have "(if is_open then handle_accept E (early_steps env evs) socket ?s else Inr ?s) = Inr s'"
    using acc False by (simp add: accept_done_def Let_def split: if_splits)
  then show ?thesis using accept_above [OF s(1,2) spans evs] s(3) by (cases is_open) auto
qed

text \<open>A \<open>Stop\<close> of a running server: to its end, or to an acceptor that an earlier error has released.\<close>

lemma stop_empties:
  assumes ok: "server_ok E M errs s" and run: "iop_is_running (s_pool s)"
  shows "case stop E joins s of
      Inl f \<Rightarrow> f = UseAfterFree \<and> errs \<noteq> 0
    | Inr s' \<Rightarrow> n_count (s_notifier s') = 0 \<and> n_notified (s_notifier s') \<and> s_channels s' = []"
proof -
  obtain b where b: "b \<le> 1" "host_inv E M b s" "b = 0 \<longrightarrow> n_notified (s_notifier s)"
    using ok by (auto simp: server_ok_def)
  have att: "attached s" using ok by (simp add: server_ok_def)
  have "\<forall>k c. s_conns s k = Some c \<longrightarrow> conn_inv A M c \<and> (c_impl c \<noteq> None \<or> conn_closing c)"
    using b(2) att by (simp add: host_inv_def attached_def)
  moreover have "\<forall>k \<in> set (s_channels s). s_conns s k \<noteq> None" using b(2) by (force simp: host_inv_def)
  ultimately obtain H n where H: "stop_channels E (s_channels s) s = Inr (s\<lparr>s_conns := H, s_notifier := n\<rparr>)"
    "n_count n = b"
    using stop_channels_result [of s "s_channels s" b] b(2) unfolding host_inv_def by blast
  have b0: "0 \<le> b" "s_stop_shared s = 0" using b(2) by (simp_all add: host_inv_def)
  have ca: "count_after 1 (n_count n) = 0" using b(1) b0 H(2) by (auto simp: count_after_def)
  obtain n' where n': "notifier_dec 1 n = Inr n'" "n_count n' = 0" "n_notified n'"
    using dec_result [of n 1] ca H(2) b0 by (auto simp: int_range_defs)
  let ?s = "s\<lparr>s_conns := H, s_notifier := n', s_channels := []\<rparr>"
  let ?last = "\<lambda>s. s\<lparr>s_acceptors := [], s_pool := iop_stop joins (s_pool s), s_timers := tm_stop (s_timers s)\<rparr>"
  have stop: "stop E joins s = bind_outcome (release_all (s_acceptors s) ?s)
      (\<lambda>s. bind_outcome (check CheckFailed (s_channels (?last s) = [])) (\<lambda>_. Inr (?last s)))"
    using run b0(2) H(1) n' by (simp add: stop_def Let_def notifier_wait_def)
  show ?thesis
  proof (cases "release_all (s_acceptors s) ?s")
    case (Inl f)
    have "f = UseAfterFree" using Inl by (rule release_all_fault)
    moreover have "errs \<noteq> 0"
      using stop_result [OF b(2) run b(1,3) _ att, of joins] ok Inl stop by (auto simp: server_ok_def)
    ultimately show ?thesis using Inl stop by simp
  next
    case (Inr s2)
    from release_all_frame [OF Inr] show ?thesis using Inr stop n' by auto
  qed
qed

lemma server_history_counts:
  assumes "server_history E s0 errs stopped s" and "server_ok E M 0 s0" and "above s0 = 1"
    and spans: "\<And>n. \<exists>c. se_span E n = Inr (Some c) \<and> conn_ok A M 0 1 1 c"
  shows "above s = (if stopped then 0 else 1) \<and> (stopped \<longrightarrow> n_notified (s_notifier s))"
  using assms(1)
proof (induction rule: server_history.induct)
  case history_created
  then show ?case using assms(3) by simp
next
  case (history_listens errs stopped s address port sys s')
  then show ?case by (auto simp: listen_def Let_def above_def split: if_splits)
next
  case (history_accepts errs stopped s ah socket evs err is_open s')
  have ok: "server_ok E M errs s" "server_ok E M (errs + (if err then 1 else 0)) s'"
    using server_run_ok [OF history_run assms(2) spans] history_accepts.hyps
      server_history.history_accepts [OF history_accepts.hyps] by blast+
  from accept_done_above [OF ok(1) history_accepts.hyps(3) spans history_accepts.hyps(4,5)]
  have same: "above s' = above s" .
  moreover have "n_notified (s_notifier s')" if stopped
  proof -
    obtain b where b: "host_inv E M b s'" "b = 0 \<longrightarrow> n_notified (s_notifier s')" using ok(2) by (auto simp: server_ok_def)
    then show ?thesis using host_inv_above [OF b(1)] same history_accepts.IH that by simp
  qed
  ultimately show ?case using history_accepts.IH by simp
next
  case (history_connection errs stopped s k ev s')
  have ok: "server_ok E M errs s" "server_ok E M errs s'"
    using server_run_ok [OF history_run assms(2) spans] history_connection.hyps
      server_history.history_connection [OF history_connection.hyps] by blast+
  then obtain b where b: "host_inv E M b s" by (auto simp: server_ok_def)
  have "host_inv E M b s'" using conn_step_inv [OF b, of k ev] history_connection.hyps(2,3) by auto
  then have same: "above s' = above s" using b by (simp add: host_inv_above)
  moreover have "n_notified (s_notifier s')" if stopped
  proof -
    obtain b where b: "host_inv E M b s'" "b = 0 \<longrightarrow> n_notified (s_notifier s')" using ok(2) by (auto simp: server_ok_def)
    then show ?thesis using host_inv_above [OF b(1)] same history_connection.IH that by simp
  qed
  ultimately show ?case using history_connection.IH by simp
next
  case (history_stops errs stopped s joins s')
  show ?case
  proof (cases "iop_is_running (s_pool s)")
    case True
    have "server_ok E M errs s" using server_run_ok [OF history_run assms(2) spans] history_stops.hyps(1) by blast
    from stop_empties [OF this True, of joins] show ?thesis using history_stops.hyps(2) True by (simp add: above_def)
  next
    case False
    then have "s' = s" using history_stops.hyps(2) by (auto simp: stop_def check_def split: if_splits)
    then show ?thesis using history_stops.IH False by simp
  qed
qed

lemma server_ok_new: "server_ok E M 0 (server_new n t d)"
  using host_inv_new [of E M n t d]
  by (auto simp: server_ok_def attached_def acceptors_alive_def server_new_def intro!: exI [of _ 1])

end

section \<open>A server of remote calls\<close>

text \<open>
  What \<open>main\<close> of \<open>src/server/main.cpp\<close> runs: a server whose template is a \<open>ProtobufConnection\<close> with the
  registered services. The application state of a connection is paired with the number of
  times it has told the server. The static counters of \<open>Span\<close> and \<open>Attach\<close> only number the
  connections, and \<open>junk\<close> is what the memory of a new raw connection held.
\<close>

definition watching :: "('b, 'w) rpc_env \<Rightarrow> ('b, 'w \<times> nat) rpc_env" where
  "watching X =
     \<lparr>x_buf = x_buf X, x_codec = x_codec X, x_parse_request = x_parse_request X,
      x_service = (\<lambda>meth content (w, n). bind_outcome (x_service X meth content w) (\<lambda>(answer, w'). Inr (answer, (w', n)))),
      x_parse_response = x_parse_response X,
      x_alive = (\<lambda>l (w, n). l = 0 \<or> x_alive X l w),
      x_closed = (\<lambda>l (w, n). if l = 0 then (w, n + 1) else (x_closed X l w, n))\<rparr>"

definition fresh_world :: "'w \<Rightarrow> ('w \<times> nat) rpc_world" where
  "fresh_world w = \<lparr>w_log = [], w_next = 0, w_freed = [], w_seq = 0, w_app = (w, 0)\<rparr>"

definition rpc_server ::
  "('b, 'w) rpc_env \<Rightarrow> string \<Rightarrow> method_table \<Rightarrow> meta \<Rightarrow> (nat \<Rightarrow> int) \<Rightarrow> 'w
     \<Rightarrow> ('b, proto, ('w \<times> nat) rpc_world) server_env" where
  "rpc_server X name service m0 junk w =
     \<lparr>se_conn = rpc_conn_env (watching X),
      se_span = (\<lambda>n. span (watching X) name service (int n) n m0 (junk n) (junk n) (fresh_world w)),
      se_told = (\<lambda>w. snd (w_app w))\<rparr>"

lemma watching_simps [simp]:
  "x_buf (watching X) = x_buf X" "x_codec (watching X) = x_codec X"
  by (simp_all add: watching_def)

lemma rpc_server_simps [simp]:
  "se_conn (rpc_server X name service m0 junk w) = rpc_conn_env (watching X)"
  "se_told (rpc_server X name service m0 junk w) rw = snd (w_app rw)"
  by (simp_all add: rpc_server_def)

interpretation rpc_host: channel_host "rpc_server X name service m0 junk w" "rpc_ok (watching X)" "rpc_fault (watching X)"
  for X name service m0 junk w
proof
  show "decode_ok (se_conn (rpc_server X name service m0 junk w)) (rpc_ok (watching X)) (rpc_fault (watching X))"
    by (simp add: rpc_decode_ok)
next
  fix v l r
  show "e_alive (se_conn (rpc_server X name service m0 junk w)) 0 v"
    by (cases "w_app v") (simp add: rpc_conn_env_def watching_def)
  show "se_told (rpc_server X name service m0 junk w) (e_closed (se_conn (rpc_server X name service m0 junk w)) l v) =
      se_told (rpc_server X name service m0 junk w) v + (if l = 0 then 1 else 0)"
    by (cases "w_app v") (simp add: rpc_conn_env_def watching_def)
  show "se_told (rpc_server X name service m0 junk w) (e_dtor (se_conn (rpc_server X name service m0 junk w)) r v) =
      se_told (rpc_server X name service m0 junk w) v"
    by (simp add: rpc_conn_env_def release_response_table_def log_events_def)
qed

lemma init_socket_counters: "init_socket c = Inr c' \<Longrightarrow> counters c' = Some (0, 0)"
  by (auto simp: init_socket_def Let_def raw_this_def start_oob_recv_def async_read_def socket_this_def
      conn_unlock_def on_status_def counters_def split: option.splits if_splits)

lemma attach_works:
  assumes "codec_ok (x_codec X)" and "buffer_api_ok (x_buf X)"
    and "c_status c = status_new" and "c_impl c = None" and "c_reads c = 0" and "c_writes c = []" and "c_oobs c = 0"
  shows "\<exists>c'. attach X service i m0 s0 r0 c = Inr (True, c') \<and> conn_ok (x_buf X) (rpc_ok X) 0 1 1 c' \<and>
     c_listeners c' = c_listeners c \<and> c_world c' = c_world c \<and> counters c' = Some (0, 0)"
proof -
  let ?r = "raw_new (conn_full_name c @ lex_str (x_codec X) i) s0 r0
      \<lparr>p_table = [], p_decoder = dec_new m0, p_service = service\<rparr> :: ('a, proto) raw_scheme"
  let ?c = "c\<lparr>c_impl := Some ?r\<rparr>"
  have reset: "impl_reset (rpc_conn_env X) c = c" using assms(4) by (simp add: impl_reset_def)
  have raw: "raw_ok (x_buf X) (rpc_ok X) (?r\<lparr>r_socket := True\<rparr>)" "scb_empty (outcoming ?r)"
    using assms(1,2) by (simp_all add: raw_ok_def raw_new_def rpc_ok_def proto_ok_def outcoming_def)
  have pre: "c_status ?c = status_new" "c_impl ?c = Some ?r" "c_reads ?c = 0" "c_writes ?c = []" "c_oobs ?c = 0"
    using assms(3-7) by simp_all
  from init_socket_works [OF pre(1,2) raw pre(3-5)] reset show ?thesis
    by (auto simp: attach_def Let_def dest: init_socket_counters)
qed

lemma span_works:
  assumes "codec_ok (x_codec X)" and "buffer_api_ok (x_buf X)"
  shows "\<exists>c. span X name service gid i m0 s0 r0 w = Inr (Some c) \<and> conn_ok (x_buf X) (rpc_ok X) 0 1 1 c \<and>
     c_listeners c = [] \<and> c_world c = w"
  using attach_works [OF assms, of "conn_new (name @ ''.span'') gid w"]
  by (fastforce simp: span_def conn_new_def)

lemma rpc_server_spans:
  assumes "codec_ok (x_codec X)" and "buffer_api_ok (x_buf X)"
  shows "\<exists>c. se_span (rpc_server X name service m0 junk w) n = Inr (Some c) \<and>
    conn_ok (e_buf (se_conn (rpc_server X name service m0 junk w))) (rpc_ok (watching X)) 0 1 1 c"
  using span_works [of "watching X" name service "int n" n m0 "junk n" "junk n" "fresh_world w"] assms
  by (auto simp: rpc_server_def rpc_conn_env_def)

text \<open>
  C6. In every history of a server of remote calls in which no accept has failed (listening,
  accepting, connections that work, fail or close before or after the server listens to them,
  earlier stops), \<open>Stop\<close> returns: it never waits for a notification that does not come, disconnects
  every channel and forgets it, releases every acceptor once, stops the pool and the timers.
\<close>

theorem server_stop_returns:
  assumes "server_run (rpc_server X name service m0 junk w) (server_new n t d) 0 s" and "codec_ok (x_codec X)" and "buffer_api_ok (x_buf X)"
    and "iop_is_running (s_pool s)"
  shows "\<exists>s'. stop (rpc_server X name service m0 junk w) joins s = Inr s' \<and> s_channels s' = [] \<and> s_acceptors s' = [] \<and>
    n_count (s_notifier s') = 0 \<and> \<not> iop_is_running (s_pool s') \<and> mbStop (s_timers s') \<and>
    (\<forall>k \<in> set (s_channels s). \<exists>c. s_conns s' k = Some c \<and> \<not> is_connected c) \<and>
    snd ` set (s_acceptors s) \<inter> set (s_resources s') = {}"
proof -
  let ?E = "rpc_server X name service m0 junk w"
  have ok: "server_ok ?E (rpc_ok (watching X)) 0 s"
    by (rule rpc_host.server_run_ok [OF assms(1) rpc_host.server_ok_new rpc_server_spans [OF assms(2,3)]])
  then obtain b where b: "host_inv ?E (rpc_ok (watching X)) b s" "b \<le> 1" "b = 0 \<longrightarrow> n_notified (s_notifier s)"
    "acceptors_alive s" "attached s"
    by (auto simp: server_ok_def)
  obtain s' where s': "stop ?E joins s = Inr s'" "s_channels s' = []" "s_acceptors s' = []"
    "set (s_resources s') = set (s_resources s) - snd ` set (s_acceptors s)"
    "n_count (s_notifier s') = 0" "\<not> iop_is_running (s_pool s')" "mbStop (s_timers s')"
    "\<forall>k \<in> set (s_channels s). \<exists>c. s_conns s' k = Some c \<and> conn_closing c"
    using rpc_host.stop_result [OF b(1) assms(4) b(2,3,4,5), of joins] by blast
  then have "\<forall>k \<in> set (s_channels s). \<exists>c. s_conns s' k = Some c \<and> \<not> is_connected c"
    by (metis is_connected_def)
  moreover have "snd ` set (s_acceptors s) \<inter> set (s_resources s') = {}" using s'(4) by blast
  ultimately show ?thesis using s' by blast
qed

text \<open>
  C20. In every history of a server, the count of its notifier is the number of its channels, plus one
  as long as no \<open>Stop\<close> has gone through to its end, and the number of its channels alone after one has; from then
  on the notifier is notified. A \<open>Stop\<close> of the running server brings the count to 0, empties the table and returns,
  unless an accept has failed before and it meets the acceptor that was deleted then. No channel is listed twice,
  every channel still at work has the server as listener, and no hold of the stop lock is left.
\<close>

theorem server_counts_channels:
  assumes "server_history (rpc_server X name service m0 junk w) (server_new n t d) errs stopped s"
    and "codec_ok (x_codec X)" and "buffer_api_ok (x_buf X)"
  shows "n_count (s_notifier s) = int (length (s_channels s)) + (if stopped then 0 else 1) \<and>
    (stopped \<longrightarrow> n_notified (s_notifier s)) \<and>
    (iop_is_running (s_pool s) \<longrightarrow> (case stop (rpc_server X name service m0 junk w) joins s of
        Inl f \<Rightarrow> f = UseAfterFree \<and> errs \<noteq> 0
      | Inr s' \<Rightarrow> n_count (s_notifier s') = 0 \<and> n_notified (s_notifier s') \<and> s_channels s' = [])) \<and>
    distinct (s_channels s) \<and> s_stop_shared s = 0 \<and>
    (\<forall>k \<in> set (s_channels s). \<exists>c. s_conns s k = Some c \<and> (conn_closing c \<or> 0 \<in> set (c_listeners c)))"
proof -
  let ?E = "rpc_server X name service m0 junk w" and ?M = "rpc_ok (watching X)"
  note spans = rpc_server_spans [OF assms(2,3)]
  have ok: "server_ok ?E ?M errs s"
    by (rule rpc_host.server_run_ok [OF history_run [OF assms(1)] rpc_host.server_ok_new spans])
  have "above s = (if stopped then 0 else 1) \<and> (stopped \<longrightarrow> n_notified (s_notifier s))"
    by (rule rpc_host.server_history_counts [OF assms(1) rpc_host.server_ok_new _ spans])
      (rule host_inv_above [OF host_inv_new])
  then have "n_count (s_notifier s) = int (length (s_channels s)) + (if stopped then 0 else 1)"
    "stopped \<longrightarrow> n_notified (s_notifier s)"
    by (auto simp: above_def)
  moreover obtain b where "host_inv ?E ?M b s" using ok by (auto simp: server_ok_def)
  ultimately show ?thesis using rpc_host.stop_empties [OF ok, of joins] unfolding host_inv_def by blast
qed

lemma release_all_missing:
  "a \<in> snd ` set as \<Longrightarrow> a \<notin> set (s_resources s) \<Longrightarrow> release_all as s = Inl UseAfterFree"
proof (induction as arbitrary: s)
  case (Cons x as)
  obtain h b where x: "x = (h, b)" by (cases x)
  have gone: "a \<notin> set (remove1 b (s_resources s))" using Cons.prems(2) by (meson notin_set_remove1)
  show ?case
  proof (cases "b \<in> set (s_resources s)")
    case True
    with Cons.prems x have "a \<in> snd ` set as" by auto
    from Cons.IH [OF this] gone True x show ?thesis
      by (simp add: release_all_def acceptor_release_def)
  qed (simp add: x release_all_def acceptor_release_def)
qed simp

text \<open>
  A failed accept leaves a released acceptor in the table: \<open>ReleaseAcceptor\<close> deletes the acceptor
  and its socket and does not erase the entry, so the next \<open>Stop\<close> of the running server uses the deleted
  acceptor again.
\<close>

theorem failed_accept_breaks_stop:
  assumes "server_run (rpc_server X name service m0 junk w) (server_new n t d) 0 s" and "codec_ok (x_codec X)"
    and "buffer_api_ok (x_buf X)" and "iop_is_running (s_pool s)" and "map_of (s_acceptors s) host = Some a"
  shows "\<exists>s'. accept_done (rpc_server X name service m0 junk w) early True is_open socket (a, host) s = Inr s' \<and>
    stop (rpc_server X name service m0 junk w) joins s' = Inl UseAfterFree"
proof -
  let ?E = "rpc_server X name service m0 junk w" and ?M = "rpc_ok (watching X)"
  have ok: "server_ok ?E ?M 0 s"
    by (rule rpc_host.server_run_ok [OF assms(1) rpc_host.server_ok_new rpc_server_spans [OF assms(2,3)]])
  then obtain b where b: "host_inv ?E ?M b s" "b \<le> 1" "acceptors_alive s" "attached s"
    by (auto simp: server_ok_def)
  have mem: "(host, a) \<in> set (s_acceptors s)" using assms(5) by (rule map_of_SomeD)
  then have alive: "a \<in> set (s_resources s)" "distinct (s_resources s)" "a \<in> snd ` set (s_acceptors s)"
    using b(3) by (force simp: acceptors_alive_def)+
  let ?s' = "s\<lparr>s_accepts := remove1 (a, host) (s_accepts s), s_resources := remove1 a (s_resources s)\<rparr>"
  have "accept_done ?E early True is_open socket (a, host) s = Inr ?s'"
    using assms(5) alive(1) by (simp add: accept_done_def Let_def release_acceptor_def acceptor_release_def)
  moreover have "stop ?E joins ?s' = Inl UseAfterFree"
  proof -
    have pre: "\<forall>k c. s_conns ?s' k = Some c \<longrightarrow> conn_inv (e_buf (se_conn ?E)) ?M c \<and> (c_impl c \<noteq> None \<or> conn_closing c)"
      "\<forall>k \<in> set (s_channels ?s'). s_conns ?s' k \<noteq> None" "n_count (s_notifier ?s') = int (length (s_channels ?s')) + b"
      "0 \<le> b" "in_i32 (n_count (s_notifier ?s'))"
      using b(1,4) by (force simp: host_inv_def attached_def)+
    obtain H n where H: "stop_channels ?E (s_channels ?s') ?s' = Inr (?s'\<lparr>s_conns := H, s_notifier := n\<rparr>)" "n_count n = b"
      using rpc_host.stop_channels_result [OF pre] by blast
    have ca: "count_after 1 (n_count n) = 0" using b(2) pre(4) H(2) by (auto simp: count_after_def)
    obtain n' where n': "notifier_dec 1 n = Inr n'" "n_notified n'"
      using dec_result [of n 1] ca H(2) pre(4) by (auto simp: int_range_defs)
    have "release_all (s_acceptors s) (?s'\<lparr>s_conns := H, s_notifier := n', s_channels := []\<rparr>) = Inl UseAfterFree"
      using alive by (intro release_all_missing [of a]) simp_all
    then show ?thesis
      using b(1) assms(4) H(1) n' by (simp add: stop_def host_inv_def Let_def notifier_wait_def)
  qed
  ultimately show ?thesis by blast
qed

text \<open>
  A channel whose connection fails is forgotten at once: the error closes the connection, which
  tells the server, which takes it out of the table and counts it down.
\<close>

theorem failed_channel_forgotten:
  assumes "server_run (rpc_server X name service m0 junk w) (server_new n t d) errs s" and "codec_ok (x_codec X)"
    and "buffer_api_ok (x_buf X)" and "k \<in> set (s_channels s)" and "s_conns s k = Some c" and "\<not> conn_closing c"
  shows "\<exists>s'. conn_step (rpc_server X name service m0 junk w) k (ReadDone True bytes) s = Inr s' \<and>
    s_channels s' = remove1 k (s_channels s) \<and> k \<notin> set (s_channels s') \<and>
    n_count (s_notifier s') = n_count (s_notifier s) - 1"
proof -
  let ?E = "rpc_server X name service m0 junk w" and ?M = "rpc_ok (watching X)"
  have "server_ok ?E ?M errs s"
    by (rule rpc_host.server_run_ok [OF assms(1) rpc_host.server_ok_new rpc_server_spans [OF assms(2,3)]])
  then obtain b where b: "host_inv ?E ?M b s" "attached s" by (auto simp: server_ok_def)
  have "conn_ok (e_buf (se_conn ?E)) ?M 0 1 1 c"
    using b assms(5,6) by (fastforce simp: host_inv_def attached_def conn_inv_def)
  from rpc_host.failed_channel_leaves [OF b(1) assms(4,5,6) this, of "ReadDone True bytes" bytes] conn_okD(4) [OF this]
  obtain s' where s': "conn_step ?E k (ReadDone True bytes) s = Inr s'" "s_channels s' = remove1 k (s_channels s)"
    "host_inv ?E ?M b s'" by auto
  have len: "int (length (s_channels s')) = int (length (s_channels s)) - 1"
    using length_pos_if_in_set [OF assms(4)] assms(4) unfolding s'(2)
    by (simp add: length_remove1 of_nat_diff Suc_leI del: length_greater_0_conv)
  moreover have "k \<notin> set (s_channels s')" using s'(2) b(1) by (simp add: host_inv_def)
  moreover have "n_count (s_notifier s') = n_count (s_notifier s) - 1"
    using s'(3) b(1) len unfolding host_inv_def by linarith
  ultimately show ?thesis using s'(1,2) by blast
qed

text \<open>
  A connection that closes between \<open>Span\<close> and the registration of its listener stays in the table:
  it is inserted closed, and nothing it does afterwards tells the server.
\<close>

theorem early_close_stays_listed:
  assumes "handle_accept E early socket s = Inr s1" and "iop_is_running (s_pool s)"
    and "se_span E socket = Inr (Some c)" and "early c = Inr c1" and "conn_closing c1"
  shows "s_fresh s \<in> set (s_channels s1) \<and>
    (\<forall>evs s2. fold_outcome (conn_step E (s_fresh s)) evs s1 = Inr s2 \<longrightarrow> s_channels s2 = s_channels s1)"
proof -
  let ?k = "s_fresh s"
  have s1: "s_channels s1 = s_channels s @ [?k]" "\<exists>c. s_conns s1 ?k = Some c \<and> conn_closing c"
    using assms by (auto simp: handle_accept_def Let_def stop_lock_shared_def stop_unlock_shared_def register_listener_def)
  have stays: "s_channels s2 = s_channels s'"
    if "fold_outcome (conn_step E ?k) evs s' = Inr s2" "\<exists>c. s_conns s' ?k = Some c \<and> conn_closing c" for evs s' s2
    using that
  proof (induction evs arbitrary: s')
    case (Cons ev evs)
    then obtain c where c: "s_conns s' ?k = Some c" "conn_closing c" by blast
    from conn_exec_closing [OF c(2), of "se_conn E" ev] obtain c' where c': "conn_exec (se_conn E) ev c = Inr c'"
      "c_status c' = c_status c" "c_world c' = c_world c" by blast
    have step: "conn_step E ?k ev s' = Inr (s'\<lparr>s_conns := (s_conns s')(?k \<mapsto> c')\<rparr>)"
      using c c' by (simp add: conn_step_def)
    with Cons.prems(1) have "fold_outcome (conn_step E ?k) evs (s'\<lparr>s_conns := (s_conns s')(?k \<mapsto> c')\<rparr>) = Inr s2"
      by simp
    from Cons.IH [OF this] c(2) c'(2) show ?case by simp
  qed simp
  from stays [OF _ s1(2)] s1(1) show ?thesis by simp
qed

section \<open>A server that listens and accepts\<close>

definition demo_server :: "(string, proto, (nat \<times> nat) rpc_world) server_env" where
  "demo_server = rpc_server echo_env ''Listen'' None demo_request (\<lambda>_. 0) 0"

lemma demo_listening:
  "\<exists>s. listen ''0.0.0.0'' ''33000'' True (server_new 2 4 drain) = Inr s \<and> iop_is_running (s_pool s) \<and>
     tm_is_running (s_timers s) \<and> s_accepts s = [(0, ''0.0.0.0::33000'')] \<and> s_resources s = [0] \<and>
     s_acceptors s = [(''0.0.0.0::33000'', 0)] \<and> room s \<and> s_channels s = []"
  by (simp add: listen_def server_new_def iop_start_def iop_new_def iop_get_def Let_def upt_rec numeral_2_eq_2
      numeral_eq_Suc iop_is_running_def room_def notifier_new_def tm_start_def new_timer_master_def int_range_defs
      kTimeoutSec_def tm_is_running_def)

type_synonym demo_state = "(string, proto, (nat \<times> nat) rpc_world) server"

lemma demo_laws: "codec_ok (x_codec echo_env)" "buffer_api_ok (x_buf echo_env)"
  by (simp_all add: text_codec_ok)

lemma demo_accepted:
  "\<exists>s. server_history demo_server (server_new 2 4 0) 0 False s \<and> server_run demo_server (server_new 2 4 0) 0 s \<and> iop_is_running (s_pool s) \<and>
     map_of (s_acceptors s) ''0.0.0.0::33000'' = Some 0 \<and> s_channels s \<noteq> [] \<and>
     (\<forall>k \<in> set (s_channels s). \<exists>c. s_conns s k = Some c \<and> \<not> conn_closing c)"
proof -
  obtain s :: demo_state where s: "listen ''0.0.0.0'' ''33000'' True (server_new 2 4 0) = Inr s" "iop_is_running (s_pool s)"
    "s_accepts s = [(0, ''0.0.0.0::33000'')]" "s_resources s = [0]" "s_acceptors s = [(''0.0.0.0::33000'', 0)]"
    "room s" "s_channels s = []"
    using demo_listening by blast
  have hist: "server_history demo_server (server_new 2 4 0) 0 False s"
    by (rule history_listens [OF history_created s(1)])
  note run = history_run [OF hist]
  have ok: "server_ok demo_server (rpc_ok (watching echo_env)) 0 s"
    unfolding demo_server_def
    by (rule rpc_host.server_run_ok [OF run [unfolded demo_server_def] rpc_host.server_ok_new rpc_server_spans [OF demo_laws]])
  let ?s = "s\<lparr>s_accepts := [(0, ''0.0.0.0::33000'')]\<rparr>"
  obtain b where b: "host_inv demo_server (rpc_ok (watching echo_env)) b ?s"
    using ok by (auto simp: server_ok_def host_inv_def)
  obtain c where c: "se_span demo_server 0 = Inr (Some c)" "conn_ok (e_buf (se_conn demo_server)) (rpc_ok (watching echo_env)) 0 1 1 c"
    using rpc_server_spans [OF demo_laws] unfolding demo_server_def by blast
  have early: "early_steps (se_conn demo_server) [] c = Inr c" by (simp add: early_steps_def)
  have room: "in_i32 (n_count (s_notifier ?s) + 1)" "kTimeoutSec + timer_jiffies (s_timers ?s) \<le> INT_MAX"
    using s(6) by (simp_all add: room_def)
  have running: "iop_is_running (s_pool ?s)" using s(2) by simp
  from rpc_host.handle_accept_inv [where X = echo_env and name = "''Listen''" and service = None and ?m0.0 = demo_request
      and junk = "\<lambda>_. 0" and w = 0 and early = "early_steps (se_conn demo_server) []", folded demo_server_def,
      OF b running c(1) early conn_ok_inv [OF c(2)] room]
  obtain s' where s': "handle_accept demo_server (early_steps (se_conn demo_server) []) 0 ?s = Inr s'"
    "s_channels s' = s_channels ?s @ [s_fresh ?s]" "s_pool s' = s_pool ?s"
    "s_conns s' = (s_conns ?s)(s_fresh ?s \<mapsto> c\<lparr>c_listeners := c_listeners c @ [0]\<rparr>)" "s_acceptors s' = s_acceptors ?s"
    by blast
  have "accept_done demo_server (early_steps (se_conn demo_server) []) False True 0 (0, ''0.0.0.0::33000'') s = Inr s'"
    using s(3,4) s'(1) by (simp add: accept_done_def Let_def)
  from history_accepts [OF hist _ s(6) _ this] s(3) have "server_history demo_server (server_new 2 4 0) 0 False s'" by simp
  moreover note history_run [OF this]
  ultimately show ?thesis using s s' conn_okD(2) [OF c(2)] by (intro exI [of _ s']) simp
qed

theorem server_stop_returns_witness:
  "\<exists>s s'. s_channels s \<noteq> [] \<and> stop demo_server (\<lambda>p. p) s = Inr s' \<and> s_channels s' = [] \<and> n_count (s_notifier s') = 0"
proof -
  obtain s where s: "server_run demo_server (server_new 2 4 0) 0 s" "iop_is_running (s_pool s)" "s_channels s \<noteq> []"
    using demo_accepted by blast
  show ?thesis
    using server_stop_returns [OF s(1) [unfolded demo_server_def] demo_laws s(2), of "\<lambda>p. p"] s(3)
    unfolding demo_server_def by blast
qed

text \<open>A history that accepts a connection, and one that has stopped.\<close>

theorem server_counts_channels_witness:
  "(\<exists>s. s_channels s \<noteq> [] \<and> iop_is_running (s_pool s) \<and> server_history demo_server (server_new 2 4 0) 0 False s \<and>
      n_count (s_notifier s) = int (length (s_channels s)) + 1) \<and>
   (\<exists>s. server_history demo_server (server_new 2 4 0) 0 True s \<and> n_count (s_notifier s) = int (length (s_channels s)))"
proof -
  obtain s where s: "server_history demo_server (server_new 2 4 0) 0 False s" "iop_is_running (s_pool s)" "s_channels s \<noteq> []"
    using demo_accepted by blast
  have before: "n_count (s_notifier s) = int (length (s_channels s)) + 1"
    and stop: "case stop demo_server (\<lambda>p. p) s of Inl f \<Rightarrow> False | Inr s' \<Rightarrow> True"
    using server_counts_channels [OF s(1) [unfolded demo_server_def] demo_laws, of "\<lambda>p. p"] s(2)
    unfolding demo_server_def by (auto split: sum.splits)
  then obtain s' where "stop demo_server (\<lambda>p. p) s = Inr s'" by (auto split: sum.splits)
  from history_stops [OF s(1) this] s(2) have s': "server_history demo_server (server_new 2 4 0) 0 True s'" by simp
  from server_counts_channels [OF s' [unfolded demo_server_def] demo_laws, of "\<lambda>p. p"]
  have "n_count (s_notifier s') = int (length (s_channels s'))" by simp
  then show ?thesis using s before s' by blast
qed

theorem failed_accept_breaks_stop_witness:
  "\<exists>s s'. accept_done demo_server Inr True False 0 (0, ''0.0.0.0::33000'') s = Inr s' \<and>
     stop demo_server (\<lambda>p. p) s' = Inl UseAfterFree"
proof -
  obtain s where s: "server_run demo_server (server_new 2 4 0) 0 s" "iop_is_running (s_pool s)"
    "map_of (s_acceptors s) ''0.0.0.0::33000'' = Some 0"
    using demo_accepted by blast
  show ?thesis
    using failed_accept_breaks_stop [OF s(1) [unfolded demo_server_def] demo_laws s(2,3), of Inr False 0 "\<lambda>p. p"]
    unfolding demo_server_def by blast
qed

theorem failed_channel_forgotten_witness:
  "\<exists>s k s'. k \<in> set (s_channels s) \<and> conn_step demo_server k (ReadDone True []) s = Inr s' \<and> k \<notin> set (s_channels s')"
proof -
  obtain s k c where s: "server_run demo_server (server_new 2 4 0) 0 s" "k \<in> set (s_channels s)"
    "s_conns s k = Some c" "\<not> conn_closing c"
    using demo_accepted by (meson list.set_sel(1))
  show ?thesis
    using failed_channel_forgotten [OF s(1) [unfolded demo_server_def] demo_laws s(2,3,4), of "[]"] s(2)
    unfolding demo_server_def by blast
qed

end
