(* ===== verification/Stop_Race.thy ===== *)
theory Stop_Race
  imports Notifier
begin

text \<open>
  \<open>src/server/network/Server.cpp\<close> with its threads: \<open>AcceptorHandler\<close> with \<open>HandleAccept\<close>, \<open>ConnectionClosed\<close> and \<open>Stop\<close>, cut into
  the statements between which other threads can run. \<open>Server\<close> models what these compute, each run to its end; here the
  state is what they share: \<open>stop_mutex_\<close>, the table of channels with the notifier, the acceptor, the services of the pool. The blocks that
  hold \<open>channel_table_mutex_\<close> or \<open>acceptor_table_mutex_\<close> are single steps, as nothing inside them waits for another handler of the server.

  A thread is a task and the place it has reached, as in \<open>Status_Lock\<close>; a thread that must wait is run without effect. \<open>timed_join\<close> of a
  worker returns when its handlers have finished, or, an event of its own, when its minute is over.

  The lemmas: the count of the notifier is right in every interleaving and \<open>Stop\<close> never sleeps on it; closing connections never disturb \<open>Stop\<close>.
  An accept does: its handler uses an acceptor that \<open>Stop\<close> deletes, or waits for the mutex of a \<open>Stop\<close> that waits for the handler,
  and only the time-out of the join goes on, destroying the services under it.
\<close>

section \<open>Threads\<close>

text \<open>A channel that was there before, or the one accepted by a thread.\<close>

datatype channel = Before nat | Accepted nat

datatype server_task = AcceptTask | CloseTask channel | StopTask

datatype server_place =
    AcceptEntry | AcceptLock | AcceptTest | AcceptSpan | AcceptInsert | AcceptUnlock
  | CloseEntry | CloseTell | CloseErase
  | StopLock | StopTest | StopDrain | StopWait | StopRelease | StopJoin | StopUnlock | StopTimers
  | Finished

record server_shared =
  ss_shared :: "nat set"          \<comment> \<open>the threads that hold \<open>stop_mutex_\<close> shared, and the one that holds it alone\<close>
  ss_exclusive :: "nat option"
  ss_running :: bool              \<comment> \<open>\<open>io_service_pool_.IsRunning()\<close>\<close>
  ss_services :: bool             \<comment> \<open>the services of the pool exist\<close>
  ss_acceptor :: bool             \<comment> \<open>the acceptor exists\<close>
  ss_spanned :: "channel set"     \<comment> \<open>connections that exist, that close or have closed, that have the server as listener\<close>
  ss_closing :: "channel set"
  ss_listening :: "channel set"
  ss_table :: "channel list"
  ss_notifier :: notifier
  ss_drained :: bool              \<comment> \<open>a \<open>Stop\<close> has emptied the table\<close>

type_synonym server_result = "(server_place \<times> server_shared) outcome option"

text \<open>
  \<open>AcceptorHandler::operator()\<close> without an error and with an open socket: it starts the next accept, then calls \<open>HandleAccept\<close>.
\<close>

definition accept_entry :: "server_shared \<Rightarrow> server_result" where
  [simp]: "accept_entry s = Some (if ss_acceptor s then Inr (AcceptLock, s) else Inl UseAfterFree)"

fun accept_step :: "nat \<Rightarrow> server_place \<Rightarrow> server_shared \<Rightarrow> server_result" where
  "accept_step t AcceptEntry s = accept_entry s"
| "accept_step t AcceptLock s =
     (if ss_exclusive s = None then Some (Inr (AcceptTest, s\<lparr>ss_shared := insert t (ss_shared s)\<rparr>)) else None)"
| "accept_step t AcceptTest s =
     Some (if ss_running s then Inr (AcceptSpan, s)
           else if ss_services s then Inr (AcceptUnlock, s) else Inl UseAfterFree)"
| "accept_step t AcceptSpan s = Some (Inr (AcceptInsert, s\<lparr>ss_spanned := insert (Accepted t) (ss_spanned s)\<rparr>))"
| "accept_step t AcceptInsert s =
     Some (bind_outcome (notifier_inc 1 (ss_notifier s)) (\<lambda>n.
       Inr (AcceptUnlock, s\<lparr>ss_listening := insert (Accepted t) (ss_listening s),
         ss_table := List.insert (Accepted t) (ss_table s), ss_notifier := n\<rparr>)))"
| "accept_step t AcceptUnlock s = Some (Inr (Finished, s\<lparr>ss_shared := ss_shared s - {t}\<rparr>))"
| "accept_step t _ s = None"

text \<open>A handler that closes a connection, as far as the server hears of it: \<open>ImplClosed\<close> and \<open>ConnectionClosed\<close>.\<close>

fun close_step :: "channel \<Rightarrow> server_place \<Rightarrow> server_shared \<Rightarrow> server_result" where
  "close_step c CloseEntry s =
     Some (Inr (if c \<in> ss_spanned s \<and> c \<notin> ss_closing s then (CloseTell, s\<lparr>ss_closing := insert c (ss_closing s)\<rparr>) else (Finished, s)))"
| "close_step c CloseTell s = Some (Inr (if c \<in> ss_listening s then CloseErase else Finished, s))"
| "close_step c CloseErase s =
     Some (if c \<in> set (ss_table s)
           then bind_outcome (notifier_dec 1 (ss_notifier s)) (\<lambda>n. Inr (Finished, s\<lparr>ss_table := remove1 c (ss_table s), ss_notifier := n\<rparr>))
           else Inr (Finished, s))"
| "close_step c _ s = None"

text \<open>
  \<open>Stop\<close>. What a \<open>Disconnect\<close> does to its connection is the subject of \<open>Status_Lock\<close>; it marks it closing and tells no
  listener. \<open>joined\<close> tells whether the joins of the workers return.
\<close>

fun stop_step :: "bool \<Rightarrow> nat \<Rightarrow> server_place \<Rightarrow> server_shared \<Rightarrow> server_result" where
  "stop_step joined t StopLock s =
     (if ss_exclusive s = None \<and> ss_shared s = {} then Some (Inr (StopTest, s\<lparr>ss_exclusive := Some t\<rparr>)) else None)"
| "stop_step joined t StopTest s =
     Some (Inr (if ss_running s then (StopDrain, s) else (Finished, s\<lparr>ss_exclusive := None\<rparr>)))"
| "stop_step joined t StopDrain s =
     Some (bind_outcome (fold_outcome (\<lambda>_. notifier_dec 1) (ss_table s) (ss_notifier s)) (\<lambda>n.
           bind_outcome (notifier_dec 1 n) (\<lambda>n.
           Inr (StopWait, s\<lparr>ss_closing := ss_closing s \<union> set (ss_table s), ss_table := [], ss_notifier := n, ss_drained := True\<rparr>))))"
| "stop_step joined t StopWait s = (if notifier_wait False (ss_notifier s) then Some (Inr (StopRelease, s)) else None)"
| "stop_step joined t StopRelease s =
     Some (if ss_acceptor s then Inr (StopJoin, s\<lparr>ss_acceptor := False\<rparr>) else Inl UseAfterFree)"
| "stop_step joined t StopJoin s =
     (if joined then Some (Inr (StopUnlock, s\<lparr>ss_running := False, ss_services := False\<rparr>)) else None)"
| "stop_step joined t StopUnlock s = Some (Inr (StopTimers, s\<lparr>ss_exclusive := None\<rparr>))"
| "stop_step joined t StopTimers s = Some (bind_outcome (check CheckFailed (ss_table s = [])) (\<lambda>_. Inr (Finished, s)))"
| "stop_step joined t _ s = None"

fun server_task_step :: "bool \<Rightarrow> nat \<Rightarrow> server_task \<Rightarrow> server_place \<Rightarrow> server_shared \<Rightarrow> server_result" where
  "server_task_step joined t AcceptTask = accept_step t"
| "server_task_step joined t (CloseTask c) = close_step c"
| "server_task_step joined t StopTask = stop_step joined t"

fun server_entry :: "server_task \<Rightarrow> server_place" where
  "server_entry AcceptTask = AcceptEntry"
| "server_entry (CloseTask c) = CloseEntry"
| "server_entry StopTask = StopLock"

record server_threads =
  st_shared :: server_shared
  st_threads :: "(server_task \<times> server_place) list"

text \<open>No worker is inside a handler, and none has an accept to handle.\<close>

fun worker_idle :: "server_task \<times> server_place \<Rightarrow> bool" where
  "worker_idle (AcceptTask, p) \<longleftrightarrow> p = Finished"
| "worker_idle (CloseTask c, p) \<longleftrightarrow> p = Finished \<or> p = CloseEntry"
| "worker_idle (StopTask, p) \<longleftrightarrow> True"

datatype turn_event = Run nat | JoinTimedOut nat

definition server_thread_step :: "bool \<Rightarrow> nat \<Rightarrow> server_threads \<Rightarrow> server_threads outcome" where
  "server_thread_step joined t s =
     (if t < length (st_threads s) then
        let (k, p) = st_threads s ! t in
        case server_task_step joined t k p (st_shared s) of
          None \<Rightarrow> Inr s
        | Some r \<Rightarrow> bind_outcome r (\<lambda>(p', g). Inr \<lparr>st_shared = g, st_threads = (st_threads s)[t := (k, p')]\<rparr>)
      else Inr s)"

fun server_turn :: "turn_event \<Rightarrow> server_threads \<Rightarrow> server_threads outcome" where
  "server_turn (Run t) s = server_thread_step (list_all worker_idle (st_threads s)) t s"
| "server_turn (JoinTimedOut t) s =
     (if t < length (st_threads s) \<and> snd (st_threads s ! t) = StopJoin then server_thread_step True t s else Inr s)"

definition server_turns :: "turn_event list \<Rightarrow> server_threads \<Rightarrow> server_threads outcome" where
  "server_turns = fold_outcome server_turn"

text \<open>A server that listens and has \<open>n\<close> channels.\<close>

definition server_start :: "nat \<Rightarrow> server_task list \<Rightarrow> server_threads" where
  "server_start n tasks =
     \<lparr>st_shared = \<lparr>ss_shared = {}, ss_exclusive = None, ss_running = True, ss_services = True, ss_acceptor = True,
        ss_spanned = Before ` {..<n}, ss_closing = {}, ss_listening = Before ` {..<n}, ss_table = map Before [0..<n],
        ss_notifier = notifier_new (int n + 1), ss_drained = False\<rparr>,
      st_threads = map (\<lambda>k. (k, server_entry k)) tasks\<rparr>"

section \<open>Invariant\<close>

definition holds_shared :: "server_place \<Rightarrow> bool" where
  "holds_shared p \<longleftrightarrow> p \<in> {AcceptTest, AcceptSpan, AcceptInsert, AcceptUnlock}"

definition holds_alone :: "server_place \<Rightarrow> bool" where
  "holds_alone p \<longleftrightarrow> p \<in> {StopTest, StopDrain, StopWait, StopRelease, StopJoin, StopUnlock}"

fun thread_fine :: "server_shared \<Rightarrow> nat \<Rightarrow> server_task \<times> server_place \<Rightarrow> bool" where
  "thread_fine g t (AcceptTask, p) \<longleftrightarrow>
     (p \<in> {AcceptEntry, AcceptLock, AcceptTest, AcceptSpan, AcceptInsert} \<and> Accepted t \<notin> set (ss_table g) \<and>
        (p \<in> {AcceptSpan, AcceptInsert} \<longrightarrow> ss_running g)) \<or> p \<in> {AcceptUnlock, Finished}"
| "thread_fine g t (CloseTask c, p) \<longleftrightarrow> p \<in> {CloseEntry, CloseTell, CloseErase, Finished}"
| "thread_fine g t (StopTask, StopLock) \<longleftrightarrow> True"
| "thread_fine g t (StopTask, StopTest) \<longleftrightarrow> (ss_drained g \<longrightarrow> \<not> ss_running g)"
| "thread_fine g t (StopTask, StopDrain) \<longleftrightarrow> \<not> ss_drained g \<and> ss_running g \<and> ss_acceptor g"
| "thread_fine g t (StopTask, StopWait) \<longleftrightarrow> ss_drained g \<and> ss_acceptor g"
| "thread_fine g t (StopTask, StopRelease) \<longleftrightarrow> ss_drained g \<and> ss_acceptor g"
| "thread_fine g t (StopTask, StopJoin) \<longleftrightarrow> ss_drained g"
| "thread_fine g t (StopTask, StopUnlock) \<longleftrightarrow> ss_drained g \<and> \<not> ss_running g"
| "thread_fine g t (StopTask, StopTimers) \<longleftrightarrow> ss_drained g"
| "thread_fine g t (StopTask, Finished) \<longleftrightarrow> True"
| "thread_fine g t (StopTask, _) \<longleftrightarrow> False"

text \<open>With \<open>n\<close> channels at the start and \<open>m\<close> threads.\<close>

definition globals_ok :: "nat \<Rightarrow> nat \<Rightarrow> server_shared \<Rightarrow> bool" where
  "globals_ok n m g \<longleftrightarrow>
     ss_shared g \<subseteq> {..<m} \<and> (\<forall>t. ss_exclusive g = Some t \<longrightarrow> t < m) \<and> (ss_exclusive g \<noteq> None \<longrightarrow> ss_shared g = {}) \<and>
     (ss_exclusive g = None \<longrightarrow> ss_drained g \<longrightarrow> \<not> ss_running g) \<and> (\<not> ss_drained g \<longrightarrow> ss_running g \<and> ss_acceptor g) \<and>
     distinct (ss_table g) \<and> set (ss_table g) \<subseteq> Before ` {..<n} \<union> Accepted ` {..<m} \<and>
     n_count (ss_notifier g) = int (length (ss_table g)) + of_bool (\<not> ss_drained g) \<and>
     (ss_drained g \<longrightarrow> ss_table g = [] \<and> n_notified (ss_notifier g))"

definition threads_fine :: "server_shared \<Rightarrow> (server_task \<times> server_place) list \<Rightarrow> bool" where
  "threads_fine g ths \<longleftrightarrow> (\<forall>t < length ths. thread_fine g t (ths ! t) \<and>
     (t \<in> ss_shared g \<longleftrightarrow> holds_shared (snd (ths ! t))) \<and> (ss_exclusive g = Some t \<longleftrightarrow> holds_alone (snd (ths ! t))))"

definition server_threads_inv :: "nat \<Rightarrow> server_threads \<Rightarrow> bool" where
  "server_threads_inv n s \<longleftrightarrow> globals_ok n (length (st_threads s)) (st_shared s) \<and> threads_fine (st_shared s) (st_threads s)"

text \<open>What a step of thread \<open>t\<close> leaves to the others.\<close>

definition others_kept :: "nat \<Rightarrow> server_shared \<Rightarrow> server_shared \<Rightarrow> bool" where
  "others_kept t g g' \<longleftrightarrow>
     ss_shared g' - {t} = ss_shared g - {t} \<and> (\<forall>u. u \<noteq> t \<longrightarrow> (ss_exclusive g' = Some u \<longleftrightarrow> ss_exclusive g = Some u)) \<and>
     (ss_exclusive g = Some t \<or> ss_running g' = ss_running g \<and> ss_drained g' = ss_drained g \<and> ss_acceptor g' = ss_acceptor g) \<and>
     (ss_running g' \<longrightarrow> ss_running g) \<and> (ss_drained g \<longrightarrow> ss_drained g') \<and>
     (\<forall>u. u \<noteq> t \<longrightarrow> Accepted u \<in> set (ss_table g') \<longrightarrow> Accepted u \<in> set (ss_table g))"

lemma thread_fine_kept:
  assumes "thread_fine g u (k, p)" "others_kept t g g'" "u \<noteq> t" "ss_exclusive g \<noteq> None \<longrightarrow> ss_shared g = {}"
    and "u \<in> ss_shared g \<longleftrightarrow> holds_shared p" "ss_exclusive g = Some u \<longleftrightarrow> holds_alone p"
  shows "thread_fine g' u (k, p)"
proof -
  have alone: "ss_running g' = ss_running g \<and> ss_drained g' = ss_drained g \<and> ss_acceptor g' = ss_acceptor g" if "holds_alone p \<or> holds_shared p"
    using that assms(2-6) by (auto simp: others_kept_def)
  show ?thesis
  proof (cases k)
    case AcceptTask
    then show ?thesis using assms(1-3) alone by (auto simp: others_kept_def holds_shared_def)
  next
    case (CloseTask c)
    then show ?thesis using assms(1) by simp
  next
    case StopTask
    then show ?thesis using assms(1,2) alone by (cases p) (auto simp: others_kept_def holds_alone_def)
  qed
qed

lemma server_step_keeps:
  assumes inv: "globals_ok n (length ths) g" "threads_fine g ths" and t: "t < length ths" "ths ! t = (k, p)"
    and new: "globals_ok n (length ths) g'" "thread_fine g' t (k, p')" "t \<in> ss_shared g' \<longleftrightarrow> holds_shared p'"
      "ss_exclusive g' = Some t \<longleftrightarrow> holds_alone p'"
    and frame: "others_kept t g g'"
  shows "server_threads_inv n \<lparr>st_shared = g', st_threads = ths[t := (k, p')]\<rparr>"
proof -
  have "thread_fine g' u (ths ! u) \<and> (u \<in> ss_shared g' \<longleftrightarrow> holds_shared (snd (ths ! u))) \<and>
      (ss_exclusive g' = Some u \<longleftrightarrow> holds_alone (snd (ths ! u)))" if u: "u < length ths" "u \<noteq> t" for u
  proof -
    obtain k' q where q: "ths ! u = (k', q)" by (cases "ths ! u")
    have old: "thread_fine g u (k', q)" "u \<in> ss_shared g \<longleftrightarrow> holds_shared q" "ss_exclusive g = Some u \<longleftrightarrow> holds_alone q"
      using inv(2) u(1) q by (auto simp: threads_fine_def)
    have "ss_exclusive g \<noteq> None \<longrightarrow> ss_shared g = {}" using inv(1) by (simp add: globals_ok_def)
    from thread_fine_kept [OF old(1) frame u(2) this old(2,3)] old(2,3) frame u(2) q show ?thesis
      by (auto simp: others_kept_def)
  qed
  then show ?thesis using new t(1) by (auto simp: server_threads_inv_def threads_fine_def nth_list_update)
qed

lemma table_bound:
  assumes "globals_ok n m g"
  shows "length (ss_table g) \<le> n + m"
proof -
  have "length (ss_table g) = card (set (ss_table g))"
    using assms by (simp add: globals_ok_def distinct_card)
  also have "\<dots> \<le> card (Before ` {..<n} \<union> Accepted ` {..<m})"
    using assms by (intro card_mono) (auto simp: globals_ok_def)
  also have "\<dots> \<le> n + m"
    using card_Un_le [of "Before ` {..<n}" "Accepted ` {..<m}"] card_image_le [of "{..<n}" Before] card_image_le [of "{..<m}" Accepted]
    by simp
  finally show ?thesis .
qed

text \<open>The loop of \<open>Stop\<close> over the channels.\<close>

lemma dec_all:
  assumes "n_count n = int (length xs) + 1" "int (length xs) + 1 \<le> INT_MAX"
  shows "\<exists>n'. fold_outcome (\<lambda>_. notifier_dec 1) xs n = Inr n' \<and> n_count n' = 1"
  using assms
proof (induction xs arbitrary: n)
  case (Cons x xs)
  have "in_i32 (count_after 1 (n_count n))" using Cons.prems by (simp add: count_after_def int_range_defs)
  then obtain n' where "notifier_dec 1 n = Inr n'" "n_count n' = count_after 1 (n_count n)"
    using dec_result [of n 1] Cons.prems(1) by auto
  then show ?case using Cons.IH [of n'] Cons.prems by (simp add: count_after_def)
qed simp

section \<open>Every step keeps the invariant\<close>

lemma accept_turn:
  assumes inv: "globals_ok n (length ths) g" "threads_fine g ths" and t: "t < length ths" "ths ! t = (AcceptTask, p)"
    and room: "int n + int (length ths) + 1 < INT_MAX" and step: "accept_step t p g = Some r"
  shows "r = Inl UseAfterFree \<or>
    (\<exists>p' g'. r = Inr (p', g') \<and> server_threads_inv n \<lparr>st_shared = g', st_threads = ths[t := (AcceptTask, p')]\<rparr>)"
proof -
  have own: "thread_fine g t (AcceptTask, p)" "t \<in> ss_shared g \<longleftrightarrow> holds_shared p" "ss_exclusive g = Some t \<longleftrightarrow> holds_alone p"
    using inv(2) t by (auto simp: threads_fine_def)
  note keep = server_step_keeps [OF inv t]
  show ?thesis
  proof (cases p)
    case AcceptEntry
    have "server_threads_inv n \<lparr>st_shared = g, st_threads = ths[t := (AcceptTask, AcceptLock)]\<rparr>"
      by (rule keep) (use inv(1) own AcceptEntry in \<open>auto simp: others_kept_def holds_shared_def holds_alone_def\<close>)
    then show ?thesis using step AcceptEntry by (auto split: if_splits)
  next
    case AcceptLock
    then have "r = Inr (AcceptTest, g\<lparr>ss_shared := insert t (ss_shared g)\<rparr>)" "ss_exclusive g = None"
      using step by (auto split: if_splits)
    moreover have "server_threads_inv n \<lparr>st_shared = g\<lparr>ss_shared := insert t (ss_shared g)\<rparr>, st_threads = ths[t := (AcceptTask, AcceptTest)]\<rparr>"
      by (rule keep) (use inv(1) own AcceptLock calculation(2) t(1) in
          \<open>auto simp: others_kept_def holds_shared_def holds_alone_def globals_ok_def\<close>)
    ultimately show ?thesis by blast
  next
    case AcceptTest
    have "server_threads_inv n \<lparr>st_shared = g, st_threads = ths[t := (AcceptTask, AcceptUnlock)]\<rparr>"
      by (rule keep) (use inv(1) own AcceptTest in \<open>auto simp: others_kept_def holds_shared_def holds_alone_def\<close>)
    moreover have "server_threads_inv n \<lparr>st_shared = g, st_threads = ths[t := (AcceptTask, AcceptSpan)]\<rparr>" if "ss_running g"
      by (rule keep) (use inv(1) own AcceptTest that in \<open>auto simp: others_kept_def holds_shared_def holds_alone_def\<close>)
    ultimately show ?thesis using step AcceptTest by (auto split: if_splits)
  next
    case AcceptSpan
    let ?g = "g\<lparr>ss_spanned := insert (Accepted t) (ss_spanned g)\<rparr>"
    have "server_threads_inv n \<lparr>st_shared = ?g, st_threads = ths[t := (AcceptTask, AcceptInsert)]\<rparr>"
      by (rule keep) (use inv(1) own AcceptSpan in \<open>auto simp: others_kept_def holds_shared_def holds_alone_def globals_ok_def\<close>)
    then show ?thesis using step AcceptSpan by auto
  next
    case AcceptInsert
    have alone: "ss_exclusive g = None" using own(2) inv(1) AcceptInsert by (auto simp: globals_ok_def holds_shared_def)
    have fresh: "Accepted t \<notin> set (ss_table g)" "ss_running g" using own(1) AcceptInsert by auto
    then have drained: "\<not> ss_drained g" using alone inv(1) by (auto simp: globals_ok_def)
    have count: "n_count (ss_notifier g) = int (length (ss_table g)) + 1" using inv(1) drained by (simp add: globals_ok_def)
    then have "in_i32 (count_after (- 1) (n_count (ss_notifier g)))"
      using table_bound [OF inv(1)] room by (simp add: count_after_def int_range_defs)
    then obtain nt where nt: "notifier_inc 1 (ss_notifier g) = Inr nt" "n_count nt = int (length (ss_table g)) + 2"
      using dec_result [of "ss_notifier g" "- 1"] count by (auto simp: notifier_inc_def count_after_def int_range_defs)
    let ?g = "g\<lparr>ss_listening := insert (Accepted t) (ss_listening g), ss_table := List.insert (Accepted t) (ss_table g), ss_notifier := nt\<rparr>"
    have "globals_ok n (length ths) ?g"
      using inv(1) nt(2) fresh drained t(1) by (simp add: globals_ok_def)
    then have "server_threads_inv n \<lparr>st_shared = ?g, st_threads = ths[t := (AcceptTask, AcceptUnlock)]\<rparr>"
      by (rule keep) (use own AcceptInsert in \<open>auto simp: others_kept_def holds_shared_def holds_alone_def\<close>)
    then show ?thesis using step AcceptInsert nt(1) by auto
  next
    case AcceptUnlock
    let ?g = "g\<lparr>ss_shared := ss_shared g - {t}\<rparr>"
    have "server_threads_inv n \<lparr>st_shared = ?g, st_threads = ths[t := (AcceptTask, Finished)]\<rparr>"
      by (rule keep) (use inv(1) own AcceptUnlock in \<open>auto simp: others_kept_def holds_shared_def holds_alone_def globals_ok_def\<close>)
    then show ?thesis using step AcceptUnlock by auto
  qed (use step own(1) in auto)
qed

lemma close_turn:
  assumes inv: "globals_ok n (length ths) g" "threads_fine g ths" and t: "t < length ths" "ths ! t = (CloseTask c, p)"
    and room: "int n + int (length ths) + 1 < INT_MAX" and step: "close_step c p g = Some r"
  shows "\<exists>p' g'. r = Inr (p', g') \<and> server_threads_inv n \<lparr>st_shared = g', st_threads = ths[t := (CloseTask c, p')]\<rparr>"
proof -
  have own: "thread_fine g t (CloseTask c, p)" "t \<in> ss_shared g \<longleftrightarrow> holds_shared p" "ss_exclusive g = Some t \<longleftrightarrow> holds_alone p"
    using inv(2) t by (auto simp: threads_fine_def)
  then have free: "t \<notin> ss_shared g" "ss_exclusive g \<noteq> Some t" by (auto simp: holds_shared_def holds_alone_def)
  have same: "server_threads_inv n \<lparr>st_shared = g', st_threads = ths[t := (CloseTask c, p')]\<rparr>"
    if "globals_ok n (length ths) g'" "thread_fine g' t (CloseTask c, p')" "others_kept t g g'"
      "ss_shared g' = ss_shared g" "ss_exclusive g' = ss_exclusive g" for g' p'
    by (rule server_step_keeps [OF inv t that(1,2) _ _ that(3)]) (use that(2,4,5) free in \<open>auto simp: holds_shared_def holds_alone_def\<close>)
  show ?thesis
  proof (cases p)
    case CloseEntry
    show ?thesis
    proof (cases "c \<in> ss_spanned g \<and> c \<notin> ss_closing g")
      case True
      let ?g = "g\<lparr>ss_closing := insert c (ss_closing g)\<rparr>"
      have "server_threads_inv n \<lparr>st_shared = ?g, st_threads = ths[t := (CloseTask c, CloseTell)]\<rparr>"
        by (rule same) (use inv(1) in \<open>auto simp: globals_ok_def others_kept_def\<close>)
      then show ?thesis using step CloseEntry True by auto
    next
      case False
      have "server_threads_inv n \<lparr>st_shared = g, st_threads = ths[t := (CloseTask c, Finished)]\<rparr>"
        by (rule same) (use inv(1) in \<open>auto simp: others_kept_def\<close>)
      then show ?thesis using step CloseEntry False by auto
    qed
  next
    case CloseTell
    have "server_threads_inv n \<lparr>st_shared = g, st_threads = ths[t := (CloseTask c, if c \<in> ss_listening g then CloseErase else Finished)]\<rparr>"
      by (rule same) (use inv(1) in \<open>auto simp: others_kept_def\<close>)
    then show ?thesis using step CloseTell by auto
  next
    case CloseErase
    show ?thesis
    proof (cases "c \<in> set (ss_table g)")
      case False
      have "server_threads_inv n \<lparr>st_shared = g, st_threads = ths[t := (CloseTask c, Finished)]\<rparr>"
        by (rule same) (use inv(1) in \<open>auto simp: others_kept_def\<close>)
      then show ?thesis using step CloseErase False by auto
    next
      case True
      then have drained: "\<not> ss_drained g" using inv(1) by (auto simp: globals_ok_def)
      have len: "Suc (length (remove1 c (ss_table g))) = length (ss_table g)"
        using True length_pos_if_in_set [OF True] by (simp add: length_remove1)
      have count: "n_count (ss_notifier g) = int (length (ss_table g)) + 1" using inv(1) drained by (simp add: globals_ok_def)
      then have "in_i32 (count_after 1 (n_count (ss_notifier g)))"
        using table_bound [OF inv(1)] room by (simp add: count_after_def int_range_defs)
      then obtain nt where nt: "notifier_dec 1 (ss_notifier g) = Inr nt" "n_count nt = int (length (ss_table g))"
        using dec_result [of "ss_notifier g" 1] count by (auto simp: count_after_def)
      let ?g = "g\<lparr>ss_table := remove1 c (ss_table g), ss_notifier := nt\<rparr>"
      have "globals_ok n (length ths) ?g"
        using inv(1) nt(2) drained len set_remove1_subset [of c "ss_table g"] by (auto simp: globals_ok_def)
      then have "server_threads_inv n \<lparr>st_shared = ?g, st_threads = ths[t := (CloseTask c, Finished)]\<rparr>"
        by (rule same) (use set_remove1_subset [of c "ss_table g"] in \<open>auto simp: others_kept_def\<close>)
      then show ?thesis using step CloseErase True nt(1) by auto
    qed
  qed (use step own(1) in auto)
qed

lemma stop_turn:
  assumes inv: "globals_ok n (length ths) g" "threads_fine g ths" and t: "t < length ths" "ths ! t = (StopTask, p)"
    and room: "int n + int (length ths) + 1 < INT_MAX" and step: "stop_step joined t p g = Some r"
  shows "\<exists>p' g'. r = Inr (p', g') \<and> server_threads_inv n \<lparr>st_shared = g', st_threads = ths[t := (StopTask, p')]\<rparr>"
proof -
  have own: "thread_fine g t (StopTask, p)" "t \<in> ss_shared g \<longleftrightarrow> holds_shared p" "ss_exclusive g = Some t \<longleftrightarrow> holds_alone p"
    using inv(2) t by (auto simp: threads_fine_def)
  note keep = server_step_keeps [OF inv t]
  note defs = others_kept_def holds_shared_def holds_alone_def globals_ok_def
  show ?thesis
  proof (cases p)
    case StopLock
    then have "r = Inr (StopTest, g\<lparr>ss_exclusive := Some t\<rparr>)" "ss_exclusive g = None" "ss_shared g = {}"
      using step by (auto split: if_splits)
    moreover have "server_threads_inv n \<lparr>st_shared = g\<lparr>ss_exclusive := Some t\<rparr>, st_threads = ths[t := (StopTask, StopTest)]\<rparr>"
      by (rule keep) (use inv(1) own StopLock calculation(2,3) t(1) in \<open>auto simp: defs\<close>)
    ultimately show ?thesis by blast
  next
    case StopTest
    show ?thesis
    proof (cases "ss_running g")
      case True
      have "server_threads_inv n \<lparr>st_shared = g, st_threads = ths[t := (StopTask, StopDrain)]\<rparr>"
        by (rule keep) (use inv(1) own StopTest True in \<open>auto simp: defs\<close>)
      then show ?thesis using step StopTest True by auto
    next
      case False
      have "server_threads_inv n \<lparr>st_shared = g\<lparr>ss_exclusive := None\<rparr>, st_threads = ths[t := (StopTask, Finished)]\<rparr>"
        by (rule keep) (use inv(1) own StopTest False in \<open>auto simp: defs\<close>)
      then show ?thesis using step StopTest False by auto
    qed
  next
    case StopDrain
    then have drained: "\<not> ss_drained g" using own(1) by simp
    have count: "n_count (ss_notifier g) = int (length (ss_table g)) + 1" using inv(1) drained by (simp add: globals_ok_def)
    then obtain n1 where n1: "fold_outcome (\<lambda>_. notifier_dec 1) (ss_table g) (ss_notifier g) = Inr n1" "n_count n1 = 1"
      using dec_all table_bound [OF inv(1)] room by fastforce
    then obtain n2 where n2: "notifier_dec 1 n1 = Inr n2" "n_count n2 = 0" "n_notified n2"
      using dec_result [of n1 1] by (auto simp: count_after_def int_range_defs)
    let ?g = "g\<lparr>ss_closing := ss_closing g \<union> set (ss_table g), ss_table := [], ss_notifier := n2, ss_drained := True\<rparr>"
    have "server_threads_inv n \<lparr>st_shared = ?g, st_threads = ths[t := (StopTask, StopWait)]\<rparr>"
      by (rule keep) (use inv(1) own StopDrain n2 in \<open>auto simp: defs\<close>)
    then show ?thesis using step StopDrain n1(1) n2(1) by auto
  next
    case StopWait
    have "server_threads_inv n \<lparr>st_shared = g, st_threads = ths[t := (StopTask, StopRelease)]\<rparr>"
      by (rule keep) (use inv(1) own StopWait in \<open>auto simp: defs\<close>)
    then show ?thesis using step StopWait by (auto split: if_splits)
  next
    case StopRelease
    let ?g = "g\<lparr>ss_acceptor := False\<rparr>"
    have "server_threads_inv n \<lparr>st_shared = ?g, st_threads = ths[t := (StopTask, StopJoin)]\<rparr>"
      by (rule keep) (use inv(1) own StopRelease in \<open>auto simp: defs\<close>)
    then show ?thesis using step StopRelease own(1) by auto
  next
    case StopJoin
    let ?g = "g\<lparr>ss_running := False, ss_services := False\<rparr>"
    have "server_threads_inv n \<lparr>st_shared = ?g, st_threads = ths[t := (StopTask, StopUnlock)]\<rparr>"
      by (rule keep) (use inv(1) own StopJoin in \<open>auto simp: defs\<close>)
    then show ?thesis using step StopJoin by (auto split: if_splits)
  next
    case StopUnlock
    let ?g = "g\<lparr>ss_exclusive := None\<rparr>"
    have "server_threads_inv n \<lparr>st_shared = ?g, st_threads = ths[t := (StopTask, StopTimers)]\<rparr>"
      by (rule keep) (use inv(1) own StopUnlock in \<open>auto simp: defs\<close>)
    then show ?thesis using step StopUnlock by auto
  next
    case StopTimers
    then have "ss_table g = []" using own(1) inv(1) by (simp add: globals_ok_def)
    have "server_threads_inv n \<lparr>st_shared = g, st_threads = ths[t := (StopTask, Finished)]\<rparr>"
      by (rule keep) (use inv(1) own StopTimers in \<open>auto simp: defs\<close>)
    then show ?thesis using step StopTimers \<open>ss_table g = []\<close> by auto
  qed (use step own(1) in auto)
qed

definition server_room :: "nat \<Rightarrow> server_threads \<Rightarrow> bool" where
  "server_room n s \<longleftrightarrow> int n + int (length (st_threads s)) + 1 < INT_MAX"

lemma server_thread_step_keeps:
  assumes inv: "server_threads_inv n s" and room: "server_room n s"
  shows "(server_thread_step joined t s = Inl UseAfterFree \<and> AcceptTask \<in> fst ` set (st_threads s)) \<or>
    (\<exists>s'. server_thread_step joined t s = Inr s' \<and> server_threads_inv n s' \<and> map fst (st_threads s') = map fst (st_threads s))"
proof (cases "t < length (st_threads s)")
  case False
  then show ?thesis using inv by (simp add: server_thread_step_def)
next
  case True
  obtain k p where kp: "st_threads s ! t = (k, p)" by (cases "st_threads s ! t")
  have g: "globals_ok n (length (st_threads s)) (st_shared s)" "threads_fine (st_shared s) (st_threads s)"
    using inv by (auto simp: server_threads_inv_def)
  have tasks: "map fst ((st_threads s)[t := (k, p')]) = map fst (st_threads s)" for p'
    using True kp by (simp add: map_update list_update_same_conv)
  have accept: "k = AcceptTask \<Longrightarrow> AcceptTask \<in> fst ` set (st_threads s)"
    using True kp by (metis fst_conv image_eqI nth_mem)
  show ?thesis
  proof (cases "server_task_step joined t k p (st_shared s)")
    case None
    then show ?thesis using inv True kp by (simp add: server_thread_step_def)
  next
    case (Some r)
    have "(r = Inl UseAfterFree \<and> k = AcceptTask) \<or>
        (\<exists>p' g'. r = Inr (p', g') \<and> server_threads_inv n \<lparr>st_shared = g', st_threads = (st_threads s)[t := (k, p')]\<rparr>)"
      using accept_turn [OF g True] close_turn [OF g True] stop_turn [OF g True] room kp Some
      by (cases k) (auto simp: server_room_def)
    then show ?thesis using True kp Some tasks accept by (auto simp: server_thread_step_def)
  qed
qed

lemma server_turn_keeps:
  assumes "server_threads_inv n s" "server_room n s"
  shows "(server_turn e s = Inl UseAfterFree \<and> AcceptTask \<in> fst ` set (st_threads s)) \<or>
    (\<exists>s'. server_turn e s = Inr s' \<and> server_threads_inv n s' \<and> map fst (st_threads s') = map fst (st_threads s))"
  using assms server_thread_step_keeps [OF assms] by (cases e) auto

lemma server_room_tasks: "map fst (st_threads s') = map fst (st_threads s) \<Longrightarrow> server_room n s' = server_room n s"
  by (metis length_map server_room_def)

lemma server_turns_keep:
  "server_threads_inv n s \<Longrightarrow> server_room n s \<Longrightarrow>
    (server_turns es s = Inl UseAfterFree \<and> AcceptTask \<in> fst ` set (st_threads s)) \<or>
    (\<exists>s'. server_turns es s = Inr s' \<and> server_threads_inv n s' \<and> map fst (st_threads s') = map fst (st_threads s))"
proof (induction es arbitrary: s)
  case Nil
  then show ?case by (simp add: server_turns_def)
next
  case (Cons e es)
  from server_turn_keeps [OF Cons.prems, of e] show ?case
  proof
    assume "server_turn e s = Inl UseAfterFree \<and> AcceptTask \<in> fst ` set (st_threads s)"
    then show ?thesis by (simp add: server_turns_def)
  next
    assume "\<exists>s'. server_turn e s = Inr s' \<and> server_threads_inv n s' \<and> map fst (st_threads s') = map fst (st_threads s)"
    then obtain s1 where s1: "server_turn e s = Inr s1" "server_threads_inv n s1" "map fst (st_threads s1) = map fst (st_threads s)"
      by blast
    have "fst ` set (st_threads s1) = fst ` set (st_threads s)" using s1(3) by (metis list.set_map)
    then show ?thesis
      using Cons.IH [OF s1(2)] server_room_tasks [OF s1(3)] Cons.prems(2) s1(1,3) by (auto simp: server_turns_def)
  qed
qed

lemma server_start_inv: "server_threads_inv n (server_start n tasks)"
proof -
  have "thread_fine (st_shared (server_start n tasks)) t (k, server_entry k)" for t k
    by (cases k) (auto simp: server_start_def)
  moreover have "\<not> holds_shared (server_entry k)" "\<not> holds_alone (server_entry k)" for k
    by (cases k; simp add: holds_shared_def holds_alone_def)+
  moreover have "distinct (map Before [0..<n])" by (simp add: distinct_map inj_on_def)
  moreover have "ss_table (st_shared (server_start n tasks)) = map Before [0..<n]" by (simp add: server_start_def)
  ultimately show ?thesis
    by (auto simp: server_threads_inv_def globals_ok_def threads_fine_def server_start_def notifier_new_def)
qed

section \<open>Stop among closing connections\<close>

fun turns_left :: "server_place \<Rightarrow> nat" where
  "turns_left AcceptEntry = 6" | "turns_left AcceptLock = 5" | "turns_left AcceptTest = 4" | "turns_left AcceptSpan = 3"
| "turns_left AcceptInsert = 2" | "turns_left AcceptUnlock = 1"
| "turns_left CloseEntry = 3" | "turns_left CloseTell = 2" | "turns_left CloseErase = 1"
| "turns_left StopLock = 8" | "turns_left StopTest = 7" | "turns_left StopDrain = 6" | "turns_left StopWait = 5" | "turns_left StopRelease = 4"
| "turns_left StopJoin = 3" | "turns_left StopUnlock = 2" | "turns_left StopTimers = 1" | "turns_left Finished = 0"

definition all_turns_left :: "server_threads \<Rightarrow> nat" where
  "all_turns_left s = sum_list (map (turns_left \<circ> snd) (st_threads s))"

lemma turns_shrink: "server_task_step joined t k p g = Some (Inr (p', g')) \<Longrightarrow> turns_left p' < turns_left p"
  by (cases k; cases p) (auto split: if_splits)

lemma close_enabled: "thread_fine g t (CloseTask c, p) \<Longrightarrow> p \<noteq> Finished \<Longrightarrow> close_step c p g \<noteq> None"
  by (cases p) auto

lemma stop_enabled:
  assumes "thread_fine g t (StopTask, p)" "p \<noteq> Finished" "globals_ok n m g"
    and "p = StopLock \<Longrightarrow> ss_exclusive g = None \<and> ss_shared g = {}"
  shows "stop_step True t p g \<noteq> None"
  using assms by (cases p) (auto simp: globals_ok_def notifier_wait_def)

lemma enabled_thread:
  assumes inv: "server_threads_inv n s" and no: "AcceptTask \<notin> fst ` set (st_threads s)" and left: "all_turns_left s \<noteq> 0"
  shows "\<exists>t k p. t < length (st_threads s) \<and> st_threads s ! t = (k, p) \<and>
    server_task_step (list_all worker_idle (st_threads s)) t k p (st_shared s) \<noteq> None"
proof -
  let ?g = "st_shared s" and ?ths = "st_threads s"
  have glob: "globals_ok n (length ?ths) ?g" and fine: "threads_fine ?g ?ths"
    using inv by (auto simp: server_threads_inv_def)
  have at: "thread_fine ?g t (k, p)" "t \<in> ss_shared ?g \<longleftrightarrow> holds_shared p" "ss_exclusive ?g = Some t \<longleftrightarrow> holds_alone p"
    "k \<noteq> AcceptTask" if "t < length ?ths" "?ths ! t = (k, p)" for t k p
    using fine no that by (auto simp: threads_fine_def) (metis fst_conv image_eqI nth_mem)
  show ?thesis
  proof (cases "\<exists>t c p. t < length ?ths \<and> ?ths ! t = (CloseTask c, p) \<and> p \<noteq> Finished")
    case True
    then obtain t c p where t: "t < length ?ths" "?ths ! t = (CloseTask c, p)" "p \<noteq> Finished" by blast
    with close_enabled [OF at(1) [OF t(1,2)] t(3)] show ?thesis by auto
  next
    case False
    have "worker_idle (?ths ! t)" if "t < length ?ths" for t
      using False that at(4) [of t] by (cases "?ths ! t" rule: worker_idle.cases) auto
    then have idle: "list_all worker_idle ?ths" by (simp add: list_all_length)
    have stops: "\<exists>p. ?ths ! t = (StopTask, p)" if "t < length ?ths" "snd (?ths ! t) \<noteq> Finished" for t
      using False that at(4) [of t] by (cases "fst (?ths ! t)"; cases "?ths ! t") auto
    have "t \<notin> ss_shared ?g" for t
    proof
      assume "t \<in> ss_shared ?g"
      moreover from this have "t < length ?ths" using glob by (auto simp: globals_ok_def)
      ultimately have "holds_shared (snd (?ths ! t))" "thread_fine ?g t (?ths ! t)" "snd (?ths ! t) \<noteq> Finished"
        using fine by (auto simp: threads_fine_def holds_shared_def)
      with stops [OF \<open>t < length ?ths\<close>] show False by (auto simp: holds_shared_def)
    qed
    then have shared: "ss_shared ?g = {}" by blast
    obtain v where v: "v < length ?ths" "turns_left (snd (?ths ! v)) \<noteq> 0"
      using left by (auto simp: all_turns_left_def in_set_conv_nth)
    then have "snd (?ths ! v) \<noteq> Finished" by auto
    obtain t where t: "t < length ?ths" "snd (?ths ! t) \<noteq> Finished" "snd (?ths ! t) = StopLock \<longrightarrow> ss_exclusive ?g = None"
    proof (cases "ss_exclusive ?g")
      case None
      then show ?thesis using that v(1) \<open>snd (?ths ! v) \<noteq> Finished\<close> by blast
    next
      case (Some t)
      then have "t < length ?ths" using glob by (simp add: globals_ok_def)
      moreover from this have "holds_alone (snd (?ths ! t))" using fine Some unfolding threads_fine_def by blast
      ultimately show ?thesis using that [of t] by (auto simp: holds_alone_def)
    qed
    obtain p where p: "?ths ! t = (StopTask, p)" using stops [OF t(1,2)] by blast
    have "stop_step True t p ?g \<noteq> None"
      by (rule stop_enabled [OF at(1) [OF t(1) p] _ glob]) (use t p shared in auto)
    then show ?thesis using t(1) p idle by fastforce
  qed
qed

lemma some_server_turn:
  assumes "server_threads_inv n s" "server_room n s" "AcceptTask \<notin> fst ` set (st_threads s)" "all_turns_left s \<noteq> 0"
  shows "\<exists>t s'. server_turn (Run t) s = Inr s' \<and> all_turns_left s' < all_turns_left s"
proof -
  obtain t k p r where t: "t < length (st_threads s)" "st_threads s ! t = (k, p)"
    "server_task_step (list_all worker_idle (st_threads s)) t k p (st_shared s) = Some r"
    using enabled_thread [OF assms(1,3,4)] by blast
  obtain s1 where s1: "server_turn (Run t) s = Inr s1"
    using server_turn_keeps [OF assms(1,2), of "Run t"] assms(3) by blast
  obtain p' g' where new: "r = Inr (p', g')" "s1 = \<lparr>st_shared = g', st_threads = (st_threads s)[t := (k, p')]\<rparr>"
    using s1 t by (auto simp: server_thread_step_def)
  have "all_turns_left s1 + turns_left p = all_turns_left s + turns_left p'"
    using t(1,2) elem_le_sum_list [of t "map (turns_left \<circ> snd) (st_threads s)"]
    by (simp add: all_turns_left_def new(2) map_update sum_list_update)
  then have "all_turns_left s1 < all_turns_left s" using turns_shrink t(3) new(1) by fastforce
  then show ?thesis using s1 by blast
qed

definition closes_inv :: "nat \<Rightarrow> server_threads \<Rightarrow> bool" where
  "closes_inv n s \<longleftrightarrow> server_threads_inv n s \<and> server_room n s \<and> AcceptTask \<notin> fst ` set (st_threads s)"

interpretation closers: interleaved "\<lambda>t. server_turn (Run t)" "closes_inv n" all_turns_left for n
proof
  fix s t
  assume s: "closes_inv n s"
  then obtain s' where s': "server_turn (Run t) s = Inr s'" "server_threads_inv n s'" "map fst (st_threads s') = map fst (st_threads s)"
    using server_turn_keeps [of n s "Run t"] unfolding closes_inv_def by blast
  moreover have "fst ` set (st_threads s') = fst ` set (st_threads s)" using s'(3) by (metis list.set_map)
  ultimately show "\<exists>s'. server_turn (Run t) s = Inr s' \<and> closes_inv n s'"
    using s server_room_tasks [OF s'(3)] by (auto simp: closes_inv_def)
qed (use some_server_turn in \<open>auto simp: closes_inv_def\<close>)

lemma server_can_finish:
  assumes "closes_inv n s"
  shows "\<exists>ts s'. server_turns (map Run ts) s = Inr s' \<and> all_turns_left s' = 0"
  using closers.can_finish [OF assms] by (simp add: server_turns_def fold_outcome_map)

text \<open>
  C8. Threads that accept connections, close connections and call \<open>Stop\<close>, in any number and interleaved at any of their statements, on a
  server with \<open>n\<close> channels. The only fault is the use of something \<open>Stop\<close> has deleted, by a handler of an accept. Otherwise the notifier
  always counts the channels of the table, plus one until a \<open>Stop\<close> has emptied it, whether the closes are heard of by the server or overtaken by
  \<open>Stop\<close>; after that the table stays empty and \<open>Stop\<close> never sleeps in \<open>Wait\<close>. And when no accept comes in between, every
  thread can finish without a time-out: \<open>Stop\<close> returns.
\<close>

theorem stop_among_closes:
  assumes "int n + int (length tasks) + 1 < INT_MAX"
  shows "server_turns es (server_start n tasks) = Inl UseAfterFree \<and> AcceptTask \<in> set tasks \<or>
    (\<exists>s. server_turns es (server_start n tasks) = Inr s \<and> map fst (st_threads s) = tasks \<and> distinct (ss_table (st_shared s)) \<and>
      n_count (ss_notifier (st_shared s)) = int (length (ss_table (st_shared s))) + of_bool (\<not> ss_drained (st_shared s)) \<and>
      (ss_drained (st_shared s) \<longrightarrow> ss_table (st_shared s) = [] \<and> notifier_wait False (ss_notifier (st_shared s))) \<and>
      (AcceptTask \<notin> set tasks \<longrightarrow> (\<exists>ts s'. server_turns (map Run ts) s = Inr s' \<and> all_turns_left s' = 0)))"
proof -
  have room: "server_room n (server_start n tasks)" using assms by (simp add: server_room_def server_start_def)
  have tasks: "map fst (st_threads (server_start n tasks)) = tasks" by (simp add: server_start_def o_def)
  then have "fst ` set (st_threads (server_start n tasks)) = set tasks" by (metis list.set_map)
  with server_turns_keep [OF server_start_inv room, of es] show ?thesis
  proof (elim disjE exE conjE)
    fix s
    assume s: "server_turns es (server_start n tasks) = Inr s" "server_threads_inv n s"
      "map fst (st_threads s) = map fst (st_threads (server_start n tasks))"
    then have "fst ` set (st_threads s) = set tasks" using tasks by (metis list.set_map)
    then have "AcceptTask \<notin> set tasks \<longrightarrow> (\<exists>ts s'. server_turns (map Run ts) s = Inr s' \<and> all_turns_left s' = 0)"
      using server_can_finish [of n s] s(2) server_room_tasks [OF s(3)] room by (simp add: closes_inv_def)
    moreover have "globals_ok n (length (st_threads s)) (st_shared s)" using s(2) by (simp add: server_threads_inv_def)
    ultimately show ?thesis
      using s(1,3) tasks by (intro disjI2 exI [of _ s]) (simp add: globals_ok_def notifier_wait_def)
  qed simp
qed

text \<open>Two channels close while \<open>Stop\<close> drains the table: one before, one overtaken.\<close>

lemma stop_among_closes_witness:
  "\<exists>s. server_turns (map Run [0, 0, 1, 0, 2, 2, 2, 1, 1]) (server_start 2 [CloseTask (Before 0), CloseTask (Before 1), StopTask]) = Inr s \<and>
     n_count (ss_notifier (st_shared s)) = 0 \<and> ss_table (st_shared s) = [] \<and>
     (\<exists>ts s'. server_turns (map Run ts) s = Inr s' \<and> all_turns_left s' = 0)"
proof -
  let ?tasks = "[CloseTask (Before 0), CloseTask (Before 1), StopTask]"
  let ?es = "map Run [0, 0, 1, 0, 2, 2, 2, 1, 1]"
  have "int 2 + int (length ?tasks) + 1 < INT_MAX" by (simp add: INT_MAX_def)
  from stop_among_closes [OF this, of ?es] obtain s where s: "server_turns ?es (server_start 2 ?tasks) = Inr s"
    "n_count (ss_notifier (st_shared s)) = int (length (ss_table (st_shared s))) + of_bool (\<not> ss_drained (st_shared s))"
    "ss_drained (st_shared s) \<longrightarrow> ss_table (st_shared s) = []"
    "\<exists>ts s'. server_turns (map Run ts) s = Inr s' \<and> all_turns_left s' = 0"
    by auto
  have "map_sum id (\<lambda>s. ss_drained (st_shared s)) (server_turns ?es (server_start 2 ?tasks)) = Inr True" by code_simp
  then show ?thesis using s by auto
qed

section \<open>An accept against Stop\<close>

definition stop_holds :: "server_place \<Rightarrow> bool" where
  "stop_holds p \<longleftrightarrow> p \<in> {StopDrain, StopWait, StopRelease, StopJoin}"

definition blocked_pair :: "nat \<Rightarrow> nat \<Rightarrow> server_threads \<Rightarrow> bool" where
  "blocked_pair t u s \<longleftrightarrow> t < length (st_threads s) \<and> u < length (st_threads s) \<and> st_threads s ! t = (AcceptTask, AcceptLock) \<and>
     fst (st_threads s ! u) = StopTask \<and> stop_holds (snd (st_threads s ! u))"

lemma blocked_pair_turn:
  assumes inv: "server_threads_inv n s" and b: "blocked_pair t u s" and step: "server_turn (Run v) s = Inr s'"
  shows "blocked_pair t u s'"
proof -
  obtain p where p: "st_threads s ! u = (StopTask, p)" "stop_holds p"
    using b by (cases "st_threads s ! u") (auto simp: blocked_pair_def)
  have tu: "t < length (st_threads s)" "u < length (st_threads s)" "st_threads s ! t = (AcceptTask, AcceptLock)"
    using b by (auto simp: blocked_pair_def)
  have alone: "ss_exclusive (st_shared s) = Some u"
    using inv tu(2) p by (auto simp: server_threads_inv_def threads_fine_def stop_holds_def holds_alone_def)
  have busy: "\<not> list_all worker_idle (st_threads s)" using tu(1,3) by (auto simp: list_all_length)
  consider "v = t" | "v = u" | "v \<noteq> t" "v \<noteq> u" by blast
  then show ?thesis
  proof cases
    case 1
    then have "s' = s" using step tu(1,3) alone by (simp add: server_thread_step_def)
    then show ?thesis using b by simp
  next
    case 2
    then show ?thesis
      using step tu p busy b by (cases p) (auto simp: server_thread_step_def stop_holds_def blocked_pair_def nth_list_update split: if_splits)
  next
    case 3
    then have "length (st_threads s') = length (st_threads s)" "st_threads s' ! t = st_threads s ! t" "st_threads s' ! u = st_threads s ! u"
      using step by (auto simp: server_thread_step_def split: if_splits prod.splits option.splits)
    then show ?thesis using b by (simp add: blocked_pair_def)
  qed
qed

text \<open>
  C32. An accept that is handled while \<open>Stop\<close> holds its mutex blocks both: the handler waits for the mutex, \<open>Stop\<close> joins the worker that runs
  the handler. However the threads go on, neither moves past this until the join times out.
\<close>

theorem accept_blocks_stop:
  assumes start: "server_turns es (server_start n tasks) = Inr s" and n: "int n + int (length tasks) + 1 < INT_MAX"
    and b: "blocked_pair t u s"
  shows "server_turns (map Run ts) s = Inl UseAfterFree \<or> (\<exists>s'. server_turns (map Run ts) s = Inr s' \<and> blocked_pair t u s')"
proof -
  have room0: "server_room n (server_start n tasks)" using n by (simp add: server_room_def server_start_def)
  have inv: "server_threads_inv n s" and same: "map fst (st_threads s) = map fst (st_threads (server_start n tasks))"
    using server_turns_keep [OF server_start_inv room0, of es] start by auto
  have "server_room n s" using room0 server_room_tasks [OF same] by simp
  with inv b show ?thesis
  proof (induction ts arbitrary: s)
    case Nil
    then show ?case by (simp add: server_turns_def)
  next
    case (Cons v ts)
    from server_turn_keeps [OF Cons.prems(1,3), of "Run v"] show ?case
    proof (elim disjE exE conjE)
      fix s1
      assume s1: "server_turn (Run v) s = Inr s1" "server_threads_inv n s1" "map fst (st_threads s1) = map fst (st_threads s)"
      then show ?thesis
        using Cons.IH [OF s1(2) blocked_pair_turn [OF Cons.prems(1,2) s1(1)]] server_room_tasks [OF s1(3)] Cons.prems(3)
        by (simp add: server_turns_def)
    qed (simp add: server_turns_def)
  qed
qed

text \<open>
  The accept is completed, \<open>Stop\<close> goes as far as the join: nothing moves; then the join times out, \<open>Stop\<close> destroys the services, and the
  handler deletes a socket of a destroyed service.
\<close>

lemma accept_blocks_stop_witness:
  "(\<exists>s. server_turns (map Run [0, 1, 1, 1, 1, 1]) (server_start 2 [AcceptTask, StopTask]) = Inr s \<and> blocked_pair 0 1 s \<and>
     (\<exists>s'. server_turns (map Run [1, 0, 1, 0]) s = Inr s' \<and> blocked_pair 0 1 s') \<and>
     server_turns [JoinTimedOut 1, Run 1, Run 0, Run 0] s = Inl UseAfterFree)"
proof -
  let ?s0 = "server_start 2 [AcceptTask, StopTask]"
  obtain s where s: "server_turns (map Run [0, 1, 1, 1, 1, 1]) ?s0 = Inr s"
    "st_threads s = [(AcceptTask, AcceptLock), (StopTask, StopJoin)]" "ss_exclusive (st_shared s) = Some 1" "ss_shared (st_shared s) = {}"
    by (simp add: server_turns_def server_thread_step_def server_start_def notifier_new_def notifier_dec_def int_range_defs
        Let_def upt_rec numeral_2_eq_2 notifier_wait_def)
  have b: "blocked_pair 0 1 s" using s(2) by (simp add: blocked_pair_def stop_holds_def)
  have "int 2 + int (length [AcceptTask, StopTask]) + 1 < INT_MAX" by (simp add: INT_MAX_def)
  from accept_blocks_stop [OF s(1) this b, of "[1, 0, 1, 0]"]
  have "server_turns (map Run [1, 0, 1, 0]) s = Inl UseAfterFree \<or>
      (\<exists>s'. server_turns (map Run [1, 0, 1, 0]) s = Inr s' \<and> blocked_pair 0 1 s')" .
  moreover have "server_turns (map Run [1, 0, 1, 0]) s = Inr s"
    using s(2,3) by (simp add: server_turns_def server_thread_step_def)
  moreover have "server_turns [JoinTimedOut 1, Run 1, Run 0, Run 0] s = Inl UseAfterFree"
    using s(2-4) by (simp add: server_turns_def server_thread_step_def)
  ultimately show ?thesis using s(1) b by auto
qed

text \<open>The handler of an accept that has not started when \<open>Stop\<close> releases the acceptor uses it afterwards.\<close>

theorem accept_uses_released_acceptor:
  "server_turns (map Run [1, 1, 1, 1, 1, 0]) (server_start 2 [AcceptTask, StopTask]) = Inl UseAfterFree"
  by code_simp

end
