(* ===== verification/Heartbeat.thy ===== *)
theory Heartbeat
  imports Server
begin

text \<open>
  The heartbeats of the connections as the timer wheel drives them: \<open>TimerMaster\<close>
  (\<open>src/core/TimerMaster.cpp\<close>) expires a connection (\<open>Connection::Expired\<close> of
  \<open>src/core/network/Connection.hpp\<close>) every \<open>kTimeoutSec\<close> jiffies until the raw connection gives
  up on its silent peer (\<open>RawConnection::Heartbeat\<close>).
\<close>

section \<open>Expiring many connections\<close>

lemma conn_timers_simps [simp]:
  "api_alive (conn_timers env sent) k (Inl e) = False" "api_alive (conn_timers env sent) k (Inr H) = (H k \<noteq> None)"
  "api_timeout (conn_timers env sent) k W = kTimeoutSec"
  "api_period (conn_timers env sent) k (Inl e) = False"
  "api_period (conn_timers env sent) k (Inr H) = (case H k of None \<Rightarrow> False | Some c \<Rightarrow> conn_period c)"
  "api_expired (conn_timers env sent) k (Inl e) = Inl e"
  "api_expired (conn_timers env sent) k (Inr H) = (case H k of None \<Rightarrow> Inr H
     | Some c \<Rightarrow> bind_outcome (conn_expired env (sent k) c) (\<lambda>c'. Inr (H(k \<mapsto> c'))))"
  by (simp_all add: conn_timers_def conn_timeout_def split: sum.splits option.splits)



lemma conn_timers_fit: "kTimeoutSec + j \<le> INT_MAX \<Longrightarrow> timeouts_fit (conn_timers env sent) j"
  by (simp add: timeouts_fit_def) (simp add: kTimeoutSec_def)

lemma expire_all_simps [simp]:
  "expire_all api [] W = W" "expire_all api (x # ts) W = expire_all api ts (api_expired api (weak_timer x) W)"
  "expire_all api (ts @ us) W = expire_all api us (expire_all api ts W)"
  by (simp_all add: expire_all_def)

lemma expire_after_fault [simp]: "expire_all (conn_timers env sent) ts (Inl e) = Inl e"
  by (induction ts) simp_all

text \<open>The expiry of other connections does not touch connection \<open>k\<close>; a fault in one of them ends the process.\<close>

lemma expire_others:
  assumes "\<forall>x \<in> set ts. weak_timer x \<noteq> k"
  shows "case expire_all (conn_timers env sent) ts (Inr H) of
      Inl e \<Rightarrow> \<exists>k'. k' \<noteq> k \<and> k' \<in> dom H
    | Inr H' \<Rightarrow> dom H' = dom H \<and> H' k = H k"
  using assms
proof (induction ts arbitrary: H)
  case (Cons x ts)
  show ?case
  proof (cases "H (weak_timer x)")
    case None
    with Cons show ?thesis by simp
  next
    case (Some c)
    show ?thesis
    proof (cases "conn_expired env (sent (weak_timer x)) c")
      case (Inl e)
      with Some Cons.prems show ?thesis by auto
    next
      case (Inr c')
      let ?H = "H(weak_timer x \<mapsto> c')"
      have "dom ?H = dom H" "?H k = H k" using Some Cons.prems by auto
      moreover have "case expire_all (conn_timers env sent) ts (Inr ?H) of
          Inl e \<Rightarrow> \<exists>k'. k' \<noteq> k \<and> k' \<in> dom ?H
        | Inr H' \<Rightarrow> dom H' = dom ?H \<and> H' k = ?H k"
        using Cons by simp
      ultimately have "case expire_all (conn_timers env sent) ts (Inr ?H) of
          Inl e \<Rightarrow> \<exists>k'. k' \<noteq> k \<and> k' \<in> dom H | Inr H' \<Rightarrow> dom H' = dom H \<and> H' k = H k"
        by (simp only:)
      with Some Inr show ?thesis by simp
    qed
  qed
qed simp

lemma expire_one:
  assumes "filter (\<lambda>x. weak_timer x = k) ts = [x]" and "H k = Some c" and "conn_expired env (sent k) c = Inr c'"
  shows "case expire_all (conn_timers env sent) ts (Inr H) of
      Inl e \<Rightarrow> \<exists>k'. k' \<noteq> k \<and> k' \<in> dom H
    | Inr H' \<Rightarrow> dom H' = dom H \<and> H' k = Some c'"
proof -
  obtain us vs where ts: "ts = us @ x # vs" "\<forall>u \<in> set us. weak_timer u \<noteq> k" "weak_timer x = k"
    "\<forall>u \<in> set vs. weak_timer u \<noteq> k"
    using assms(1) unfolding filter_eq_Cons_iff by (metis (mono_tags, lifting) filter_empty_conv)
  show ?thesis
  proof (cases "expire_all (conn_timers env sent) us (Inr H)")
    case (Inl e)
    with expire_others [OF ts(2), where env = env and sent = sent and H = H] ts(1) show ?thesis by simp
  next
    case (Inr H1)
    with expire_others [OF ts(2), where env = env and sent = sent and H = H] have 1: "dom H1 = dom H" "H1 k = Some c" using assms(2) by simp_all
    from expire_others [OF ts(4), where env = env and sent = sent and H = "H1(k \<mapsto> c')"] Inr 1 assms(3) ts(1,3)
    show ?thesis by (auto split: sum.splits)
  qed
qed

lemma rearmed_of:
  "filter (\<lambda>x. weak_timer x = k) (rearmed api W n ts) = rearmed api W n (filter (\<lambda>x. weak_timer x = k) ts)"
  by (induction ts) (simp_all add: rearmed_def)


section \<open>One silent peer among other connections\<close>

text \<open>
  What holds of connection \<open>k\<close>, registered at jiffy \<open>b\<close> with both package counters at \<open>m\<close>, while its
  peer is silent: after \<open>i\<close> heartbeats the next is due at \<open>b + 30 (i + 1)\<close>, and after the third
  the connection is closed and no longer in the wheel.
\<close>

definition slot_at :: "nat \<Rightarrow> int \<Rightarrow> nat \<Rightarrow> nat timer_slot" where
  "slot_at k b i = \<lparr>weak_timer = k, jiffies = b + kTimeoutSec * (int i + 1)\<rparr>"

definition silence ::
  "'b buffer_api \<Rightarrow> ('z \<Rightarrow> bool) \<Rightarrow> nat \<Rightarrow> int \<Rightarrow> int \<Rightarrow> ('b, 'z, 'w) conn \<Rightarrow> int \<Rightarrow> nat timer_slot multiset \<Rightarrow> bool" where
  "silence A M k b m c n Q \<longleftrightarrow>
     (\<exists>i < 3. conn_ok A M 0 1 1 c \<and> counters c = Some (m + int i, m) \<and> Q = {#slot_at k b i#} \<and>
        n \<le> b + kTimeoutSec * (int i + 1) \<and> (i = 0 \<or> b + kTimeoutSec * int i < n)) \<or>
     (conn_closing c \<and> Q = {#} \<and> b + kTimeoutSec * 3 < n)"

definition silence_inv ::
  "'b buffer_api \<Rightarrow> ('z \<Rightarrow> bool) \<Rightarrow> nat \<Rightarrow> int \<Rightarrow> int \<Rightarrow> nat set
     \<Rightarrow> (nat \<Rightarrow> ('b, 'z, 'w) conn option) outcome \<times> int \<times> nat timer_slot multiset \<Rightarrow> bool" where
  "silence_inv A M k b m D = (\<lambda>(W, n, P).
     case W of Inl e \<Rightarrow> \<exists>k' \<in> D. k' \<noteq> k
     | Inr H \<Rightarrow> dom H = D \<and> (\<exists>c. H k = Some c \<and> silence A M k b m c n {#x \<in># P. weak_timer x = k#}))"

lemma beat_connected:
  assumes "conn_ok A M 0 1 1 c" and "counters c = Some (m + int i, m)" and "0 \<le> m" and "m + 3 \<le> INT_MAX" and "i < 3"
  shows "\<exists>c'. conn_expired env True c = Inr c' \<and>
    (if i < 2 then conn_ok A M 0 1 1 c' \<and> counters c' = Some (m + int (Suc i), m) else conn_closing c')"
proof -
  have "in_i32 (m + int i + 1)" "0 \<le> m + int i" "m \<le> INT_MAX"
    using assms(3-5) by (simp_all add: int_range_defs)
  from beat_counters [OF assms(1,2) this(1,2) assms(3) this(3), of env] assms(5)
  show ?thesis by (auto simp: kHeartbeatUnsyncWindow_def algebra_simps)
qed

lemma is_connected_ok: "conn_ok A M j a b c \<Longrightarrow> conn_period c"
  by (auto simp: conn_ok_def conn_period_def is_connected_def is_idle_def is_reading_def IDLE_def)


lemma due_of:
  assumes "mset ts = {#x \<in># due n P. alive x#}"
  shows "mset (filter (\<lambda>x. weak_timer x = k) ts) = {#x \<in># {#x \<in># P. weak_timer x = k#}. jiffies x = n \<and> alive x#}"
    and "{#x \<in># {#x \<in># P. jiffies x \<noteq> n#}. weak_timer x = k#} = {#x \<in># {#x \<in># P. weak_timer x = k#}. jiffies x \<noteq> n#}"
  by (simp_all add: assms due_def filter_filter_mset conj_ac)

lemma slot_of_due:
  assumes "mset ts = {#x \<in># due n P. alive x#}" and "{#x \<in># P. weak_timer x = k#} = {#slot#}" and "alive slot"
  shows "if jiffies slot = n
    then filter (\<lambda>x. weak_timer x = k) ts = [slot] \<and> {#x \<in># {#x \<in># P. jiffies x \<noteq> n#}. weak_timer x = k#} = {#}
    else filter (\<lambda>x. weak_timer x = k) ts = [] \<and> {#x \<in># {#x \<in># P. jiffies x \<noteq> n#}. weak_timer x = k#} = {#slot#}"
proof -
  define F where "F = filter (\<lambda>x. weak_timer x = k) ts"
  have "mset F = {#x \<in># {#slot#}. jiffies x = n \<and> alive x#}"
    "{#x \<in># {#x \<in># P. jiffies x \<noteq> n#}. weak_timer x = k#} = {#x \<in># {#slot#}. jiffies x \<noteq> n#}"
    unfolding F_def due_of [OF assms(1)] assms(2) by (rule refl)+
  then show ?thesis unfolding F_def [symmetric] using assms(3) by (cases "jiffies slot = n") simp_all
qed

lemma slot_gone:
  assumes "mset ts = {#x \<in># due n P. alive x#}" and "{#x \<in># P. weak_timer x = k#} = {#}"
  shows "filter (\<lambda>x. weak_timer x = k) ts = [] \<and> {#x \<in># {#x \<in># P. jiffies x \<noteq> n#}. weak_timer x = k#} = {#}"
  using due_of [OF assms(1), of k] unfolding assms(2) by (simp del: mset_filter)

lemma no_slot: "filter (\<lambda>x. weak_timer x = k) ts = [] \<Longrightarrow> \<forall>x \<in> set ts. weak_timer x \<noteq> k"
  by (simp add: filter_empty_conv)

lemma silence_tick:
  assumes I: "silence_inv A M k b m D c" and tick: "agenda_tick (conn_timers env sent) c c'"
    and "sent k" and m: "0 \<le> m" "m + 3 \<le> INT_MAX" and A: "A = e_buf env"
  shows "silence_inv A M k b m D c'"
proof -
  let ?api = "conn_timers env sent"
  obtain W n P where c: "c = (W, n, P)" by (cases c) auto
  obtain ts where ts: "mset ts = {#x \<in># due n P. api_alive ?api (weak_timer x) W#}"
    and c': "c' = (expire_all ?api ts W, n + 1, {#x \<in># P. jiffies x \<noteq> n#} + mset (rearmed ?api (expire_all ?api ts W) n ts))"
    using tick unfolding c by (auto elim!: agenda_tickE)
  let ?W' = "expire_all ?api ts W" and ?rest = "{#x \<in># {#x \<in># P. jiffies x \<noteq> n#}. weak_timer x = k#}"
  have Q: "{#x \<in># {#x \<in># P. jiffies x \<noteq> n#} + mset (rearmed ?api ?W' n ts). weak_timer x = k#} =
      ?rest + mset (rearmed ?api ?W' n (filter (\<lambda>x. weak_timer x = k) ts))"
    by (simp add: rearmed_of [symmetric])
  show ?thesis
  proof (cases W)
    case (Inl e)
    with I show ?thesis by (simp add: c c' silence_inv_def)
  next
    case (Inr H)
    then obtain conn where H: "dom H = D" "H k = Some conn" "silence A M k b m conn n {#x \<in># P. weak_timer x = k#}"
      using I by (auto simp: c silence_inv_def)
    have step: ?thesis
      if "case ?W' of Inl e \<Rightarrow> \<exists>k'. k' \<noteq> k \<and> k' \<in> dom H | Inr H' \<Rightarrow> dom H' = dom H \<and> H' k = Some conn'"
        and "\<And>H'. ?W' = Inr H' \<Longrightarrow> H' k = Some conn' \<Longrightarrow>
          silence A M k b m conn' (n + 1) (?rest + mset (rearmed ?api ?W' n (filter (\<lambda>x. weak_timer x = k) ts)))" for conn'
      using that unfolding c' silence_inv_def case_prod_conv Q
      by (cases ?W') (use H(1) in auto)
    from H(3) consider (gone) "conn_closing conn" "{#x \<in># P. weak_timer x = k#} = {#}" "b + kTimeoutSec * 3 < n"
      | (beat) i where "i < 3" "conn_ok A M 0 1 1 conn" "counters conn = Some (m + int i, m)"
        "{#x \<in># P. weak_timer x = k#} = {#slot_at k b i#}" "n \<le> b + kTimeoutSec * (int i + 1)"
        "i = 0 \<or> b + kTimeoutSec * int i < n"
      unfolding silence_def by blast
    then show ?thesis
    proof cases
      case gone
      note no = slot_gone [OF ts gone(2)]
      show ?thesis
        by (rule step [where conn' = conn])
          (use expire_others [OF no_slot [OF conjunct1 [OF no]], where env = env and sent = sent and H = H] no gone(1,3) H(2) Inr in \<open>auto simp: silence_def rearmed_def split: sum.splits\<close>)
    next
      case beat
      have alive: "api_alive ?api (weak_timer (slot_at k b i)) W" using Inr H(2) by (simp add: slot_at_def)
      note sl = slot_of_due [OF ts beat(4) alive]
      show ?thesis
      proof (cases "jiffies (slot_at k b i) = n")
        case False
        then have later: "n + 1 \<le> b + kTimeoutSec * (int i + 1)" using beat(5) by (simp add: slot_at_def)
        from sl False have no: "filter (\<lambda>x. weak_timer x = k) ts = []" "?rest = {#slot_at k b i#}" by simp_all
        show ?thesis
        proof (rule step [where conn' = conn])
          show "case ?W' of Inl e \<Rightarrow> \<exists>k'. k' \<noteq> k \<and> k' \<in> dom H | Inr H' \<Rightarrow> dom H' = dom H \<and> H' k = Some conn"
            using expire_others [OF no_slot [OF no(1)], where env = env and sent = sent and H = H] H(2) Inr
            by (auto split: sum.splits)
          show "silence A M k b m conn (n + 1) (?rest + mset (rearmed ?api ?W' n (filter (\<lambda>x. weak_timer x = k) ts)))"
            unfolding no silence_def using beat(1-3,6) later by (intro disjI1 exI [of _ i]) (auto simp: rearmed_def)
        qed
      next
        case True
        from sl True have no: "filter (\<lambda>x. weak_timer x = k) ts = [slot_at k b i]" "?rest = {#}" by simp_all
        have n: "n = b + kTimeoutSec * (int i + 1)" using True by (simp add: slot_at_def)
        obtain conn' where conn': "conn_expired env True conn = Inr conn'"
          "if i < 2 then conn_ok A M 0 1 1 conn' \<and> counters conn' = Some (m + int (Suc i), m) else conn_closing conn'"
          using beat_connected [OF beat(2,3) m beat(1), of env] by blast
        have sent: "conn_expired env (sent k) conn = Inr conn'" using conn'(1) assms(3) by simp
        show ?thesis
        proof (rule step [where conn' = conn'])
          show "case ?W' of Inl e \<Rightarrow> \<exists>k'. k' \<noteq> k \<and> k' \<in> dom H | Inr H' \<Rightarrow> dom H' = dom H \<and> H' k = Some conn'"
            using expire_one [where env = env and sent = sent and k = k and H = H, OF no(1) H(2) sent] Inr by simp
          fix H' assume H': "?W' = Inr H'" "H' k = Some conn'"
          show "silence A M k b m conn' (n + 1) (?rest + mset (rearmed ?api ?W' n (filter (\<lambda>x. weak_timer x = k) ts)))"
          proof (cases "i < 2")
            case True
            then have ok: "conn_ok A M 0 1 1 conn'" "counters conn' = Some (m + int (Suc i), m)" using conn'(2) by simp_all
            have "rearmed ?api ?W' n [slot_at k b i] = [slot_at k b (Suc i)]"
              using H' is_connected_ok [OF ok(1)] by (simp add: rearmed_def slot_at_def n algebra_simps)
            then show ?thesis unfolding no silence_def using True ok n
              by (intro disjI1 exI [of _ "Suc i"]) (auto simp: algebra_simps kTimeoutSec_def)
          next
            case False
            then have i: "i = 2" "conn_closing conn'" using beat(1) conn'(2) by simp_all
            then have "rearmed ?api ?W' n [slot_at k b i] = []"
              using H' by (simp add: rearmed_def slot_at_def conn_period_def is_connected_def)
            then show ?thesis unfolding no silence_def using i n by simp
          qed
        qed
      qed
    qed
  qed
qed


lemma silence_at:
  assumes "silence A M k b m c (j + 1) Q" and "b \<le> j"
  shows "if j < b + kTimeoutSec * 3
    then conn_ok A M 0 1 1 c \<and> counters c = Some (m + (j - b) div kTimeoutSec, m) else conn_closing c"
proof -
  from assms(1) consider (closed) "conn_closing c" "b + kTimeoutSec * 3 < j + 1"
    | (beat) i where "i < 3" "conn_ok A M 0 1 1 c" "counters c = Some (m + int i, m)"
      "j + 1 \<le> b + kTimeoutSec * (int i + 1)" "i = 0 \<or> b + kTimeoutSec * int i < j + 1"
    unfolding silence_def by blast
  then show ?thesis
  proof cases
    case beat
    have low: "b + kTimeoutSec * int i \<le> j" using beat(5) assms(2) by auto
    have "(j - b) div kTimeoutSec = int i"
      by (rule div_eqI [where r = "j - b - kTimeoutSec * int i"])
        (use beat(4) low in \<open>simp_all add: algebra_simps kTimeoutSec_def\<close>)
    moreover have "j < b + kTimeoutSec * 3" using beat(1,4) by (auto simp: kTimeoutSec_def less_Suc_eq numeral_eq_Suc)
    ultimately show ?thesis using beat by simp
  qed simp
qed

lemma silence_update:
  assumes "wheel_inv s" and "{#x \<in># pending s. weak_timer x = k#} = {#slot_at k (timer_jiffies s) 0#}"
    and "H k = Some c" and "conn_ok (e_buf env) M 0 1 1 c" and "counters c = Some (m, m)" and "0 \<le> m" and "m + 3 \<le> INT_MAX"
    and "sent k" and "timer_jiffies s \<le> j" and "kTimeoutSec + j \<le> INT_MAX"
  shows "\<exists>W s'. tm_update (conn_timers env sent) j (Inr H, s) = Inr (W, s') \<and>
    (case W of
       Inl e \<Rightarrow> \<exists>k'. k' \<noteq> k \<and> k' \<in> dom H
     | Inr H' \<Rightarrow> \<exists>c'. H' k = Some c' \<and>
         (if j < timer_jiffies s + kTimeoutSec * 3
          then conn_ok (e_buf env) M 0 1 1 c' \<and> counters c' = Some (m + (j - timer_jiffies s) div kTimeoutSec, m)
          else conn_closing c'))"
proof -
  let ?api = "conn_timers env sent" and ?b = "timer_jiffies s"
  have I: "silence_inv (e_buf env) M k ?b m (dom H) (Inr H, ?b, pending s)"
    using assms(2-5) by (auto simp: silence_inv_def silence_def kTimeoutSec_def intro!: exI [of _ "0::nat"])
  have tick: "\<And>c c'. silence_inv (e_buf env) M k ?b m (dom H) c \<Longrightarrow> agenda_tick ?api c c' \<Longrightarrow>
      silence_inv (e_buf env) M k ?b m (dom H) c'"
    by (rule silence_tick [where sent = sent and k = k and env = env]) (use assms(6-8) in simp_all)
  have "j < INT_MAX" using assms(10) by (simp add: kTimeoutSec_def)
  moreover have "agenda_view (Inr H, s) = (Inr H, ?b, pending s)" by (simp add: agenda_view_def)
  ultimately obtain W s' where r: "tm_update ?api j (Inr H, s) = Inr (W, s')"
    "silence_inv (e_buf env) M k ?b m (dom H) (agenda_view (W, s'))" "fst (snd (agenda_view (W, s'))) = j + 1"
    using wheel.advance_invariant [where I = "silence_inv (e_buf env) M k ?b m (dom H)" and api = ?api,
        OF assms(1) _ assms(9) _ conn_timers_fit [OF assms(10)] I] tick by blast
  then have "case W of Inl e \<Rightarrow> \<exists>k'. k' \<noteq> k \<and> k' \<in> dom H
     | Inr H' \<Rightarrow> \<exists>c'. H' k = Some c' \<and> silence (e_buf env) M k ?b m c' (j + 1) {#x \<in># pending s'. weak_timer x = k#}"
    by (cases W) (auto simp: silence_inv_def agenda_view_def)
  with r(1) show ?thesis
    by (cases W) (auto dest!: silence_at [OF _ assms(9)])
qed

lemma first_slot:
  assumes "\<forall>x \<in># P. weak_timer x \<noteq> k"
  shows "{#x \<in># add_mset \<lparr>weak_timer = k, jiffies = kTimeoutSec + b\<rparr> P. weak_timer x = k#} = {#slot_at k b 0#}"
proof -
  have "{#x \<in># P. weak_timer x = k#} = {#}" using assms by (auto simp: filter_mset_eq_conv)
  then show ?thesis by (simp add: slot_at_def algebra_simps)
qed

text \<open>
  C15. The timer wheel drops a silent peer on time: a connection registered at jiffy \<open>b\<close> whose peer
  sends no heartbeat is sent one every 30 jiffies, still works while the clock is before
  \<open>b + 90\<close>, and is closed by the \<open>Update\<close> that reaches jiffy \<open>b + 90\<close>, whatever other connections
  the wheel holds, unless one of those stops the process.
\<close>

theorem silent_peer_dropped_on_time:
  assumes "wheel_inv s" and "\<forall>x \<in># pending s. weak_timer x \<noteq> k" and "H k = Some c"
    and "conn_ok (e_buf env) M 0 1 1 c" and "counters c = Some (m, m)" and "0 \<le> m" and "m + 3 \<le> INT_MAX"
    and "sent k" and "timer_jiffies s \<le> j" and "kTimeoutSec + j \<le> INT_MAX"
  shows "\<exists>s1 W s2. tm_register (conn_timers env sent) k (Inr H) s = Inr s1 \<and>
    tm_update (conn_timers env sent) j (Inr H, s1) = Inr (W, s2) \<and>
    (case W of
       Inl e \<Rightarrow> \<exists>k'. k' \<noteq> k \<and> k' \<in> dom H
     | Inr H' \<Rightarrow> \<exists>c'. H' k = Some c' \<and>
         (if j < timer_jiffies s + kTimeoutSec * 3
          then conn_ok (e_buf env) M 0 1 1 c' \<and> counters c' = Some (m + (j - timer_jiffies s) div kTimeoutSec, m)
          else conn_closing c'))"
proof -
  have "kTimeoutSec + timer_jiffies s \<le> INT_MAX" "0 \<le> kTimeoutSec" using assms(9,10) by (simp_all add: kTimeoutSec_def)
  then obtain s1 where s1: "tm_register (conn_timers env sent) k (Inr H) s = Inr s1" "wheel_inv s1"
    "timer_jiffies s1 = timer_jiffies s"
    "pending s1 = add_mset \<lparr>weak_timer = k, jiffies = kTimeoutSec + timer_jiffies s\<rparr> (pending s)"
    using register_result [OF assms(1), of "conn_timers env sent" k "Inr H"] assms(3) by auto
  have "{#x \<in># pending s1. weak_timer x = k#} = {#slot_at k (timer_jiffies s1) 0#}"
    unfolding s1(3,4) by (rule first_slot [OF assms(2)])
  moreover have "timer_jiffies s1 \<le> j" using s1(3) assms(9) by simp
  ultimately show ?thesis
    using silence_update [where env = env and sent = sent and k = k and H = H, OF s1(2) _ assms(3-8) _ assms(10), unfolded s1(3)]
      s1(1,3) by auto
qed

theorem silent_peer_dropped_on_time_witness:
  "\<exists>s1 W s2. tm_register (conn_timers demo_env (\<lambda>_. True)) 0 (Inr [0 \<mapsto> demo_conn]) new_timer_master = Inr s1 \<and>
    tm_update (conn_timers demo_env (\<lambda>_. True)) 91 (Inr [0 \<mapsto> demo_conn], s1) = Inr (W, s2) \<and>
    (\<exists>H' c'. W = Inr H' \<and> H' 0 = Some c' \<and> conn_closing c')"
proof -
  have "counters demo_conn = Some (0, 0)" by (simp add: counters_def demo_conn_def raw_new_def)
  from silent_peer_dropped_on_time [where s = new_timer_master and k = 0 and H = "[0 \<mapsto> demo_conn]" and env = demo_env
      and m = 0 and sent = "\<lambda>_. True" and j = 91, unfolded demo_buf, OF wheel_inv_new _ _ demo_conn_ok this]
  obtain s1 W s2 where "tm_register (conn_timers demo_env (\<lambda>_. True)) 0 (Inr [0 \<mapsto> demo_conn]) new_timer_master = Inr s1"
    "tm_update (conn_timers demo_env (\<lambda>_. True)) 91 (Inr [0 \<mapsto> demo_conn], s1) = Inr (W, s2)"
    "case W of Inl e \<Rightarrow> \<exists>k'. k' \<noteq> (0::nat) \<and> k' \<in> dom [0 \<mapsto> demo_conn] | Inr H' \<Rightarrow> \<exists>c'. H' 0 = Some c' \<and>
       (if 91 < timer_jiffies (new_timer_master :: nat timer_master) + kTimeoutSec * 3
        then conn_ok string_buffers (\<lambda>_. True) 0 1 1 c' \<and>
          counters c' = Some (0 + (91 - timer_jiffies (new_timer_master :: nat timer_master)) div kTimeoutSec, 0) else conn_closing c')"
    by (auto simp: INT_MAX_def kTimeoutSec_def)
  then show ?thesis by (cases W) (auto simp: kTimeoutSec_def)
qed

end
