(* ===== verification/Client_Connection.thy ===== *)
theory Client_Connection
  imports Heartbeat
begin

text \<open>
  \<open>src/core/network/ClientConnection.hpp\<close> and \<open>ClientConnection.cpp\<close>: a \<open>ProtobufConnection\<close> with a
  pool of services and a timer master, its own or shared ones, that connects to a server.
\<close>

section \<open>State and operations\<close>

record ('b, 'w) client_connection =
  cl_conn :: "('b, 'w) pconn"
  cl_service :: method_table
  cl_pool :: io_pool
  cl_timers :: "nat timer_master"
  cl_server :: string
  cl_port :: string

definition kClientThreadPoolSize :: nat where "kClientThreadPoolSize = 1"

definition client_connection_new :: "string \<Rightarrow> string \<Rightarrow> string \<Rightarrow> int \<Rightarrow> 'w rpc_world \<Rightarrow> ('b, 'w) client_connection" where
  "client_connection_new name server port globalConnectionId w =
     \<lparr>cl_conn = conn_new (server @ ''.'' @ port @ ''.'' @ name) globalConnectionId w, cl_service = None,
      cl_pool = iop_new (name @ ''.IOService'') 1 kClientThreadPoolSize, cl_timers = new_timer_master,
      cl_server = server, cl_port = port\<rparr>"

definition set_io_service_pool :: "io_pool \<Rightarrow> ('b, 'w) client_connection \<Rightarrow> ('b, 'w) client_connection" where
  "set_io_service_pool p cl = cl\<lparr>cl_pool := p\<rparr>"

definition set_timer_master :: "nat timer_master \<Rightarrow> ('b, 'w) client_connection \<Rightarrow> ('b, 'w) client_connection" where
  "set_timer_master s cl = cl\<lparr>cl_timers := s\<rparr>"

text \<open>
  The loop over the endpoints, each given as the error of its \<open>connect\<close>: the last error.
\<close>

fun try_endpoints :: "bool \<Rightarrow> bool list \<Rightarrow> bool" where
  "try_endpoints error [] = error"
| "try_endpoints error (e # endpoints) = (if error then try_endpoints e endpoints else error)"

text \<open>
  \<open>Connect\<close>. \<open>resolve\<close> gives the endpoints of an address and port, or throws. The connection is
  at address \<open>k\<close>, \<open>H\<close> holds the other connections that share its timer master; the rest
  are the parameters of \<open>attach\<close>.
\<close>

definition connect ::
  "('b, 'w) rpc_env \<Rightarrow> (string \<Rightarrow> string \<Rightarrow> bool list option) \<Rightarrow> nat \<Rightarrow> (nat \<Rightarrow> ('b, 'w) pconn option)
     \<Rightarrow> nat \<Rightarrow> meta \<Rightarrow> int \<Rightarrow> int \<Rightarrow> ('b, 'w) client_connection \<Rightarrow> (bool \<times> ('b, 'w) client_connection) outcome" where
  "connect X resolve k H static_i m0 s0 r0 cl =
     (if is_connected (cl_conn cl) then Inr (True, cl)
      else
        bind_outcome (iop_start (cl_pool cl)) (\<lambda>pool.
        let timers = tm_start (cl_timers cl) in
        bind_outcome (iop_get pool) (\<lambda>(io_resolver, pool).
        case resolve (cl_server cl) (cl_port cl) of
          None \<Rightarrow> Inl SystemError
        | Some endpoints \<Rightarrow>
            bind_outcome (iop_get pool) (\<lambda>(io_socket, pool).
            if try_endpoints True endpoints then Inr (False, cl\<lparr>cl_pool := pool, cl_timers := timers\<rparr>)
            else
              bind_outcome (check CheckFailed (c_impl (cl_conn cl) = None)) (\<lambda>_.
              bind_outcome (attach X (cl_service cl) static_i m0 s0 r0 (cl_conn cl)) (\<lambda>(ok, c).
              bind_outcome (tm_register (conn_timers (rpc_conn_env X) (\<lambda>_. True)) k (Inr (H(k \<mapsto> c))) timers) (\<lambda>timers.
              Inr (True, cl\<lparr>cl_conn := c, cl_pool := pool, cl_timers := timers\<rparr>))))))))"

definition delete_client_connection :: "('b, 'w) rpc_env \<Rightarrow> ('b, 'w) client_connection \<Rightarrow> 'w rpc_world outcome" where
  "delete_client_connection X cl =
     bind_outcome (check CheckFailed (\<not> is_connected (cl_conn cl))) (\<lambda>_. delete_conn (rpc_conn_env X) (cl_conn cl))"

section \<open>The services of the pool\<close>

definition pool_ready :: "io_pool \<Rightarrow> bool" where
  "pool_ready p \<longleftrightarrow> 0 < io_num_threads p \<and> io_next p < io_num_services p \<and>
     (if io_work p = [] then io_services p = [] else length (io_services p) = io_num_services p)"

lemma pool_ready_start:
  assumes "pool_ready p"
  shows "\<exists>p'. iop_start p = Inr p' \<and> pool_ready p' \<and> iop_is_running p'"
proof (cases "io_work p = []")
  case True
  let ?p = "p\<lparr>io_services := [io_heap p..<io_heap p + io_num_services p], io_heap := io_heap p + io_num_services p, io_work := []\<rparr>"
  have "iop_queue 0 (io_services ?p) (io_num_threads p) \<noteq> []"
    using assms by (simp add: iop_queue_def pool_ready_def)
  with iop_assign_result [of 0 ?p "io_num_threads p"] True assms show ?thesis
    by (auto simp: iop_start_def Let_def pool_ready_def iop_is_running_def)
next
  case False
  with assms show ?thesis by (simp add: iop_start_def iop_is_running_def)
qed

lemma pool_ready_get:
  assumes "pool_ready p" and "iop_is_running p"
  shows "\<exists>i p'. iop_get p = Inr (i, p') \<and> pool_ready p' \<and> iop_is_running p'"
  using assms by (auto simp: iop_get_def pool_ready_def iop_is_running_def)

lemma tries_all: "try_endpoints error es \<longleftrightarrow> error \<and> False \<notin> set es"
  by (induction es arbitrary: error) auto


text \<open>Before the first successful \<open>Connect\<close>: the connection is new and the services and the timers can be used.\<close>

definition client_ready :: "nat \<Rightarrow> ('b, 'w) client_connection \<Rightarrow> bool" where
  "client_ready k cl \<longleftrightarrow> c_status (cl_conn cl) = status_new \<and> c_impl (cl_conn cl) = None \<and>
     c_reads (cl_conn cl) = 0 \<and> c_writes (cl_conn cl) = [] \<and> c_oobs (cl_conn cl) = 0 \<and> pool_ready (cl_pool cl) \<and>
     wheel_inv (tm_start (cl_timers cl)) \<and> (\<forall>x \<in># pending (cl_timers cl). weak_timer x \<noteq> k)"

lemma tm_start_simps [simp]: "pending (tm_start s) = pending s" "tm_start (tm_start s) = tm_start s" "\<not> mbStop (tm_start s)"
  by (simp_all add: tm_start_def pending_def)

lemma client_ready_new: "client_ready k (client_connection_new name server port gid w)"
proof -
  have "wheel_inv (tm_start (new_timer_master :: nat timer_master))"
    using wheel_inv_new [where 'a = nat] by (simp add: wheel_inv_def tm_start_def new_timer_master_def)
  then show ?thesis
    by (simp add: client_ready_def client_connection_new_def conn_new_def pool_ready_def iop_new_def
        kClientThreadPoolSize_def)
qed

lemma not_connected: "c_status c = status_new \<Longrightarrow> \<not> is_connected c"
  by (simp add: is_connected_def is_idle_def status_new_def IDLE_def)

lemma connect_result:
  assumes "codec_ok (x_codec X)" and "buffer_api_ok (x_buf X)" and "client_ready k cl"
    and "resolve (cl_server cl) (cl_port cl) = Some es"
    and "kTimeoutSec + timer_jiffies (tm_start (cl_timers cl)) \<le> INT_MAX"
  shows "\<exists>cl'. connect X resolve k H i m0 s0 r0 cl = Inr (False \<in> set es, cl') \<and> iop_is_running (cl_pool cl') \<and>
    tm_is_running (cl_timers cl') \<and> wheel_inv (cl_timers cl') \<and>
    timer_jiffies (cl_timers cl') = timer_jiffies (tm_start (cl_timers cl)) \<and> pool_ready (cl_pool cl') \<and>
    cl_server cl' = cl_server cl \<and> cl_port cl' = cl_port cl \<and>
    (if False \<in> set es
     then conn_ok (x_buf X) (rpc_ok X) 0 1 1 (cl_conn cl') \<and> counters (cl_conn cl') = Some (0, 0) \<and>
       is_connected (cl_conn cl') \<and>
       pending (cl_timers cl') = add_mset
         \<lparr>weak_timer = k, jiffies = kTimeoutSec + timer_jiffies (cl_timers cl')\<rparr> (pending (cl_timers cl))
     else cl_conn cl' = cl_conn cl \<and> client_ready k cl')"
proof -
  let ?t = "tm_start (cl_timers cl)"
  obtain p1 where p1: "iop_start (cl_pool cl) = Inr p1" "pool_ready p1" "iop_is_running p1"
    using pool_ready_start assms(3) by (auto simp: client_ready_def)
  obtain i1 p2 where p2: "iop_get p1 = Inr (i1, p2)" "pool_ready p2" "iop_is_running p2"
    using pool_ready_get [OF p1(2,3)] by blast
  obtain i2 p3 where p3: "iop_get p2 = Inr (i2, p3)" "pool_ready p3" "iop_is_running p3"
    using pool_ready_get [OF p2(2,3)] by blast
  have new: "c_status (cl_conn cl) = status_new" "c_impl (cl_conn cl) = None" "c_reads (cl_conn cl) = 0"
    "c_writes (cl_conn cl) = []" "c_oobs (cl_conn cl) = 0" "wheel_inv ?t"
    using assms(3) by (simp_all add: client_ready_def)
  have tries: "try_endpoints True es \<longleftrightarrow> False \<notin> set es" by (simp add: tries_all)
  show ?thesis
  proof (cases "False \<in> set es")
    case False
    let ?cl = "cl\<lparr>cl_pool := p3, cl_timers := ?t\<rparr>"
    have "connect X resolve k H i m0 s0 r0 cl = Inr (False, ?cl)"
      using False tries p1(1) p2(1) p3(1) assms(4) not_connected [OF new(1)] by (simp add: connect_def Let_def)
    moreover have "client_ready k ?cl" using assms(3) p3(2) by (simp add: client_ready_def)
    ultimately show ?thesis using False p3 new(6) by (simp add: tm_is_running_def)
  next
    case True
    obtain c where c: "attach X (cl_service cl) i m0 s0 r0 (cl_conn cl) = Inr (True, c)"
      "conn_ok (x_buf X) (rpc_ok X) 0 1 1 c" "counters c = Some (0, 0)"
      using attach_works [OF assms(1,2) new(1-5)] by blast
    let ?api = "conn_timers (rpc_conn_env X) (\<lambda>_. True)"
    obtain t where t: "tm_register ?api k (Inr (H(k \<mapsto> c))) ?t = Inr t" "wheel_inv t" "timer_jiffies t = timer_jiffies ?t"
      "pending t = add_mset \<lparr>weak_timer = k, jiffies = kTimeoutSec + timer_jiffies ?t\<rparr> (pending (cl_timers cl))"
      using register_result [OF new(6), of ?api k "Inr (H(k \<mapsto> c))"] assms(5) by (auto simp: kTimeoutSec_def)
    let ?cl = "cl\<lparr>cl_conn := c, cl_pool := p3, cl_timers := t\<rparr>"
    have "connect X resolve k H i m0 s0 r0 cl = Inr (True, ?cl)"
      using True tries p1(1) p2(1) p3(1) assms(4) not_connected [OF new(1)] c(1) t(1) new(2) by (simp add: connect_def Let_def)
    moreover have "mbStop t = mbStop ?t" using t(1)
      by (auto simp: tm_register_def internal_add_timer_def Let_def split: if_splits option.splits)
    ultimately show ?thesis using True p3 t c is_connected_ok [OF c(2)]
      by (simp add: tm_is_running_def conn_period_def)
  qed
qed

lemma connect_again:
  assumes "conn_closing (cl_conn cl)" and "pool_ready (cl_pool cl)"
    and "resolve (cl_server cl) (cl_port cl) = Some es" and "False \<in> set es"
  shows "connect X resolve k H i m0 s0 r0 cl = Inl (if c_impl (cl_conn cl) = None then AssertFailed else CheckFailed)"
proof -
  obtain p1 where p1: "iop_start (cl_pool cl) = Inr p1" "pool_ready p1" "iop_is_running p1"
    using pool_ready_start assms(2) by blast
  obtain i1 p2 where p2: "iop_get p1 = Inr (i1, p2)" "pool_ready p2" "iop_is_running p2"
    using pool_ready_get [OF p1(2,3)] by blast
  obtain i2 p3 where p3: "iop_get p2 = Inr (i2, p3)" using pool_ready_get [OF p2(2,3)] by blast
  have "\<not> is_connected (cl_conn cl)" using assms(1) by (simp add: is_connected_def)
  moreover have "\<not> try_endpoints True es" using assms(4) by (simp add: tries_all)
  moreover have "attach X (cl_service cl) i m0 s0 r0 (cl_conn cl) = Inl AssertFailed" if "c_impl (cl_conn cl) = None"
    using assms(1) that by (simp add: attach_def Let_def impl_reset_def init_socket_closing)
  ultimately show ?thesis
    using p1(1) p2(1) p3 assms(3) by (cases "c_impl (cl_conn cl)") (simp_all add: connect_def Let_def)
qed


section \<open>Connecting\<close>

text \<open>
  C24. \<open>Connect\<close> of a client that has not connected before starts its services and its timers and
  returns whether some endpoint of the server accepts. If one does, the connection works, is
  connected, and its first heartbeat is due in 30 jiffies; if none does, the connection is
  as new and \<open>Connect\<close> can be called again.
\<close>

theorem connect_connects:
  assumes "codec_ok (x_codec X)" and "buffer_api_ok (x_buf X)" and "client_ready k cl"
    and "resolve (cl_server cl) (cl_port cl) = Some es"
    and "kTimeoutSec + timer_jiffies (tm_start (cl_timers cl)) \<le> INT_MAX"
  shows "\<exists>cl'. connect X resolve k H i m0 s0 r0 cl = Inr (False \<in> set es, cl') \<and> iop_is_running (cl_pool cl') \<and>
    tm_is_running (cl_timers cl') \<and> wheel_inv (cl_timers cl') \<and>
    (if False \<in> set es
     then conn_ok (x_buf X) (rpc_ok X) 0 1 1 (cl_conn cl') \<and> is_connected (cl_conn cl') \<and>
       pending (cl_timers cl') = add_mset
         \<lparr>weak_timer = k, jiffies = kTimeoutSec + timer_jiffies (cl_timers cl')\<rparr> (pending (cl_timers cl))
     else cl_conn cl' = cl_conn cl \<and> client_ready k cl')"
  using connect_result [where resolve = resolve and H = H and i = i and ?r0.0 = r0 and ?s0.0 = s0 and ?m0.0 = m0, OF assms] by (auto split: if_splits)

text \<open>
  A client connection connects once: after it has closed, \<open>Connect\<close> to a server that accepts
  stops the process, by the \<open>CHECK\<close> that there is no raw connection if the client has
  disconnected, by the assertion in \<open>InitSocket\<close> if the connection has failed.
\<close>

theorem connect_again_stops:
  assumes "conn_closing (cl_conn cl)" and "pool_ready (cl_pool cl)"
    and "resolve (cl_server cl) (cl_port cl) = Some es" and "False \<in> set es"
  shows "connect X resolve k H i m0 s0 r0 cl = Inl (if c_impl (cl_conn cl) = None then AssertFailed else CheckFailed)"
  using assms by (rule connect_again)

text \<open>
  C23. A client of a silent server: after a successful \<open>Connect\<close> of a new client connection, with
  the timer master its own, the client is connected, and \<open>Connect\<close> is a no-op, until the timers
  reach jiffy 91; then the connection is closed and the next \<open>Connect\<close> stops the process.
\<close>

theorem client_of_silent_server:
  assumes "codec_ok (x_codec X)" and "buffer_api_ok (x_buf X)" and "resolve server port = Some es" and "False \<in> set es"
    and "1 \<le> j" and "kTimeoutSec + j \<le> INT_MAX"
  shows "\<exists>cl H s. connect X resolve k Map.empty i m0 s0 r0 (client_connection_new name server port gid w) = Inr (True, cl) \<and>
    tm_update (conn_timers (rpc_conn_env X) (\<lambda>_. True)) j (Inr [k \<mapsto> cl_conn cl], cl_timers cl) = Inr (Inr H, s) \<and>
    (\<exists>c cl'. H k = Some c \<and> cl' = cl\<lparr>cl_conn := c, cl_timers := s\<rparr> \<and>
       (if j < 91 then is_connected c \<and> connect X resolve k Map.empty i m0 s0 r0 cl' = Inr (True, cl')
        else conn_closing c \<and> (\<exists>e. connect X resolve k Map.empty i m0 s0 r0 cl' = Inl e)))"
proof -
  let ?new = "client_connection_new name server port gid w :: ('a, 'b) client_connection"
  let ?api = "conn_timers (rpc_conn_env X) (\<lambda>_. True)"
  have new: "resolve (cl_server ?new) (cl_port ?new) = Some es" "timer_jiffies (tm_start (cl_timers ?new)) = 1"
    "pending (cl_timers ?new) = {#}" "cl_server ?new = server" "cl_port ?new = port"
    using assms(3) by (simp_all add: client_connection_new_def tm_start_def new_timer_master_def) (simp add: pending_def)
  have "kTimeoutSec + timer_jiffies (tm_start (cl_timers ?new)) \<le> INT_MAX" using assms(5,6) new(2) by simp
  from connect_result [where resolve = resolve and X = X and k = k and cl = ?new and i = i and H = Map.empty and ?m0.0 = m0 and ?s0.0 = s0 and ?r0.0 = r0,
      OF assms(1,2) client_ready_new new(1) this] assms(4) new
  obtain cl where cl: "connect X resolve k Map.empty i m0 s0 r0 ?new = Inr (True, cl)" "wheel_inv (cl_timers cl)"
    "timer_jiffies (cl_timers cl) = 1" "pool_ready (cl_pool cl)" "cl_server cl = server" "cl_port cl = port"
    "conn_ok (x_buf X) (rpc_ok X) 0 1 1 (cl_conn cl)" "counters (cl_conn cl) = Some (0, 0)"
    "pending (cl_timers cl) = {#\<lparr>weak_timer = k, jiffies = kTimeoutSec + 1\<rparr>#}"
    by auto
  have slot: "{#x \<in># pending (cl_timers cl). weak_timer x = k#} = {#slot_at k (timer_jiffies (cl_timers cl)) 0#}"
    unfolding cl(3,9) by (simp add: slot_at_def)
  have j: "timer_jiffies (cl_timers cl) \<le> j" using assms(5) cl(3) by simp
  have ok: "conn_ok (e_buf (rpc_conn_env X)) (rpc_ok X) 0 1 1 (cl_conn cl)" using cl(7) by simp
  obtain W s where u: "tm_update ?api j (Inr [k \<mapsto> cl_conn cl], cl_timers cl) = Inr (W, s)"
    "case W of
       Inl e \<Rightarrow> \<exists>k'. k' \<noteq> k \<and> k' \<in> dom [k \<mapsto> cl_conn cl]
     | Inr H' \<Rightarrow> \<exists>c'. H' k = Some c' \<and>
         (if j < 1 + kTimeoutSec * 3
          then conn_ok (e_buf (rpc_conn_env X)) (rpc_ok X) 0 1 1 c' \<and> counters c' = Some (0 + (j - 1) div kTimeoutSec, 0)
          else conn_closing c')"
    using silence_update [where env = "rpc_conn_env X" and sent = "\<lambda>_. True" and k = k and H = "[k \<mapsto> cl_conn cl]"
        and c = "cl_conn cl" and m = 0, OF cl(2) slot _ ok cl(8) _ _ _ j assms(6), unfolded cl(3)]
    by (auto simp: INT_MAX_def)
  then obtain H c where H: "W = Inr H" "H k = Some c" "if j < 91 then conn_ok (x_buf X) (rpc_ok X) 0 1 1 c else conn_closing c"
    by (cases W) (auto simp: kTimeoutSec_def split: if_splits)
  let ?cl = "cl\<lparr>cl_conn := c, cl_timers := s\<rparr>"
  have "if j < 91 then is_connected c \<and> connect X resolve k Map.empty i m0 s0 r0 ?cl = Inr (True, ?cl)
        else conn_closing c \<and> (\<exists>e. connect X resolve k Map.empty i m0 s0 r0 ?cl = Inl e)"
  proof (cases "j < 91")
    case True
    then have "is_connected c" using H(3) is_connected_ok by (fastforce simp: conn_period_def)
    with True show ?thesis by (simp add: connect_def)
  next
    case False
    with H(3) connect_again [of ?cl resolve es X k Map.empty i m0 s0 r0] cl(4-6) assms(3,4) show ?thesis by simp
  qed
  with cl(1) u(1) H(1,2) show ?thesis by blast
qed

section \<open>Witnesses\<close>

definition demo_client :: "(string, nat) client_connection" where
  "demo_client = client_connection_new ''ListenTestMainClient'' ''127.0.0.1'' ''33000'' 0
     \<lparr>w_log = [], w_next = 0, w_freed = [], w_seq = 0, w_app = 0\<rparr>"

theorem connect_connects_witness:
  "\<exists>cl. connect echo_env (\<lambda>_ _. Some [True, False]) 0 Map.empty 0 demo_request 0 0 demo_client = Inr (True, cl) \<and>
     is_connected (cl_conn cl)"
  using connect_connects [OF demo_laws, of 0 demo_client "\<lambda>_ _. Some [True, False]" "[True, False]" Map.empty 0 demo_request 0 0]
  by (auto simp: demo_client_def client_ready_new)
    (auto simp: client_connection_new_def tm_start_def new_timer_master_def kTimeoutSec_def INT_MAX_def)

theorem connect_again_stops_witness:
  "connect echo_env (\<lambda>_ _. Some [False]) 0 Map.empty 0 demo_request 0 0
     (demo_client\<lparr>cl_conn := (cl_conn demo_client)\<lparr>c_status := set_closing status_new\<rparr>\<rparr>) = Inl AssertFailed"
  using connect_again_stops [of "demo_client\<lparr>cl_conn := (cl_conn demo_client)\<lparr>c_status := set_closing status_new\<rparr>\<rparr>"
      "\<lambda>_ _. Some [False]" "[False]" echo_env 0 Map.empty 0 demo_request 0 0]
  by (simp add: demo_client_def client_connection_new_def conn_new_def pool_ready_def iop_new_def kClientThreadPoolSize_def)

theorem client_of_silent_server_witness:
  "\<exists>cl H s c. connect echo_env (\<lambda>_ _. Some [False]) 0 Map.empty 0 demo_request 0 0
       (client_connection_new ''c'' ''127.0.0.1'' ''33000'' 0 (c_world (cl_conn demo_client))) = Inr (True, cl) \<and>
     tm_update (conn_timers (rpc_conn_env echo_env) (\<lambda>_. True)) 91 (Inr [0 \<mapsto> cl_conn cl], cl_timers cl) = Inr (Inr H, s) \<and>
     H 0 = Some c \<and> conn_closing c"
  using client_of_silent_server [OF demo_laws, of "\<lambda>_ _. Some [False]" "''127.0.0.1''" "''33000''" "[False]" 91 0 0
      demo_request 0 0 "''c''" 0 "c_world (cl_conn demo_client)"]
  by (auto simp: INT_MAX_def kTimeoutSec_def)

end
