(* ===== verification/Game_Service.thy ===== *)
theory Game_Service
  imports Client_Connection Clients
begin

text \<open>
  What \<open>src/server/main.cpp\<close> and \<open>src/client/ClientMain.cpp\<close> put together: a server that has
  registered \<open>RpcServiceClients\<close> for the service \<open>clients\<close> of \<open>proto/general.proto\<close>, and a user who
  connects and calls \<open>Register\<close>.
\<close>

section \<open>The service\<close>

text \<open>The full names of the methods, in the order of the descriptor.\<close>

definition clients_methods :: "string list" where
  "clients_methods = [''protocol.clients.Register'', ''protocol.clients.Unregister'',
     ''protocol.clients.RegisterViewport'', ''protocol.clients.ChangeViewport'', ''protocol.clients.UnregisterViewport'']"

lemma clients_fingerprints:
  "hash8_string ''protocol.clients.Register'' = 9756805730524570331"
  "hash8_string ''protocol.clients.Unregister'' = 5730120046514498088"
  "hash8_string ''protocol.clients.RegisterViewport'' = 11135193242268017720"
  "hash8_string ''protocol.clients.ChangeViewport'' = 12068887365851156959"
  "hash8_string ''protocol.clients.UnregisterViewport'' = 3989400675723029273"
  by (simp add: hash_start, simp add: hash_loop_steps, simp add: read_eval, simp add: mix_eval,
      simp add: finish_eval, simp add: mix_eval)+


definition clients_table :: "(u64 \<times> string) list" where
  "clients_table = rev (map (\<lambda>m. (hash8_string m, m)) clients_methods)"

lemma clients_methods_distinct: "distinct (map hash8_string clients_methods)"
  by (simp add: clients_methods_def clients_fingerprints)

lemma clients_registered: "register_service clients_methods None = Inr (Some clients_table)"
  using clients_methods_distinct by (simp add: register_service_def register_methods_result clients_table_def)

lemma clients_table_Register: "map_of clients_table (hash8_string ''protocol.clients.Register'') = Some ''protocol.clients.Register''"
  by (simp add: clients_table_def clients_methods_def clients_fingerprints)

lemma clients_table_RegisterViewport:
  "map_of clients_table (hash8_string ''protocol.clients.RegisterViewport'') = Some ''protocol.clients.RegisterViewport''"
  by (simp add: clients_table_def clients_methods_def clients_fingerprints)

text \<open>
  The parsers of the requests and the serialization of the responses are of the generated code; the
  methods that \<open>RpcServiceClients\<close> leaves to it are those of \<open>X\<close>. The
  state of the application is the game. \<open>Register\<close> and \<open>RegisterViewport\<close> run their \<open>done\<close> before they return.
\<close>

record clients_format =
  fm_request :: "string \<Rightarrow> client_request option"
  fm_response :: "client_response \<Rightarrow> string option"
  fm_viewport :: "string \<Rightarrow> (u32 \<times> viewport_msg) option"   \<comment> \<open>the number of the client and the viewport\<close>
  fm_viewport_response :: "viewport_response \<Rightarrow> string option"

definition clients_service ::
  "clients_format \<Rightarrow> int \<Rightarrow> (string \<Rightarrow> string \<Rightarrow> game_world \<Rightarrow> (string option option \<times> game_world) outcome)
     \<Rightarrow> string \<Rightarrow> string \<Rightarrow> game_world \<Rightarrow> (string option option \<times> game_world) outcome" where
  "clients_service F junk other meth content g =
     (if meth = ''protocol.clients.Register''
      then (case fm_request F content of
              None \<Rightarrow> Inr (None, g)
            | Some r \<Rightarrow> bind_outcome (register_rpc junk r 0 g) (\<lambda>(response, g).
                Inr (Some (fm_response F response), g)))
      else if meth = ''protocol.clients.RegisterViewport''
      then (case fm_viewport F content of
              None \<Rightarrow> Inr (None, g)
            | Some (n, v) \<Rightarrow> bind_outcome (register_viewport_rpc (word_of_int junk) n v 0 g) (\<lambda>(response, g).
                Inr (Some (fm_viewport_response F response), g)))
      else other meth content g)"

definition clients_env :: "clients_format \<Rightarrow> int \<Rightarrow> ('b, game_world) rpc_env \<Rightarrow> ('b, game_world) rpc_env" where
  "clients_env F junk X = X\<lparr>
     x_parse_request := (\<lambda>meth content.
       if meth = ''protocol.clients.Register'' then fm_request F content \<noteq> None
       else if meth = ''protocol.clients.RegisterViewport'' then fm_viewport F content \<noteq> None
       else x_parse_request X meth content),
     x_service := clients_service F junk (x_service X)\<rparr>"

lemma clients_env_simps [simp]:
  "x_buf (clients_env F junk X) = x_buf X" "x_codec (clients_env F junk X) = x_codec X"
  "x_parse_request (clients_env F junk X) ''protocol.clients.Register'' content \<longleftrightarrow> fm_request F content \<noteq> None"
  "x_parse_request (clients_env F junk X) ''protocol.clients.RegisterViewport'' content \<longleftrightarrow> fm_viewport F content \<noteq> None"
  "x_service (clients_env F junk X) = clients_service F junk (x_service X)"
  "x_closed (clients_env F junk X) = x_closed X"
  by (simp_all add: clients_env_def)

section \<open>The two programs\<close>

text \<open>
  \<open>main\<close> of the server up to its endless loop: the template with the service, the server with two
  services and four threads, \<open>Listen\<close>. The default \<open>drain_timeout\<close>, \<open>LONG_MAX\<close>, becomes -1 in the
  member, an \<open>int\<close> that nothing reads.
\<close>

definition server_main :: "bool \<Rightarrow> (method_table \<times> ('b, 'z, 'w) server) outcome" where
  "server_main sys =
     bind_outcome (register_service clients_methods None) (\<lambda>service.
     bind_outcome (listen ''0.0.0.0'' ''33000'' sys (server_new 2 4 (- 1))) (\<lambda>s. Inr (service, s)))"

text \<open>
  \<open>User::DoRequest\<close> of the client: \<open>request\<close> is the serialized request, \<open>call\<close> names the
  controller, the response and the closure of \<open>ClientCallDone\<close>. The result of \<open>Connect\<close> is ignored.
\<close>

definition do_request ::
  "('b, 'w) rpc_env \<Rightarrow> (string \<Rightarrow> string \<Rightarrow> bool list option) \<Rightarrow> nat \<Rightarrow> nat \<Rightarrow> meta \<Rightarrow> int \<Rightarrow> int \<Rightarrow> int \<Rightarrow> 'w rpc_world
     \<Rightarrow> string option \<Rightarrow> rpc_call \<Rightarrow> ('b, 'w) client_connection outcome" where
  "do_request X resolve k static_i m0 s0 r0 globalConnectionId w request call =
     bind_outcome (connect X resolve k Map.empty static_i m0 s0 r0
       (client_connection_new ''ListenTestMainClient'' ''127.0.0.1'' ''33000'' globalConnectionId w)) (\<lambda>(connected, cl).
     bind_outcome (conn_call_method X ''protocol.clients.Register'' ''protocol.ClientResponse'' request call (cl_conn cl)) (\<lambda>c.
     Inr (cl\<lparr>cl_conn := c\<rparr>)))"

section \<open>Two new connections\<close>

text \<open>What \<open>Attach\<close> makes of a new connection: nothing is queued, no call is pending, and the decoder starts.\<close>

lemma attach_members:
  assumes "attach X service i m0 s0 r0 c = Inr (b, c')" and "c_impl c = None"
  shows "\<exists>r. c_impl c' = Some r \<and> p_service (raw.more r) = service \<and> awaiting (p_decoder (raw.more r)) \<and>
    pending_calls c' = [] \<and> unsent (x_buf X) c' = []"
  using assms by (auto simp: attach_def impl_reset_def init_socket_def Let_def raw_this_def start_oob_recv_def async_read_def
      socket_this_def conn_unlock_def on_status_def raw_new_def awaiting_def dec_new_def pending_calls_def
      unsent_def raw_unsent_def outcoming_def incoming_def split: option.splits if_splits)

lemma connect_attaches:
  assumes "connect X resolve k H i m0 s0 r0 cl = Inr (True, cl')" and "\<not> is_connected (cl_conn cl)"
  shows "\<exists>b. attach X (cl_service cl) i m0 s0 r0 (cl_conn cl) = Inr (b, cl_conn cl')"
  using assms by (auto simp: connect_def Let_def split: if_splits option.splits)


section \<open>A user registers\<close>

text \<open>
  The server comes up: the names of the five methods of the service \<open>clients\<close> have different
  fingerprints, so \<open>RegisterService\<close> accepts the service and each of its methods is found under its
  own fingerprint; then, when the address can be bound, the pool runs and one accept waits.
\<close>

theorem server_comes_up:
  "\<exists>s :: ('b, 'z, 'w) server. server_main True = Inr (Some clients_table, s) \<and>
     distinct (map hash8_string clients_methods) \<and>
     list_all (\<lambda>m. map_of clients_table (hash8_string m) = Some m) clients_methods \<and>
     iop_is_running (s_pool s) \<and> tm_is_running (s_timers s) \<and> s_channels s = [] \<and>
     s_accepts s = [(0, ''0.0.0.0::33000'')] \<and> s_acceptors s = [(''0.0.0.0::33000'', 0)]"
proof -
  have "map_of clients_table (hash8_string m) = Some m" if "m \<in> set clients_methods" for m
    by (rule map_of_is_SomeI)
      (use clients_methods_distinct that in \<open>auto simp: clients_table_def rev_map [symmetric] comp_def\<close>)
  moreover obtain s :: "('b, 'z, 'w) server" where "listen ''0.0.0.0'' ''33000'' True (server_new 2 4 (- 1)) = Inr s"
    "iop_is_running (s_pool s)" "tm_is_running (s_timers s)" "s_channels s = []" "s_accepts s = [(0, ''0.0.0.0::33000'')]"
    "s_acceptors s = [(''0.0.0.0::33000'', 0)]"
    using demo_listening [of "- 1"] by blast
  ultimately show ?thesis
    using clients_registered clients_methods_distinct by (simp add: server_main_def list_all_iff)
qed

text \<open>
  C1. A user registers over the network: \<open>DoRequest\<close> connects to a server whose game is well-formed
  and that spans a connection for it, and calls \<open>Register\<close>. The bytes the call queues make the server register the login in its game, exactly as the abstract registration
  says, and queue the response; those bytes make the client run the callback of the call with
  that response: a number for a new login, code 1 for one that is taken.
\<close>

theorem user_registers:
  assumes laws: "codec_ok (x_codec X)" "buffer_api_ok (x_buf X)"
    and net: "resolve ''127.0.0.1'' ''33000'' = Some es" "False \<in> set es"
    and seq: "0 \<le> w_seq wc" "w_seq wc \<le> INT_MAX"
    and game: "game_ok (w_app ws)" "length (players_of (w_app ws)) < 2 ^ 32 - 1"
    and format: "fm_request F content = Some r"
      "fm_response F (fst (spec_register r (players_of (w_app ws)))) = Some answer"
    and fits: "\<And>i. sendable (x_codec X) (request_meta ''protocol.clients.Register'' i content)"
      "\<And>i. sendable (x_codec X) \<lparr>m_type = RESPONSE, m_identify = i, m_response_identify = None, m_content = answer\<rparr>"
  shows "\<exists>cl sv sv1 c m.
    do_request (clients_env F junk X) resolve k i m0 s0 r0 gid wc (Some content) call = Inr cl \<and>
    span (clients_env F junk X) tname (Some clients_table) gid' i' m0 s0' r0' ws = Inr (Some sv) \<and>
    proto_decode (clients_env F junk X) (unsent (x_buf X) (cl_conn cl)) sv = Inr (True, sv1) \<and>
    proto_decode (clients_env F junk X) (unsent (x_buf X) sv1) (cl_conn cl) = Inr (True, c) \<and>
    game_ok (w_app (c_world sv1)) \<and>
    players_of (w_app (c_world sv1)) = snd (spec_register r (players_of (w_app ws))) \<and>
    m_content m = answer \<and>
    w_log (c_world c) = w_log wc @ call_method_callback (clients_env F junk X) call (Some m) \<and> pending_calls c = []"
proof -
  let ?X = "clients_env F junk X" and ?new = "client_connection_new ''ListenTestMainClient'' ''127.0.0.1'' ''33000'' gid wc :: ('a, game_world) client_connection"
  let ?base = "conn_new (tname @ ''.span'') gid' ws :: ('a, game_world) pconn"
  have laws': "codec_ok (x_codec ?X)" "buffer_api_ok (x_buf ?X)" using laws by simp_all
  have new: "c_impl (cl_conn ?new) = None" "\<not> is_connected (cl_conn ?new)" "cl_service ?new = None"
    "c_world (cl_conn ?new) = wc" "resolve (cl_server ?new) (cl_port ?new) = Some es"
    using net(1) by (simp_all add: client_connection_new_def conn_new_def not_connected)
  have "kTimeoutSec + timer_jiffies (tm_start (cl_timers ?new)) \<le> INT_MAX"
    by (simp add: client_connection_new_def tm_start_def new_timer_master_def kTimeoutSec_def INT_MAX_def)
  from connect_result [where X = ?X and k = k and cl = ?new and resolve = resolve and H = Map.empty and i = i and ?m0.0 = m0
      and ?s0.0 = s0 and ?r0.0 = r0, OF laws' client_ready_new new(5) this] net(2)
  obtain cl where cl: "connect ?X resolve k Map.empty i m0 s0 r0 ?new = Inr (True, cl)"
    "conn_ok (x_buf X) (rpc_ok ?X) 0 1 1 (cl_conn cl)" by auto
  obtain b where att: "attach ?X None i m0 s0 r0 (cl_conn ?new) = Inr (b, cl_conn cl)"
    using connect_attaches [OF cl(1) new(2)] new(3) by auto
  from attach_members [OF this new(1)] obtain rc where rc: "c_impl (cl_conn cl) = Some rc"
    "p_service (raw.more rc) = None" "awaiting (p_decoder (raw.more rc))" "pending_calls (cl_conn cl) = []"
    "unsent (x_buf X) (cl_conn cl) = []" by auto
  have wc: "c_world (cl_conn cl) = wc"
    using attach_works [OF laws', of "cl_conn ?new" None i m0 s0 r0] att new(4)
    by (auto simp: client_connection_new_def conn_new_def)
  obtain sv where sv: "attach ?X (Some clients_table) i' m0 s0' r0' ?base = Inr (True, sv)"
    "conn_ok (x_buf X) (rpc_ok ?X) 0 1 1 sv" "c_world sv = ws"
    using attach_works [OF laws', of ?base "Some clients_table" i' m0 s0' r0'] by (auto simp: conn_new_def)
  have "c_impl ?base = None" by (simp add: conn_new_def)
  from attach_members [OF sv(1) this] obtain rs where rs: "c_impl sv = Some rs"
    "p_service (raw.more rs) = Some clients_table" "awaiting (p_decoder (raw.more rs))" "unsent (x_buf X) sv = []" by auto
  obtain response g where reg: "register_rpc junk r 0 (w_app ws) = Inr (response, g)" "game_ok g"
    "(response, players_of g) = spec_register r (players_of (w_app ws))"
    using register_implements [OF game] by blast
  have ser: "x_service ?X ''protocol.clients.Register'' content (w_app (c_world sv)) = Inr (Some (Some answer), g)"
    using reg(1) format reg(3) [symmetric] sv(3) by (simp add: clients_service_def)
  have ok: "conn_ok (x_buf X) proto_ok 0 1 1 (cl_conn cl)" "conn_ok (x_buf X) proto_ok 0 1 1 sv"
    using cl(2) sv(2) by (simp_all add: conn_ok_rpc)
  have room: "seq_room (cl_conn cl)" using seq rc(4) wc by (simp add: seq_room_def)
  have parse: "x_parse_request ?X ''protocol.clients.Register'' content" using format(1) by simp
  from call_round_trip [where A = "x_buf X" and X = ?X and call = call and rtype = "''protocol.ClientResponse''",
      OF ok(1) _ laws'(1) room rc(1,3,2) ok(2) rs(1,3,2) clients_table_Register parse ser] fits
  obtain request resp cl1 sv1 cl2 m where trip:
    "conn_call_method ?X ''protocol.clients.Register'' ''protocol.ClientResponse'' (Some content) call (cl_conn cl) = Inr cl1"
    "unsent (x_buf X) cl1 = request" "proto_decode ?X request sv = Inr (True, sv1)" "unsent (x_buf X) sv1 = resp"
    "w_app (c_world sv1) = g" "proto_decode ?X resp cl1 = Inr (True, cl2)" "m_content m = answer"
    "w_log (c_world cl2) = w_log wc @ call_method_callback ?X call (Some m)" "pending_calls cl2 = []"
    by (auto simp: rc(4,5) rs(4) wc)
  moreover have "span ?X tname (Some clients_table) gid' i' m0 s0' r0' ws = Inr (Some sv)" using sv(1) by (simp add: span_def)
  moreover have "players_of g = snd (spec_register r (players_of (w_app ws)))" using reg(3) by (metis snd_conv)
  moreover have "do_request ?X resolve k i m0 s0 r0 gid wc (Some content) call = Inr (cl\<lparr>cl_conn := cl1\<rparr>)"
    using cl(1) trip(1) by (simp add: do_request_def)
  ultimately show ?thesis using reg(2) by (intro exI [of _ "cl\<lparr>cl_conn := cl1\<rparr>"] exI [of _ sv] exI [of _ sv1] exI [of _ cl2] exI [of _ m]) simp
qed

text \<open>
  C35. \<^bold>\<open>A player who asks for a viewport stops the server.\<close> A frame that asks for \<open>RegisterViewport\<close>, with a viewport of any name, place and size, for the
  number of any player of the game, makes the handler of the read index an empty vector, whatever bytes follow it. Nothing in
  the request is checked against the connection, so the number can be another player's.
\<close>

theorem viewport_request_stops_server:
  assumes "codec_ok (x_codec X)" and "game_ok (w_app (c_world sv))"
    and "c_impl sv = Some r" and "awaiting (p_decoder (raw.more r))" and "p_service (raw.more r) = Some clients_table"
    and "fm_viewport F content = Some (n, v)" and "unat n \<noteq> 0" and "unat n \<le> length (players_of (w_app (c_world sv)))"
    and "sendable (x_codec X) (request_meta ''protocol.clients.RegisterViewport'' i content)"
  shows "proto_decode (clients_env F junk X)
      (frame_of (x_codec X) (request_meta ''protocol.clients.RegisterViewport'' i content) @ rest) sv = Inl OutOfBounds"
proof -
  let ?X = "clients_env F junk X" and ?m = "request_meta ''protocol.clients.RegisterViewport'' i content"
  have "register_viewport_rpc (word_of_int junk) n v 0 (w_app (c_world sv)) = Inl OutOfBounds"
    using viewport_result [OF assms(2), of "word_of_int junk" n v 0] assms(7,8) by simp
  then have "raw_handle ?X ?m sv = Inl OutOfBounds"
    using assms(3,5,6) clients_table_RegisterViewport
    by (simp add: raw_handle_def raw_this_def service_handle_def handle_service_def request_meta_def clients_service_def)
  then show ?thesis
    using proto_decode_frame_fault [where X = ?X, OF assms(3,4)] assms(1,9) by simp
qed

text \<open>
  The user of a server that cannot be reached: \<open>DoRequest\<close> goes on, the controller is told, and the
  closure runs with the response as it was, whose code reads as 0.
\<close>

theorem unreachable_server:
  assumes "codec_ok (x_codec X)" and "buffer_api_ok (x_buf X)"
    and "resolve ''127.0.0.1'' ''33000'' = Some es" and "False \<notin> set es"
  shows "\<exists>cl. do_request X resolve k i m0 s0 r0 gid wc request call = Inr cl \<and> \<not> is_connected (cl_conn cl) \<and>
    w_log (c_world (cl_conn cl)) = w_log wc @
      fail_controller (k_ctrl call) ''Impl Connection is disconnected'' @ run_closure (k_done call)"
proof -
  let ?new = "client_connection_new ''ListenTestMainClient'' ''127.0.0.1'' ''33000'' gid wc :: ('a, 'b) client_connection"
  have new: "resolve (cl_server ?new) (cl_port ?new) = Some es" "c_world (cl_conn ?new) = wc"
    "kTimeoutSec + timer_jiffies (tm_start (cl_timers ?new)) \<le> INT_MAX"
    using assms(3)
    by (simp_all add: client_connection_new_def conn_new_def tm_start_def new_timer_master_def kTimeoutSec_def INT_MAX_def)
  from connect_result [where X = X and k = k and cl = ?new and resolve = resolve and H = Map.empty and i = i and ?m0.0 = m0
      and ?s0.0 = s0 and ?r0.0 = r0, OF assms(1,2) client_ready_new new(1,3)] assms(4)
  obtain cl where cl: "connect X resolve k Map.empty i m0 s0 r0 ?new = Inr (False, cl)" "cl_conn cl = cl_conn ?new" by auto
  have "c_impl (cl_conn ?new) = None" "st_shared (c_status (cl_conn ?new)) = 0" "\<not> conn_closing (cl_conn ?new)"
    "is_idle (c_status (cl_conn ?new))"
    by (simp_all add: client_connection_new_def conn_new_def status_new_def is_closing_def is_idle_def IDLE_def)
  then have "\<exists>c. conn_call_method X ''protocol.clients.Register'' ''protocol.ClientResponse'' request call (cl_conn ?new) = Inr c \<and>
      \<not> is_connected c \<and> w_log (c_world c) = w_log wc @
      fail_controller (k_ctrl call) ''Impl Connection is disconnected'' @ run_closure (k_done call)"
    using new(2)
    by (simp add: conn_call_method_def Let_def conn_unlock_def on_status_def on_world_def log_events_def is_connected_def)
  with cl show ?thesis by (auto simp: do_request_def is_connected_def)
qed

text \<open>A registration over strings: the request is the login, the response the word for its code.\<close>

definition demo_format :: clients_format where
  "demo_format = \<lparr>fm_request = (\<lambda>s. Some \<lparr>rq_login = s, rq_password = None\<rparr>),
     fm_response = (\<lambda>resp. Some (if cr_client resp = None then ''no'' else ''ok'')),
     fm_viewport = (\<lambda>s. Some (1, \<lparr>vm_name = s, vm_x = 1, vm_y = 2, vm_viewsize = None, vm_iviewsize = None\<rparr>)),
     fm_viewport_response = (\<lambda>resp. Some ''view'')\<rparr>"

definition demo_game :: game_world where
  "demo_game = \<lparr>gw_game = None, gw_registries = Map.empty, gw_clients = Map.empty, gw_viewports = Map.empty, gw_fresh = 0, gw_ran = []\<rparr>"

definition demo_world :: "game_world rpc_world" where
  "demo_world = \<lparr>w_log = [], w_next = 0, w_freed = [], w_seq = 1, w_app = demo_game\<rparr>"

definition demo_rpc :: "(string, game_world) rpc_env" where
  "demo_rpc = \<lparr>x_buf = string_buffers, x_codec = text_codec, x_parse_request = (\<lambda>meth content. False),
     x_service = (\<lambda>meth content g. Inr (None, g)), x_parse_response = (\<lambda>i content. True), x_alive = (\<lambda>l g. True),
     x_closed = (\<lambda>l g. g)\<rparr>"

theorem user_registers_witness:
  "\<exists>cl sv sv1. do_request (clients_env demo_format 0 demo_rpc) (\<lambda>_ _. Some [False]) 0 0 demo_request 0 0 0 demo_world
      (Some ''test'') demo_call = Inr cl \<and>
    proto_decode (clients_env demo_format 0 demo_rpc) (unsent string_buffers (cl_conn cl)) sv = Inr (True, sv1) \<and>
    players_of (w_app (c_world sv1)) = [(''test'', [])]"
proof -
  have laws: "codec_ok (x_codec demo_rpc)" "buffer_api_ok (x_buf demo_rpc)" by (simp_all add: demo_rpc_def text_codec_ok)
  have players: "players_of (w_app demo_world) = []"
    by (simp add: demo_world_def demo_game_def players_of_def registry_of_def cc_new_def)
  have game: "game_ok (w_app demo_world)" by (simp add: demo_world_def demo_game_def game_ok_def)
  have send: "sendable (x_codec demo_rpc) (request_meta ''protocol.clients.Register'' i ''test'')"
    "sendable (x_codec demo_rpc) \<lparr>m_type = RESPONSE, m_identify = i, m_response_identify = None, m_content = ''ok''\<rparr>" for i
    unfolding demo_rpc_def by (auto intro!: text_sendable simp: request_meta_def meta_acceptable_def)
  show ?thesis
    using user_registers [where X = demo_rpc and resolve = "\<lambda>_ _. Some [False]"
        and wc = demo_world and ws = demo_world and F = demo_format and content = "''test''" and answer = "''ok''"
        and junk = 0 and k = 0 and i = 0 and ?m0.0 = demo_request and ?s0.0 = 0 and ?r0.0 = 0
        and gid = 0 and call = demo_call and tname = "''Listen.Server''" and gid' = 1 and i' = 1 and s0' = 0 and r0' = 0
        and es = "[False]" and r = "\<lparr>rq_login = ''test'', rq_password = None\<rparr>", OF laws _ _ _ _ game _ _ _ send]
      players
    by (simp add: demo_format_def spec_register_def granted_def demo_rpc_def)
      (auto simp: demo_world_def INT_MAX_def)
qed

theorem viewport_request_stops_server_witness:
  "\<exists>ws sv. span (clients_env demo_format 0 demo_rpc) ''s'' (Some clients_table) 1 1 demo_request 0 0 ws = Inr (Some sv) \<and>
    players_of (w_app ws) = [(''ann'', [])] \<and>
    proto_decode (clients_env demo_format 0 demo_rpc)
      (frame_of text_codec (request_meta ''protocol.clients.RegisterViewport'' 5 ''Main'') @ ''more'') sv = Inl OutOfBounds"
proof -
  have "game_ok demo_game" "players_of demo_game = []"
    by (simp_all add: demo_game_def game_ok_def players_of_def registry_of_def cc_new_def)
  then obtain g where g: "game_ok g" "players_of g = [(''ann'', [])]"
    using register_implements [of demo_game 0 "\<lparr>rq_login = ''ann'', rq_password = None\<rparr>" 0] by (auto simp: spec_register_def)
  let ?X = "clients_env demo_format 0 demo_rpc" and ?ws = "demo_world\<lparr>w_app := g\<rparr>"
  let ?base = "conn_new (''s'' @ ''.span'') 1 ?ws :: (string, game_world) pconn"
  have laws: "codec_ok (x_codec ?X)" "buffer_api_ok (x_buf ?X)" by (simp_all add: demo_rpc_def text_codec_ok)
  obtain sv where sv: "attach ?X (Some clients_table) 1 demo_request 0 0 ?base = Inr (True, sv)" "c_world sv = ?ws"
    using attach_works [OF laws, of ?base "Some clients_table" 1 demo_request 0 0] by (auto simp: conn_new_def)
  have "c_impl ?base = None" by (simp add: conn_new_def)
  from attach_members [OF sv(1) this] obtain rs where rs: "c_impl sv = Some rs"
    "p_service (raw.more rs) = Some clients_table" "awaiting (p_decoder (raw.more rs))" by auto
  have "sendable (x_codec demo_rpc) (request_meta ''protocol.clients.RegisterViewport'' 5 ''Main'')"
    unfolding demo_rpc_def by (auto intro!: text_sendable simp: request_meta_def meta_acceptable_def)
  with viewport_request_stops_server [where X = demo_rpc and sv = sv and F = demo_format and content = "''Main''" and n = 1
      and v = "\<lparr>vm_name = ''Main'', vm_x = 1, vm_y = 2, vm_viewsize = None, vm_iviewsize = None\<rparr>" and i = 5 and junk = 0 and rest = "''more''",
      OF _ _ rs(1,3,2)] laws(1) g sv(2)
  have "proto_decode ?X (frame_of text_codec (request_meta ''protocol.clients.RegisterViewport'' 5 ''Main'') @ ''more'') sv = Inl OutOfBounds"
    by (simp add: demo_format_def demo_rpc_def)
  moreover have "span ?X ''s'' (Some clients_table) 1 1 demo_request 0 0 ?ws = Inr (Some sv)" using sv(1) by (simp add: span_def)
  ultimately show ?thesis using g(2) by (intro exI [of _ ?ws] exI [of _ sv]) simp
qed

end
