(* ===== verification/Shared_Game.thy ===== *)
theory Shared_Game
  imports Game_Service
begin

text \<open>
  One game behind all connections of a server: \<open>Game::Instance()\<close> is a static object, so what
  \<open>RpcServiceClients\<close> does for one connection is seen by every other (\<open>src/server/Game.hpp\<close>,
  \<open>src/server/network/RpcServiceClients.hpp\<close>). A server here is its connections, by number, and
  the game; a step accepts a connection or lets one of them handle one event (bytes read, a write completed, a
  heartbeat, a close), with the game of the server as its application. Any clients, sending any bytes cut
  anywhere, are such a history of events. An event is handled to its end before the next: what happens when the players are looked up
  while another thread adds one is the subject of \<open>Container_Race\<close>.

  The lemmas: every message moves the game only forwards, so every history keeps it well-formed
  and only appends players, whatever the clients send.
\<close>

section \<open>The game moves forwards\<close>

definition game_moves :: "game_world \<Rightarrow> game_world \<Rightarrow> bool" where
  "game_moves g g' \<longleftrightarrow> (game_ok g \<longrightarrow> game_ok g' \<and> prefix (players_of g) (players_of g'))"

lemma game_moves_refl [simp]: "game_moves g g"
  by (simp add: game_moves_def)

lemma game_moves_trans: "game_moves g h \<Longrightarrow> game_moves h k \<Longrightarrow> game_moves g k"
  by (auto simp: game_moves_def intro: prefix_order.trans)

text \<open>
  The methods that \<open>RpcServiceClients\<close> does not implement are those of the generated class, which
  fail the controller and run \<open>done\<close>; neither they nor the listeners of the connections know the game.
\<close>

definition game_untouched :: "('b, game_world) rpc_env \<Rightarrow> bool" where
  "game_untouched X \<longleftrightarrow>
     (\<forall>meth content g answer g'. x_service X meth content g = Inr (answer, g') \<longrightarrow> g' = g) \<and>
     (\<forall>l g. x_closed X l g = g)"

lemma register_moves:
  assumes "register_rpc junk r d g = Inr (response, g')"
  shows "game_moves g g'"
  using register_players [of g junk r d] assms by (auto simp: game_moves_def spec_register_def)

lemma game_instance_players:
  assumes "game_ok g" and "game_instance g = (game, g1)"
  shows "game_ok g1" "players_of g1 = players_of g"
proof -
  obtain a where a: "g_clients game = Some a" "gw_game g1 = Some game" "gw_registries g1 a = Some (registry_of g)"
    "clients_inv (gw_clients g) (registry_of g)" "gw_clients g1 = gw_clients g"
    "\<forall>a \<ge> gw_fresh g1. gw_registries g1 a = None \<and> gw_clients g1 a = None"
    using game_instance_ok [OF assms] by blast
  then have "registry_of g1 = registry_of g" by (simp add: registry_of_def deref_def)
  then show "players_of g1 = players_of g" using a(5) by (simp add: players_of_def)
  show "game_ok g1" using a by (simp add: game_ok_def)
qed

lemma viewport_moves:
  assumes "register_viewport_rpc junk n v d g = Inr (response, g')"
  shows "game_moves g g'"
proof -
  obtain game g1 where gi: "game_instance g = (game, g1)" by fastforce
  have "game_ok (g1\<lparr>gw_ran := ds\<rparr>) = game_ok g1" "players_of (g1\<lparr>gw_ran := ds\<rparr>) = players_of g1" for ds
    by (simp_all add: game_ok_def players_of_def registry_of_def split: option.split)
  then show ?thesis
    using viewport_result [of g junk n v d] game_instance_players [OF _ gi] assms gi
    by (auto simp: game_moves_def split: if_splits)
qed

lemma clients_service_moves:
  assumes "game_untouched X" and "clients_service F junk (x_service X) meth content g = Inr (answer, g')"
  shows "game_moves g g'"
proof -
  have "g' = g" if "x_service X meth content g = Inr (answer, g')"
    using assms(1) that unfolding game_untouched_def by blast
  then show ?thesis
    using assms(2)
    by (auto simp: clients_service_def intro: register_moves viewport_moves split: if_splits option.splits)
qed

interpretation game: service_order "clients_env F junk X" "\<lambda>g g'. game_untouched X \<longrightarrow> game_moves g g'" for F junk X
proof
  fix g h k l meth content answer g'
  show "game_untouched X \<longrightarrow> game_moves g g" by simp
  show "game_untouched X \<longrightarrow> game_moves g k"
    if "game_untouched X \<longrightarrow> game_moves g h" "game_untouched X \<longrightarrow> game_moves h k"
    using that by (auto intro: game_moves_trans)
  show "game_untouched X \<longrightarrow> game_moves g g'" if "x_service (clients_env F junk X) meth content g = Inr (answer, g')"
    using clients_service_moves [of X F junk meth content g answer g'] that by simp
  show "game_untouched X \<longrightarrow> game_moves g (x_closed (clients_env F junk X) l g)"
    unfolding clients_env_simps game_untouched_def by simp
qed

section \<open>Connections that share a game\<close>

record 'b shared_server =
  sh_conns :: "nat \<Rightarrow> ('b, game_world) pconn option"
  sh_game :: game_world

definition with_game :: "game_world \<Rightarrow> ('b, game_world) pconn \<Rightarrow> ('b, game_world) pconn" where
  "with_game g c = on_world (\<lambda>w. w\<lparr>w_app := g\<rparr>) c"

definition shared_accept ::
  "('b, game_world) rpc_env \<Rightarrow> nat \<Rightarrow> meta \<Rightarrow> int \<Rightarrow> int \<Rightarrow> game_world rpc_world \<Rightarrow> 'b shared_server \<Rightarrow> 'b shared_server outcome" where
  "shared_accept X k m0 s0 r0 w s =
     bind_outcome (span X ''Listen.Server'' (Some clients_table) (int k) k m0 s0 r0 (w\<lparr>w_app := sh_game s\<rparr>)) (\<lambda>r.
     case r of None \<Rightarrow> Inr s | Some c \<Rightarrow> Inr (s\<lparr>sh_conns := (sh_conns s)(k \<mapsto> c)\<rparr>))"

definition shared_event :: "('b, game_world) rpc_env \<Rightarrow> nat \<Rightarrow> conn_event \<Rightarrow> 'b shared_server \<Rightarrow> 'b shared_server outcome" where
  "shared_event X k ev s =
     (case sh_conns s k of
        None \<Rightarrow> Inr s
      | Some c \<Rightarrow> bind_outcome (conn_exec (rpc_conn_env X) ev (with_game (sh_game s) c)) (\<lambda>c.
          Inr (s\<lparr>sh_conns := (sh_conns s)(k \<mapsto> c), sh_game := w_app (c_world c)\<rparr>)))"

inductive shared_history :: "('b, game_world) rpc_env \<Rightarrow> game_world \<Rightarrow> 'b shared_server \<Rightarrow> bool" for X g where
  history_start: "shared_history X g \<lparr>sh_conns = Map.empty, sh_game = g\<rparr>"
| history_accept: "shared_history X g s \<Longrightarrow> sh_conns s k = None \<Longrightarrow> shared_accept X k m0 s0 r0 w s = Inr s' \<Longrightarrow>
    shared_history X g s'"
| history_event: "shared_history X g s \<Longrightarrow> sh_conns s k = Some c \<Longrightarrow> event_ok (x_buf X) ev c \<Longrightarrow>
    shared_event X k ev s = Inr s' \<Longrightarrow> shared_history X g s'"
| history_destroy: "shared_history X g s \<Longrightarrow> shared_history X g (s\<lparr>sh_conns := (sh_conns s)(k := None)\<rparr>)"

text \<open>The services of a connection stay those it was given.\<close>

definition services_kept :: "method_table option \<Rightarrow> method_table option \<Rightarrow> bool" where
  "services_kept m n \<longleftrightarrow> n = None \<or> n = m"

definition services_of :: "('b, 'w) pconn \<Rightarrow> method_table option" where
  "services_of c = conn_view (\<lambda>w z. map_option p_service z) c"

lemma services_of_impl: "c_impl c = Some r \<Longrightarrow> services_of c = Some (p_service (raw.more r))"
  by (simp add: services_of_def conn_view_def)

lemma raw_handle_services:
  assumes "conn_ok (x_buf X) proto_ok k a b c" and "raw_handle X m c = Inr (ok, c')"
  shows "services_of c' = services_of c"
proof -
  obtain r ret c1 where r: "raw_this c = Inr r" and sv: "service_handle X (p_service (raw.more r)) m c = Inr (ret, c1)"
    using assms(2) by (auto simp: raw_handle_def)
  have "services_of c1 = services_of c"
    using service_handle_ok [OF assms(1) refl, of "p_service (raw.more r)" m] sv
    by (cases "c_impl c"; cases "c_impl c1") (auto simp: services_of_def conn_view_def)
  then show ?thesis
    using assms(2) r sv by (auto simp: raw_handle_def services_of_def conn_view_def set_table_def on_proto_def raw_this_Inr
        on_world_def split: if_splits option.splits)
qed

interpretation served: monotone_quantity "rpc_conn_env X" "rpc_ok X" "\<lambda>w z. map_option p_service z" services_kept for X
proof
  fix m n p :: "method_table option" and w :: "'b rpc_world" and l r x and k a b bytes ok and c c' :: "('a, 'b) pconn"
  show "services_kept m m" by (simp add: services_kept_def)
  show "services_kept m n \<Longrightarrow> services_kept n p \<Longrightarrow> services_kept m p" by (auto simp: services_kept_def)
  show "services_kept (map_option p_service (Some (raw.more r))) (map_option p_service None)"
    by (simp add: services_kept_def)
  show "services_kept (map_option p_service x) (map_option p_service x)" by (simp add: services_kept_def)
  assume ok: "conn_ok (e_buf (rpc_conn_env X)) (rpc_ok X) k a b c" and dec: "e_decode (rpc_conn_env X) bytes c = Inr (ok, c')"
  then have ok: "conn_ok (x_buf X) proto_ok k a b c" and codec: "codec_ok (x_codec X)" by (simp_all add: conn_ok_rpc)
  obtain r where r: "raw_this c = Inr r" "c_impl c = Some r" "raw_ok (x_buf X) proto_ok r"
    using raw_this_conn_ok [OF ok] by blast
  let ?I = "\<lambda>s. conn_ok (x_buf X) proto_ok k a b s \<and> services_of s = services_of c"
  have keep: "case raw_handle X (d_meta d) s of Inl e \<Rightarrow> True | Inr (ok, s') \<Rightarrow> ?I s'" if "?I s" for d s
    using raw_handle_ok [of "x_buf X" k a b s X "d_meta d"] raw_handle_services [of X k a b s "d_meta d"] that
    by (auto split: sum.splits)
  have "case raw_decode (x_codec X) (\<lambda>d. raw_handle X (d_meta d)) bytes (p_decoder (raw.more r), c) of
      Inl e \<Rightarrow> length_fault e \<or> True | Inr (ok, d', s') \<Rightarrow> dec_inv d' \<and> ?I s'"
    using r(3) ok keep by (intro raw_decode_keeps [OF codec]) (auto simp: raw_ok_def proto_ok_def)
  then show "services_kept (conn_view (\<lambda>w z. map_option p_service z) c) (conn_view (\<lambda>w z. map_option p_service z) c')"
    using dec r(1) by (auto simp: proto_decode_def services_kept_def services_of_def conn_view_def on_proto_def raw_this_Inr split: sum.splits)
qed

definition shared_inv :: "('b, game_world) rpc_env \<Rightarrow> game_world \<Rightarrow> 'b shared_server \<Rightarrow> bool" where
  "shared_inv X g s \<longleftrightarrow> game_moves g (sh_game s) \<and>
     (\<forall>k c. sh_conns s k = Some c \<longrightarrow> conn_inv (x_buf X) (rpc_ok X) c \<and>
        services_kept (Some (Some clients_table)) (services_of c))"

lemma with_game_inv [simp]:
  "conn_inv A M (with_game g c) = conn_inv A M c" "event_ok A ev (with_game g c) = event_ok A ev c"
  "w_app (c_world (with_game g c)) = g" "services_of (with_game g c) = services_of c"
  "conn_ok A M i a b (with_game g c) = conn_ok A M i a b c" "c_impl (with_game g c) = c_impl c"
  "unsent A (with_game g c) = unsent A c"
  by (cases ev; simp add: with_game_def conn_inv_def on_world_def conn_ok_def writes_ok_def services_of_def conn_view_def unsent_def)+

lemma conn_inv_exec_cases:
  assumes "conn_inv A M c"
  shows "conn_ok A M 0 1 1 c \<or> conn_closing c \<or> c_reads c = 0"
  using assms by (auto simp: conn_inv_def)

lemma shared_event_inv:
  assumes laws: "codec_ok (x_codec X)" and X: "game_untouched X"
    and inv: "shared_inv (clients_env F junk X) g s" and c: "sh_conns s k = Some c" "event_ok (x_buf X) ev c"
  shows "case shared_event (clients_env F junk X) k ev s of
      Inl e \<Rightarrow> rpc_fault (clients_env F junk X) e \<and> (\<exists>bytes. ev = ReadDone False bytes)
    | Inr s' \<Rightarrow> shared_inv (clients_env F junk X) g s'"
proof -
  let ?X = "clients_env F junk X" and ?c = "with_game (sh_game s) c"
  have ci: "conn_inv (x_buf ?X) (rpc_ok ?X) ?c" using inv c(1) by (simp add: shared_inv_def)
  have step: "case conn_exec (rpc_conn_env ?X) ev ?c of
      Inl e \<Rightarrow> rpc_fault ?X e \<and> (\<exists>bytes. ev = ReadDone False bytes) | Inr c' \<Rightarrow> conn_inv (x_buf ?X) (rpc_ok ?X) c'"
    using inv_exec [OF ci rpc_decode_ok _, of ev] c(2) by simp
  show ?thesis
  proof (cases "conn_exec (rpc_conn_env ?X) ev ?c")
    case (Inl e)
    then show ?thesis using step c(1) by (simp add: shared_event_def)
  next
    case (Inr c')
    have "game_untouched X \<longrightarrow> game_moves (w_app (c_world ?c)) (w_app (c_world c'))"
      using game.exec_moves [of F junk X ?c ev c'] conn_inv_exec_cases [OF ci] c(2) Inr by (simp add: conn_view_def)
    then have "game_moves g (w_app (c_world c'))"
      using X inv by (auto simp: shared_inv_def intro: game_moves_trans)
    moreover have "services_kept (services_of ?c) (services_of c')"
      using served.exec_moves [of ?X ?c ev c'] conn_inv_exec_cases [OF ci] c(2) Inr by (simp add: services_of_def)
    then have "services_kept (Some (Some clients_table)) (services_of c')"
      using inv c(1) by (fastforce simp: shared_inv_def services_kept_def)
    ultimately show ?thesis using step Inr c(1) inv by (auto simp: shared_event_def shared_inv_def)
  qed
qed

lemma shared_accept_inv:
  assumes laws: "codec_ok (x_codec X)" "buffer_api_ok (x_buf X)" and inv: "shared_inv X g s"
  shows "\<exists>c. shared_accept X k m0 s0 r0 w s = Inr (s\<lparr>sh_conns := (sh_conns s)(k \<mapsto> c)\<rparr>) \<and>
    shared_inv X g (s\<lparr>sh_conns := (sh_conns s)(k \<mapsto> c)\<rparr>)"
proof -
  let ?base = "conn_new (''Listen.Server'' @ ''.span'') (int k) (w\<lparr>w_app := sh_game s\<rparr>)"
  obtain c where c: "attach X (Some clients_table) k m0 s0 r0 ?base = Inr (True, c)" "conn_ok (x_buf X) (rpc_ok X) 0 1 1 c"
    using attach_works [OF laws, of ?base "Some clients_table" k m0 s0 r0] by (auto simp: conn_new_def)
  moreover have "services_of c = Some (Some clients_table)"
    using attach_members [OF c(1)] services_of_impl by (fastforce simp: conn_new_def)
  moreover from c(2) have "conn_inv (x_buf X) (rpc_ok X) c" by (simp add: conn_inv_def conn_ok_def)
  ultimately show ?thesis using inv by (auto simp: shared_accept_def span_def shared_inv_def services_kept_def)
qed

lemma shared_history_inv:
  assumes "shared_history (clients_env F junk X) g s"
    and "codec_ok (x_codec X)" and "buffer_api_ok (x_buf X)" and "game_untouched X"
  shows "shared_inv (clients_env F junk X) g s"
  using assms(1)
proof (induction rule: shared_history.induct)
  case history_start
  then show ?case by (simp add: shared_inv_def)
next
  case (history_accept s k m0 s0 r0 w s')
  then show ?case
    using shared_accept_inv [of "clients_env F junk X" g s k m0 s0 r0 w] assms(2,3) by auto
next
  case (history_event s k c ev s')
  then show ?case
    using shared_event_inv [OF assms(2,4) history_event.IH, of k c ev] by simp
next
  case (history_destroy s k)
  then show ?case by (auto simp: shared_inv_def)
qed

lemma players_distinct:
  assumes "game_ok g"
  shows "distinct (map fst (players_of g))"
proof (cases "gw_game g")
  case None
  then show ?thesis by (simp add: players_of_def registry_of_def cc_new_def)
next
  case (Some h)
  with assms have inv: "clients_inv (gw_clients g) (registry_of g)"
    by (auto simp: game_ok_def registry_of_def deref_def)
  have "login_of (gw_clients g) p = Some (fst (player_of (gw_clients g) p))" if "p \<in> set (cc_items (registry_of g))" for p
  proof -
    from inv that obtain l where "login_of (gw_clients g) p = Some l"
      by (cases "login_of (gw_clients g) p") (force simp: clients_inv_def)+
    then show ?thesis using login_of_SomeD [of "gw_clients g" p l] by (auto simp: player_of_def)
  qed
  then have "map (login_of (gw_clients g)) (cc_items (registry_of g)) = map Some (map fst (players_of g))"
    by (simp add: players_of_def)
  then have "distinct (map Some (map fst (players_of g)))" using inv unfolding clients_inv_def by metis
  then show ?thesis unfolding distinct_map [of Some] by blast
qed

text \<open>
  C2. \<^bold>\<open>One game, many clients.\<close> Whatever any number of clients send, in any order and cut anywhere, with connections accepted, failing and
  destroyed in between: the game stays well-formed, no two players have the same login, and a player once registered keeps number,
  login and password for ever. Every event of every connection is handled to its end, except that a read may fault: on
  a length no frame can have, on a response that does not serialise, or in a service.
\<close>

theorem shared_game_safe:
  assumes "codec_ok (x_codec X)" and "buffer_api_ok (x_buf X)" and "game_untouched X" and "game_ok g"
    and "shared_history (clients_env F junk X) g s"
  shows "game_ok (sh_game s) \<and> distinct (map fst (players_of (sh_game s))) \<and>
    prefix (players_of g) (players_of (sh_game s)) \<and>
    (\<forall>k c ev. sh_conns s k = Some c \<longrightarrow> event_ok (x_buf X) ev c \<longrightarrow>
       (case shared_event (clients_env F junk X) k ev s of
          Inl e \<Rightarrow> rpc_fault (clients_env F junk X) e \<and> (\<exists>bytes. ev = ReadDone False bytes)
        | Inr s' \<Rightarrow> game_ok (sh_game s') \<and> prefix (players_of (sh_game s)) (players_of (sh_game s'))))"
proof -
  have inv: "shared_inv (clients_env F junk X) g s" using shared_history_inv assms(5,1,2,3) .
  then have g: "game_ok (sh_game s)" "prefix (players_of g) (players_of (sh_game s))"
    using assms(4) by (auto simp: shared_inv_def game_moves_def)
  have "case shared_event (clients_env F junk X) k ev s of
      Inl e \<Rightarrow> rpc_fault (clients_env F junk X) e \<and> (\<exists>bytes. ev = ReadDone False bytes)
    | Inr s' \<Rightarrow> game_ok (sh_game s') \<and> prefix (players_of (sh_game s)) (players_of (sh_game s'))"
    if "sh_conns s k = Some c" "event_ok (x_buf X) ev c" for k c ev
  proof -
    have "shared_inv (clients_env F junk X) (sh_game s) s" using inv by (simp add: shared_inv_def)
    from shared_event_inv [OF assms(1,3) this that] show ?thesis
      using g by (auto simp: shared_inv_def game_moves_def split: sum.splits)
  qed
  then show ?thesis using g players_distinct by blast
qed

section \<open>A registration at any time\<close>

text \<open>A read of one whole request by a working connection.\<close>

lemma read_served:
  assumes ok: "conn_ok (x_buf X) (rpc_ok X) 0 1 1 c" and r: "c_impl c = Some r" and aw: "awaiting (p_decoder (raw.more r))"
    and t: "p_service (raw.more r) = Some t" "map_of t (m_identify m) = Some meth"
    and x: "x_parse_request X meth (m_content m)"
      "x_service X meth (m_content m) (w_app (c_world c)) = Inr (Some (Some answer), app)"
    and fits: "sendable (x_codec X) m"
  shows "\<exists>c'. conn_exec (rpc_conn_env X) (ReadDone False (frame_of (x_codec X) m)) c = Inr c' \<and>
    conn_ok (x_buf X) (rpc_ok X) 0 1 1 c' \<and> w_app (c_world c') = app \<and>
    unsent (x_buf X) c' = unsent (x_buf X) c @ frame_of (x_codec X) (response_to m answer)"
proof -
  let ?A = "x_buf X"
  let ?c = "on_status lock_shared (c\<lparr>c_reads := c_reads c - 1\<rparr>)"
  have codec: "codec_ok (x_codec X)" and pok: "conn_ok ?A proto_ok 0 1 1 c" using ok by (simp_all add: conn_ok_rpc)
  have "conn_ok ?A proto_ok 0 0 1 (c\<lparr>c_reads := c_reads c - 1\<rparr>)"
    using conn_ok_reads(1) [OF pok] conn_okD(4) [OF pok] by fastforce
  then have locked: "conn_ok ?A proto_ok (Suc 0) 0 1 ?c" by (rule conn_ok_lock)
  have same: "c_impl ?c = Some r" "c_world ?c = c_world c" "unsent ?A ?c = unsent ?A c"
    using r by (simp_all add: on_status_def unsent_def)
  obtain c1 where c1: "raw_handle X m ?c = Inr (True, c1)" "conn_ok ?A proto_ok (Suc 0) 0 1 c1" "w_app (c_world c1) = app"
      "unsent ?A c1 = unsent ?A c @ frame_of (x_codec X) (response_to m answer)"
    using serve_request [OF locked refl same(1) t x(1), of answer app] x(2) same by auto
  obtain r1 where r1: "c_impl c1 = Some r1" using conn_okD(6) [OF c1(2)] by blast
  obtain d where dec: "proto_decode X (frame_of (x_codec X) m) ?c =
      Inr (True, c1\<lparr>c_impl := Some (on_proto (\<lambda>p. p\<lparr>p_decoder := dec_reset d\<rparr>) r1)\<rparr>)"
    using proto_decode_frame [OF same(1) aw codec fits c1(1) r1] by blast
  let ?d = "c1\<lparr>c_impl := Some (on_proto (\<lambda>p. p\<lparr>p_decoder := dec_reset d\<rparr>) r1)\<rparr>"
  have d: "conn_ok ?A proto_ok (Suc 0) 0 1 ?d"
    using proto_decode_ok [OF locked refl codec, of "frame_of (x_codec X) m"] dec by simp
  have du: "unsent ?A ?d = unsent ?A c1" using r1 by (simp add: unsent_def)
  obtain c2 where c2: "async_read ?d = Inr c2" "conn_ok ?A proto_ok (Suc 0) (Suc 0) 1 c2" "unsent ?A c2 = unsent ?A ?d"
    using async_read_ok [OF d] by blast
  have w2: "c_world c2 = c_world ?d" using c2(1) by (auto simp: async_read_def)
  obtain c3 where c3: "conn_unlock c2 = Inr c3" "conn_ok ?A proto_ok 0 (Suc 0) 1 c3" "c_world c3 = c_world c2" "c_impl c3 = c_impl c2"
    using conn_ok_unlock [OF c2(2)] by blast
  have "conn_exec (rpc_conn_env X) (ReadDone False (frame_of (x_codec X) m)) c = Inr c3"
    using conn_okD(2) [OF pok] conn_okD(3) [OF locked] dec c2(1) c3(1)
    by (simp add: read_done_def guarded_live handle_read_def)
  moreover have "unsent ?A c3 = unsent ?A c2" using c3(4) by (simp add: unsent_def)
  ultimately show ?thesis
    using c3 c2(3) w2 du c1(3,4) codec by (simp add: conn_ok_rpc)
qed

text \<open>
  C4. \<^bold>\<open>Every registration is answered as the abstract one.\<close> After any history of a server, whoever has sent what, a client whose connection
  works and is between two frames sends a request to register: the players of the one game become those of the abstract registration,
  its connection and no other gets exactly the frame of the abstract answer to send, and the rest of the server is as it was.
\<close>

theorem any_client_registers:
  assumes laws: "codec_ok (x_codec X)" "buffer_api_ok (x_buf X)" "game_untouched X"
    and game: "game_ok g" "length (players_of (sh_game s)) < 2 ^ 32 - 1"
    and history: "shared_history (clients_env F junk X) g s"
    and conn: "sh_conns s k = Some c" "\<not> conn_closing c" "c_reads c > 0" "c_impl c = Some raw" "awaiting (p_decoder (raw.more raw))"
    and format: "fm_request F content = Some r" "fm_response F (fst (spec_register r (players_of (sh_game s)))) = Some answer"
    and fits: "sendable (x_codec X) (request_meta ''protocol.clients.Register'' i content)"
  shows "\<exists>c' g'. shared_event (clients_env F junk X) k
        (ReadDone False (frame_of (x_codec X) (request_meta ''protocol.clients.Register'' i content))) s =
      Inr (s\<lparr>sh_conns := (sh_conns s)(k \<mapsto> c'), sh_game := g'\<rparr>) \<and>
    players_of g' = snd (spec_register r (players_of (sh_game s))) \<and>
    unsent (x_buf X) c' = unsent (x_buf X) c @
      frame_of (x_codec X) (response_to (request_meta ''protocol.clients.Register'' i content) answer)"
proof -
  let ?X = "clients_env F junk X" and ?m = "request_meta ''protocol.clients.Register'' i content" and ?c = "with_game (sh_game s) c"
  have inv: "shared_inv ?X g s" using shared_history_inv history laws .
  have ci: "conn_inv (x_buf X) (rpc_ok ?X) c" and "services_kept (Some (Some clients_table)) (services_of c)"
    using inv conn(1) by (auto simp: shared_inv_def)
  then have service: "p_service (raw.more raw) = Some clients_table"
    using services_of_impl [OF conn(4)] by (simp add: services_kept_def)
  have ok: "conn_ok (x_buf X) (rpc_ok ?X) 0 1 1 c" using ci conn(2,4) by (auto simp: conn_inv_def)
  have "game_ok (sh_game s)" using inv game(1) by (simp add: shared_inv_def game_moves_def)
  then obtain response g' where reg: "register_rpc junk r 0 (sh_game s) = Inr (response, g')"
      "(response, players_of g') = spec_register r (players_of (sh_game s))"
    using register_implements [OF _ game(2)] by blast
  have serve: "x_service ?X ''protocol.clients.Register'' (m_content ?m) (w_app (c_world ?c)) = Inr (Some (Some answer), g')"
    using reg(1) format reg(2) [symmetric] by (simp add: clients_service_def request_meta_def)
  obtain c' where c': "conn_exec (rpc_conn_env ?X) (ReadDone False (frame_of (x_codec X) ?m)) ?c = Inr c'"
      "w_app (c_world c') = g'" "unsent (x_buf X) c' = unsent (x_buf X) c @ frame_of (x_codec X) (response_to ?m answer)"
    using read_served [where X = ?X and c = ?c and r = raw and t = clients_table and m = ?m
        and meth = "''protocol.clients.Register''" and answer = answer and app = g'] ok conn(4,5) service format(1) serve fits
      clients_table_Register
    by (auto simp: request_meta_def)
  have "players_of g' = snd (spec_register r (players_of (sh_game s)))" using reg(2) by (metis snd_conv)
  then show ?thesis using c' conn(1) by (auto simp: shared_event_def)
qed

section \<open>A server with one client\<close>

lemma shared_demo_laws:
  "codec_ok (x_codec demo_rpc)" "buffer_api_ok (x_buf demo_rpc)" "game_untouched demo_rpc" "game_ok demo_game"
  "players_of demo_game = []"
  by (simp_all add: demo_rpc_def text_codec_ok game_untouched_def demo_game_def game_ok_def players_of_def
      registry_of_def cc_new_def)

lemma shared_demo_accepted:
  "\<exists>s c r. shared_history (clients_env demo_format 0 demo_rpc) demo_game s \<and> sh_conns s 1 = Some c \<and> sh_game s = demo_game \<and>
     \<not> conn_closing c \<and> c_reads c > 0 \<and> c_impl c = Some r \<and> awaiting (p_decoder (raw.more r))"
proof -
  let ?X = "clients_env demo_format 0 demo_rpc" and ?s = "\<lparr>sh_conns = Map.empty, sh_game = demo_game\<rparr> :: string shared_server"
  let ?base = "conn_new (''Listen.Server'' @ ''.span'') (int 1) (demo_world\<lparr>w_app := sh_game ?s\<rparr>) :: (string, game_world) pconn"
  have laws: "codec_ok (x_codec ?X)" "buffer_api_ok (x_buf ?X)" using shared_demo_laws by simp_all
  obtain c where c: "attach ?X (Some clients_table) 1 demo_request 0 0 ?base = Inr (True, c)" "conn_ok (x_buf ?X) (rpc_ok ?X) 0 1 1 c"
    using attach_works [OF laws, of ?base "Some clients_table" 1 demo_request 0 0] by (auto simp: conn_new_def)
  obtain r where r: "c_impl c = Some r" "awaiting (p_decoder (raw.more r))"
    using attach_members [OF c(1)] by (auto simp: conn_new_def)
  have "shared_accept ?X 1 demo_request 0 0 demo_world ?s = Inr (?s\<lparr>sh_conns := (sh_conns ?s)(1 \<mapsto> c)\<rparr>)"
    using c(1) by (simp add: shared_accept_def span_def)
  then have "shared_history ?X demo_game (?s\<lparr>sh_conns := (sh_conns ?s)(1 \<mapsto> c)\<rparr>)"
    by (intro history_accept [where k = 1, OF history_start]) simp_all
  then show ?thesis using r conn_okD(2,4) [OF c(2)]
    by (intro exI [of _ "?s\<lparr>sh_conns := (sh_conns ?s)(1 \<mapsto> c)\<rparr>"] exI [of _ c] exI [of _ r]) simp
qed

theorem any_client_registers_witness:
  "\<exists>s s'. shared_history (clients_env demo_format 0 demo_rpc) demo_game s \<and>
     shared_event (clients_env demo_format 0 demo_rpc) 1
       (ReadDone False (frame_of text_codec (request_meta ''protocol.clients.Register'' 5 ''test''))) s = Inr s' \<and>
     players_of (sh_game s') = [(''test'', [])]"
proof -
  obtain s c r where s: "shared_history (clients_env demo_format 0 demo_rpc) demo_game s" "sh_conns s 1 = Some c"
    "sh_game s = demo_game" "\<not> conn_closing c" "c_reads c > 0" "c_impl c = Some r" "awaiting (p_decoder (raw.more r))"
    using shared_demo_accepted by blast
  have "sendable (x_codec demo_rpc) (request_meta ''protocol.clients.Register'' 5 ''test'')"
    unfolding demo_rpc_def by (auto intro!: text_sendable simp: request_meta_def meta_acceptable_def)
  from any_client_registers [OF shared_demo_laws(1-4) _ s(1,2,4-7) _ _ this, of "\<lparr>rq_login = ''test'', rq_password = None\<rparr>" "''ok''"]
  show ?thesis using s shared_demo_laws(5)
    by (force simp: demo_format_def spec_register_def granted_def demo_rpc_def)
qed

theorem shared_game_safe_witness:
  "\<exists>s. shared_history (clients_env demo_format 0 demo_rpc) demo_game s \<and> sh_conns s 1 \<noteq> None \<and>
     game_ok (sh_game s) \<and> distinct (map fst (players_of (sh_game s)))"
proof -
  obtain s c where s: "shared_history (clients_env demo_format 0 demo_rpc) demo_game s" "sh_conns s 1 = Some c"
    using shared_demo_accepted by blast
  with shared_game_safe [OF shared_demo_laws(1-4) s(1)] show ?thesis by auto
qed

end
