(* ===== verification/Programs.thy ===== *)
theory Programs
  imports Game_Service
begin

text \<open>
  The \<open>main\<close> functions: \<open>src/server/main.cpp\<close> with its test of the lua interpreter, and
  \<open>src/client/ClientMain.cpp\<close>. The lua library is a parameter (\<open>lua_api\<close>), as are the texts of numbers
  and errors. Both programs end in a loop that sleeps until a flag is set; a loop that never ends has the result \<open>None\<close>.
\<close>

section \<open>Sleeping until a flag is set\<close>

text \<open>\<open>flag n\<close>: what the flag holds after \<open>n\<close> sleeps; the result is the number of sleeps.\<close>

partial_function (option) sleep_until :: "(nat \<Rightarrow> bool) \<Rightarrow> nat \<Rightarrow> nat option" where
  "sleep_until flag n = (if flag n then Some n else sleep_until flag (Suc n))"

lemma sleep_until_returns:
  "flag (n + k) \<Longrightarrow> \<exists>m. sleep_until flag n = Some m \<and> flag m \<and> n \<le> m \<and> m \<le> n + k"
proof (induction k arbitrary: n)
  case 0
  then show ?case by (simp add: sleep_until.simps [of flag n])
next
  case (Suc k)
  show ?case
  proof (cases "flag n")
    case True
    then show ?thesis by (simp add: sleep_until.simps [of flag n])
  next
    case False
    obtain m where "sleep_until flag (Suc n) = Some m" "flag m" "Suc n \<le> m" "m \<le> Suc n + k"
      using Suc.IH [of "Suc n"] Suc.prems by auto
    then show ?thesis using False by (intro exI [of _ m]) (simp add: sleep_until.simps [of flag n])
  qed
qed

lemma sleep_until_sound:
  "sleep_until flag n = Some m \<Longrightarrow> n \<le> m \<and> flag m"
  by (rule sleep_until.raw_induct [of "\<lambda>flag n m. n \<le> m \<and> flag m" flag n m])
    (auto split: if_splits dest: Suc_leD)

lemma sleep_until_never: "(\<And>m. n \<le> m \<Longrightarrow> \<not> flag m) \<Longrightarrow> sleep_until flag n = None"
  using sleep_until_sound [of flag n] by (cases "sleep_until flag n") auto

section \<open>The lua test\<close>

datatype program_output =
    Cerr string      \<comment> \<open>a line\<close>
  | Cout string
  | LuaClose         \<comment> \<open>\<open>lua_close\<close>\<close>

text \<open>
  The calls of the lua library. \<open>lua_tostring\<close> gives a null pointer for a value that is neither a string nor a number;
  \<open>lua_pcall\<close> runs the loaded program, given the function it knows as \<open>PrintNumber\<close>.
\<close>

record 'l lua_api =
  lua_open :: 'l
  luaopen_base :: "'l \<Rightarrow> 'l"
  lua_register :: "string \<Rightarrow> 'l \<Rightarrow> 'l"
  luaL_loadfile :: "string \<Rightarrow> 'l \<Rightarrow> int \<times> 'l"
  lua_pcall :: "('l \<Rightarrow> (int \<times> program_output list \<times> 'l) outcome) \<Rightarrow> 'l \<Rightarrow> (int \<times> program_output list \<times> 'l) outcome"
  lua_gettop :: "'l \<Rightarrow> nat"
  lua_tostring :: "int \<Rightarrow> 'l \<Rightarrow> string option \<times> 'l"
  lua_isnumber :: "int \<Rightarrow> 'l \<Rightarrow> bool"
  lua_tonumber_text :: "int \<Rightarrow> 'l \<Rightarrow> string"
  lua_pushnumber :: "int \<Rightarrow> 'l \<Rightarrow> 'l"
  lua_pop :: "nat \<Rightarrow> 'l \<Rightarrow> 'l"
  nat_text :: "nat \<Rightarrow> string"
  error_text :: "int \<Rightarrow> string \<Rightarrow> string"   \<comment> \<open>the line \<open>error( 0, status, ... )\<close> writes\<close>

text \<open>The loop of \<open>LS_PrintNumber\<close>, for \<open>k\<close> arguments from number \<open>n\<close> on.\<close>

fun print_arguments :: "'l lua_api \<Rightarrow> nat \<Rightarrow> nat \<Rightarrow> 'l \<Rightarrow> (program_output list \<times> 'l) outcome" where
  "print_arguments A n 0 l = Inr ([], l)"
| "print_arguments A n (Suc k) l =
     (case lua_tostring A (int n) l of
        (None, l) \<Rightarrow> Inl NullDeref
      | (Some s, l) \<Rightarrow> bind_outcome (print_arguments A (Suc n) k l) (\<lambda>(out, l).
          Inr (Cerr (''-- argument '' @ nat_text A n @ '': '' @ s) # out, l)))"

definition LS_PrintNumber :: "'l lua_api \<Rightarrow> 'l \<Rightarrow> (int \<times> program_output list \<times> 'l) outcome" where
  "LS_PrintNumber A l =
     bind_outcome (print_arguments A 1 (lua_gettop A l) l) (\<lambda>(out, l).
     let out = out @ (if lua_isnumber A 1 l then [Cout (lua_tonumber_text A 1 l)] else [])
     in Inr (1, out, lua_pushnumber A 123 l))"

definition report_errors :: "'l lua_api \<Rightarrow> int \<Rightarrow> 'l \<Rightarrow> (program_output list \<times> 'l) outcome" where
  "report_errors A status l =
     (if status \<noteq> 0
      then (case lua_tostring A (- 1) l of
              (None, l) \<Rightarrow> Inl NullDeref
            | (Some s, l) \<Rightarrow> Inr ([Cerr (''-- '' @ s)], lua_pop A 1 l))
      else Inr ([], l))"

definition testLua :: "'l lua_api \<Rightarrow> program_output list outcome" where
  "testLua A =
     (let l = lua_register A ''PrintNumber'' (luaopen_base A (lua_open A));
          (status, l) = luaL_loadfile A ''test.lua'' l
      in if status \<noteq> 0
         then let s = (case fst (lua_tostring A (- 1) l) of None \<Rightarrow> ''(null)'' | Some s \<Rightarrow> s)
              in Inr [Cerr (error_text A status (''cannot run lua file: '' @ s))]
         else
           bind_outcome (lua_pcall A (LS_PrintNumber A) l) (\<lambda>(status, out, l).
           bind_outcome (report_errors A status l) (\<lambda>(errors, l).
           Inr (out @ errors @ [LuaClose]))))"

section \<open>The server\<close>

text \<open>The server when the address cannot be bound: \<open>Listen\<close> has started the services and the timers and throws.\<close>

definition listen_throws :: "('b, 'z, 'w) server \<Rightarrow> ('b, 'z, 'w) server outcome" where
  "listen_throws s =
     bind_outcome (iop_start (s_pool s)) (\<lambda>pool.
     bind_outcome (iop_get pool) (\<lambda>(io_acceptor, pool).
     Inr (s\<lparr>s_pool := pool, s_timers := tm_start (s_timers s)\<rparr>)))"

text \<open>
  \<open>main\<close>: what it has printed, and the number of its sleeps if it returns. \<open>hup\<close> is a local variable that nothing sets. The
  exception of \<open>Listen\<close> destroys the server before its text is printed.
\<close>

definition server_program ::
  "'l lua_api \<Rightarrow> ('b, 'z, 'w) server_env \<Rightarrow> (nat pool \<Rightarrow> nat pool) \<Rightarrow> string \<Rightarrow> bool \<Rightarrow> (program_output list \<times> nat option) outcome" where
  "server_program A E joins what sys =
     bind_outcome (testLua A) (\<lambda>log.
     let log = Cout ''Hello! '' # log in
     if sys then
       bind_outcome (server_main True :: (method_table \<times> ('b, 'z, 'w) server) outcome) (\<lambda>_.
       Inr (log, sleep_until (\<lambda>_. False) 0))
     else
       bind_outcome (register_service clients_methods None) (\<lambda>_.
       bind_outcome (listen_throws (server_new 2 4 (- 1))) (\<lambda>s.
       bind_outcome (delete_server E joins s) (\<lambda>_.
       Inr (log @ [Cerr what], Some 0)))))"

section \<open>The client\<close>

text \<open>\<open>ClientCallDone\<close> logs the response, with 0 for what it does not hold, and sets \<open>done\<close>.\<close>

definition client_call_done :: "(u32 \<Rightarrow> string) \<Rightarrow> client_response \<Rightarrow> string" where
  "client_call_done text response =
     ''code: '' @ text (case gr_code (cr_response response) of Some c \<Rightarrow> c | None \<Rightarrow> 0) @
     '', id: '' @ text (case cr_client response of Some i \<Rightarrow> i | None \<Rightarrow> 0)"

text \<open>\<open>main\<close> sleeps until the closure \<open>d\<close> of its call has run; \<open>worlds n\<close> is the state after \<open>n\<close> sleeps.\<close>

definition client_program :: "nat \<Rightarrow> (nat \<Rightarrow> 'w rpc_world) \<Rightarrow> nat option" where
  "client_program d worlds = sleep_until (\<lambda>n. RunDone d \<in> set (w_log (worlds n))) 0"

section \<open>What the programs do\<close>

text \<open>A lua program that calls \<open>PrintNumber\<close> with a value that has no text, such as \<open>nil\<close>, makes the server print a null pointer.\<close>

theorem print_nil_faults:
  assumes "0 < lua_gettop A l" and "fst (lua_tostring A 1 l) = None"
  shows "LS_PrintNumber A l = Inl NullDeref"
  using assms by (cases "lua_gettop A l"; cases "lua_tostring A 1 l") (simp_all add: LS_PrintNumber_def)

text \<open>The state of the interpreter is closed exactly when the file could be loaded.\<close>

theorem lua_state_leaks:
  assumes "testLua A = Inr lines"
  shows "lines \<noteq> [] \<and> (last lines = LuaClose \<longleftrightarrow>
    fst (luaL_loadfile A ''test.lua'' (lua_register A ''PrintNumber'' (luaopen_base A (lua_open A)))) = 0)"
  using assms by (auto simp: testLua_def Let_def split: prod.splits if_splits)

text \<open>
  The server program either serves for ever, as nothing sets \<open>hup\<close>, or cannot bind its address: then it stops what \<open>Listen\<close> has
  started, prints the error and returns.
\<close>

theorem server_program_result:
  assumes "testLua A = Inr lines"
  shows "server_program A (E :: ('b, 'z, 'w) server_env) joins what sys =
    Inr (if sys then (Cout ''Hello! '' # lines, None) else (Cout ''Hello! '' # lines @ [Cerr what], Some 0))"
proof (cases sys)
  case True
  obtain s :: "('b, 'z, 'w) server" where "server_main True = Inr (Some clients_table, s)"
    using server_comes_up by blast
  moreover have "sleep_until (\<lambda>_. False) 0 = None" by (rule sleep_until_never) simp
  ultimately show ?thesis using True assms by (simp add: server_program_def)
next
  case False
  let ?s = "server_new 2 4 (- 1) :: ('b, 'z, 'w) server"
  have new: "pool_ready (s_pool ?s)" "s_channels ?s = []" "s_acceptors ?s = []" "s_notifier ?s = notifier_new 1" "s_stop_shared ?s = 0"
    by (simp_all add: server_new_def pool_ready_def iop_new_def)
  obtain p where p: "iop_start (s_pool ?s) = Inr p" "pool_ready p" "iop_is_running p"
    using pool_ready_start [OF new(1)] by blast
  obtain n p' where get: "iop_get p = Inr (n, p')" "iop_is_running p'"
    using pool_ready_get [OF p(2)] p by blast
  let ?t = "?s\<lparr>s_pool := p', s_timers := tm_start (s_timers ?s)\<rparr>"
  have "listen_throws ?s = Inr ?t" using p get by (simp add: listen_throws_def)
  moreover have "\<exists>s. delete_server E joins ?t = Inr s"
    using new get(2) by (simp add: release_all_def delete_server_def stop_def notifier_new_def notifier_dec_def notifier_wait_def Let_def in_i32_def INT_MAX_def INT_MIN_def)
  ultimately show ?thesis using False assms clients_registered by (auto simp: server_program_def)
qed

text \<open>
  The client program returns once the closure of its call has run, which \<open>user_registers\<close> and \<open>unreachable_server\<close> show to happen; until then
  it sleeps.
\<close>

theorem client_program_result:
  "client_program d worlds \<noteq> None \<longleftrightarrow> (\<exists>n. RunDone d \<in> set (w_log (worlds n)))"
proof
  assume "client_program d worlds \<noteq> None"
  then obtain m where "client_program d worlds = Some m" by blast
  then show "\<exists>n. RunDone d \<in> set (w_log (worlds n))" using sleep_until_sound unfolding client_program_def by blast
next
  assume "\<exists>n. RunDone d \<in> set (w_log (worlds n))"
  then show "client_program d worlds \<noteq> None"
    using sleep_until_returns [of "\<lambda>n. RunDone d \<in> set (w_log (worlds n))" 0] by (auto simp: client_program_def)
qed

lemma callback_runs_done:
  assumes "k_done call = Some d"
  shows "RunDone d \<in> set (call_method_callback X call m)"
  using assms by (simp add: call_method_callback_def run_closure_def)

text \<open>The response of a call that failed is the untouched one: the log of the client then says that all went well.\<close>

theorem failure_reads_as_success:
  "client_call_done text \<lparr>cr_response = \<lparr>gr_code = None, gr_text = None, gr_close = None\<rparr>, cr_client = None\<rparr> =
   client_call_done text \<lparr>cr_response = \<lparr>gr_code = Some 0, gr_text = None, gr_close = None\<rparr>, cr_client = Some 0\<rparr>"
  by (simp add: client_call_done_def)

end
