(* ===== verification/Closures.thy ===== *)
theory Closures
  imports Rpc
begin

text \<open>
  The objects behind the closures, \<open>src/core/network/Closure.hpp\<close>: what \<open>NewClosure\<close> returns deletes itself when it is run, what
  \<open>NewPermenantClosure\<close> returns stays. \<open>Rpc\<close> shows that a connection runs every closure it was given once; here it follows
  that none of them is run after its deletion and none leaks.
\<close>

section \<open>Closures in the heap\<close>

datatype 'f closure = OnceClosure 'f | PermenantClosure 'f

record 'f closure_heap =
  ch_next :: nat
  ch_objects :: "nat \<Rightarrow> 'f closure option"

definition heap_new :: "'f closure \<Rightarrow> 'f closure_heap \<Rightarrow> nat \<times> 'f closure_heap" where
  "heap_new c h = (ch_next h, h\<lparr>ch_next := Suc (ch_next h), ch_objects := (ch_objects h)(ch_next h \<mapsto> c)\<rparr>)"

definition NewClosure :: "'f \<Rightarrow> 'f closure_heap \<Rightarrow> nat \<times> 'f closure_heap" where
  "NewClosure f = heap_new (OnceClosure f)"

definition NewPermenantClosure :: "'f \<Rightarrow> 'f closure_heap \<Rightarrow> nat \<times> 'f closure_heap" where
  "NewPermenantClosure f = heap_new (PermenantClosure f)"

text \<open>\<open>Run\<close>; the functions called are collected. A closure calls its function before it deletes itself.\<close>

definition closure_Run :: "nat \<Rightarrow> 'f list \<times> 'f closure_heap \<Rightarrow> ('f list \<times> 'f closure_heap) outcome" where
  "closure_Run a = (\<lambda>(out, h).
     case ch_objects h a of
       None \<Rightarrow> Inl UseAfterFree
     | Some (OnceClosure f) \<Rightarrow> Inr (out @ [f], h\<lparr>ch_objects := (ch_objects h)(a := None)\<rparr>)
     | Some (PermenantClosure f) \<Rightarrow> Inr (out @ [f], h))"

definition delete_scoped_closure :: "nat option \<Rightarrow> 'f list \<times> 'f closure_heap \<Rightarrow> ('f list \<times> 'f closure_heap) outcome" where
  "delete_scoped_closure c s = (case c of Some a \<Rightarrow> closure_Run a s | None \<Rightarrow> Inr s)"

section \<open>Sequences of runs\<close>

fun closure_function :: "'f closure \<Rightarrow> 'f" where
  "closure_function (OnceClosure f) = f"
| "closure_function (PermenantClosure f) = f"

fun is_once :: "'f closure \<Rightarrow> bool" where
  "is_once (OnceClosure f) = True"
| "is_once (PermenantClosure f) = False"

definition runs_allowed :: "nat list \<Rightarrow> 'f closure_heap \<Rightarrow> bool" where
  "runs_allowed as h \<longleftrightarrow> (\<forall>a \<in> set as. \<exists>c. ch_objects h a = Some c \<and> (is_once c \<longrightarrow> count_list as a = 1))"

lemma Run_result:
  assumes "ch_objects h a = Some c"
  shows "closure_Run a (out, h) = Inr (out @ [closure_function c],
    if is_once c then h\<lparr>ch_objects := (ch_objects h)(a := None)\<rparr> else h)"
  using assms by (cases c) (simp_all add: closure_Run_def)

definition objects_after :: "nat list \<Rightarrow> 'f closure_heap \<Rightarrow> nat \<Rightarrow> 'f closure option" where
  "objects_after as h a =
     (case ch_objects h a of Some (OnceClosure f) \<Rightarrow> (if a \<in> set as then None else Some (OnceClosure f)) | c \<Rightarrow> c)"

lemma objects_after_simps:
  "objects_after [] h = ch_objects h"
  "ch_objects h a = Some c \<Longrightarrow> \<not> is_once c \<Longrightarrow> objects_after (a # as) h = objects_after as h"
  "ch_objects h a = Some c \<Longrightarrow> is_once c \<Longrightarrow>
    objects_after (a # as) h = objects_after as (h\<lparr>ch_objects := (ch_objects h)(a := None)\<rparr>)"
  by (auto simp: objects_after_def fun_eq_iff split: option.splits closure.splits)

text \<open>
  A sequence of runs goes through exactly when every closure in it exists and no once closure occurs twice; it calls the functions in
  order and deletes exactly the once closures.
\<close>

lemma runs_result:
  "fold_outcome closure_Run as (out, h) = Inr s \<longleftrightarrow> runs_allowed as h \<and>
    s = (out @ map (\<lambda>a. closure_function (the (ch_objects h a))) as,
         h\<lparr>ch_objects := objects_after as h\<rparr>)"
proof (induction as arbitrary: out h)
  case Nil
  then show ?case by (auto simp: runs_allowed_def objects_after_simps)
next
  case (Cons a as)
  show ?case
  proof (cases "ch_objects h a")
    case None
    then show ?thesis by (auto simp: closure_Run_def runs_allowed_def)
  next
    case (Some c)
    show ?thesis
    proof (cases "is_once c")
      case False
      then have "runs_allowed (a # as) h \<longleftrightarrow> runs_allowed as h"
        using Some by (auto simp: runs_allowed_def)
      then show ?thesis using Some False by (auto simp: Run_result Cons.IH objects_after_simps)
    next
      case True
      let ?h = "h\<lparr>ch_objects := (ch_objects h)(a := None)\<rparr>"
      have allowed: "runs_allowed (a # as) h \<longleftrightarrow> runs_allowed as ?h"
        using Some True by (fastforce simp: runs_allowed_def count_list_0_iff)
      show ?thesis
      proof (cases "a \<in> set as")
        case True
        then have "\<not> runs_allowed as ?h" by (auto simp: runs_allowed_def)
        then show ?thesis using Some \<open>is_once c\<close> allowed by (simp add: Run_result Cons.IH)
      next
        case False
        then have "map (\<lambda>b. closure_function (the (ch_objects ?h b))) as = map (\<lambda>b. closure_function (the (ch_objects h b))) as"
          by auto
        then show ?thesis using Some \<open>is_once c\<close> allowed False by (auto simp: Run_result Cons.IH objects_after_simps)
      qed
    qed
  qed
qed

section \<open>The closures of a connection\<close>

definition closures_run :: "rpc_event list \<Rightarrow> nat list" where
  "closures_run es = concat (map (\<lambda>e. case e of RunDone d \<Rightarrow> [d] | _ \<Rightarrow> []) es)"

lemma closures_run_ran: "mset (closures_run es) = ran_in es"
  by (simp add: closures_run_def ran_in_def)

text \<open>
  C16. A connection that is given closures from \<open>NewClosure\<close>, each once, over any history up to its destruction: every closure is
  run while it exists, its function is called once, and in the end none of them is left.
\<close>

theorem call_closures_freed:
  assumes "conn_inv (x_buf X) (rpc_ok X) c0" and "rpc_run X c0 ds c" and "ran c0 = {#}" and "waiting c0 = {#}"
    and "delete_conn (rpc_conn_env X) c = Inr w"
    and once: "\<forall>d \<in># ds. count ds d = 1 \<and> (\<exists>f. ch_objects h d = Some (OnceClosure f))"
  shows "\<exists>out h'. fold_outcome closure_Run (closures_run (w_log w)) ([], h) = Inr (out, h') \<and>
    mset out = {# closure_function (the (ch_objects h d)). d \<in># ds #} \<and>
    ch_objects h' = (\<lambda>d. if d \<in># ds then None else ch_objects h d)"
proof -
  let ?as = "closures_run (w_log w)"
  have as: "mset ?as = ds" using done_result [OF assms(1,2)] assms(3-5) by (simp add: closures_run_ran)
  then have set: "set ?as = set_mset ds" by (metis set_mset_mset)
  have count: "count_list ?as d = count ds d" for d using arg_cong [OF as, of "\<lambda>m. count m d"] by (simp add: count_mset)
  have "runs_allowed ?as h" using once by (force simp: runs_allowed_def set count)
  then have "fold_outcome closure_Run ?as ([], h) =
      Inr (map (\<lambda>a. closure_function (the (ch_objects h a))) ?as, h\<lparr>ch_objects := objects_after ?as h\<rparr>)"
    by (simp add: runs_result)
  moreover have "objects_after ?as h = (\<lambda>d. if d \<in># ds then None else ch_objects h d)"
    using once by (auto simp: objects_after_def fun_eq_iff set split: option.splits closure.splits)
  ultimately show ?thesis using as by simp
qed

text \<open>Running a once closure again is a use after its deletion.\<close>

theorem once_closure_twice:
  assumes "ch_objects h a = Some (OnceClosure f)"
  shows "fold_outcome closure_Run [a, a] (out, h) = Inl UseAfterFree"
  using assms by (simp add: closure_Run_def)

text \<open>A client that has not connected, its one call, and the heap with the closure of that call.\<close>

definition idle_client :: "(string, nat) pconn" where
  "idle_client = conn_new ''client'' 0 \<lparr>w_log = [], w_next = 0, w_freed = [], w_seq = 1, w_app = 0\<rparr>"

definition demo_heap :: "string closure_heap" where
  "demo_heap = snd (NewClosure ''ClientCallDone'' \<lparr>ch_next = 8, ch_objects = Map.empty\<rparr>)"

theorem call_closures_freed_witness:
  "\<exists>c w h'. rpc_run echo_env idle_client {#8#} c \<and> delete_conn (rpc_conn_env echo_env) c = Inr w \<and>
    fold_outcome closure_Run (closures_run (w_log w)) ([], demo_heap) = Inr ([''ClientCallDone''], h') \<and> ch_objects h' 8 = None"
proof -
  have inv: "conn_inv (x_buf echo_env) (rpc_ok echo_env) idle_client"
    by (simp add: conn_inv_def idle_client_def conn_new_def status_new_def)
  have room: "seq_room idle_client" by (simp add: seq_room_def pending_calls_def idle_client_def conn_new_def INT_MAX_def)
  obtain c where c: "conn_call_method echo_env ''m'' ''r'' (Some ''hi'') demo_call idle_client = Inr c"
    using call_inv [OF inv room] by blast
  have run: "rpc_run echo_env idle_client (done_of demo_call + {#}) c" by (rule rpc_call [OF rpc_start room c])
  have "\<exists>w. delete_conn (rpc_conn_env echo_env) c = Inr w"
    using c by (auto simp: conn_call_method_def idle_client_def conn_new_def status_new_def delete_conn_def Let_def on_status_def on_world_def
        conn_unlock_def lock_shared_def unlock_shared_def is_connected_def is_idle_def IDLE_def)
  then obtain w where w: "delete_conn (rpc_conn_env echo_env) c = Inr w" by blast
  have ds: "done_of demo_call + {#} = {#8#}" by (simp add: done_of_def demo_call_def)
  have "\<exists>out h'. fold_outcome closure_Run (closures_run (w_log w)) ([], demo_heap) = Inr (out, h') \<and>
      mset out = {# closure_function (the (ch_objects demo_heap d)). d \<in># {#8#} #} \<and>
      ch_objects h' = (\<lambda>d. if d \<in># {#8#} then None else ch_objects demo_heap d)"
    by (rule call_closures_freed [OF inv run [unfolded ds] _ _ w])
      (simp_all add: ran_def waiting_def idle_client_def conn_new_def demo_heap_def NewClosure_def heap_new_def)
  then obtain out h' where out: "fold_outcome closure_Run (closures_run (w_log w)) ([], demo_heap) = Inr (out, h')"
    "mset out = {#''ClientCallDone''#}" "ch_objects h' 8 = None"
    by (auto simp: demo_heap_def NewClosure_def heap_new_def)
  moreover have "out = [''ClientCallDone'']" using out(2) by simp
  ultimately show ?thesis using run w ds by auto
qed

end
