(* ===== verification/Condition_Waits.thy ===== *)
theory Condition_Waits
  imports Notifier Thread_Pool
begin

text \<open>
  The two places of \<open>src/core/thread/\<close> where a thread sleeps on a condition variable: \<open>Notifier::Wait\<close> and \<open>PCQueue::Pop\<close>. \<open>Notifier\<close> and
  \<open>Thread_Pool\<close> take these calls as one step; here a call is cut where it sleeps, as \<open>wait\<close> gives the mutex back. Between two such
  cuts the mutex is held, so the pieces are atomic. A thread that sleeps is woken by \<open>notify_all\<close>; \<open>boost::condition\<close> may also
  wake it for no reason, and \<open>timed_wait\<close> may end by its timeout. All of that is decided by the schedule, a list of events; an event
  of a thread that is elsewhere has no effect.
\<close>

section \<open>Notifier\<close>

datatype wait_place = BeforeWait | Asleep | Notified | Returned bool

record latch =
  lt_notifier :: notifier
  lt_waiters :: "wait_place list"

datatype latch_event =
    EnterWait nat
  | TimedWaitReturns nat bool   \<comment> \<open>the thread, and what \<open>timed_wait\<close> returns if the thread was not notified\<close>
  | DecBy int

definition notify_sleepers :: "wait_place list \<Rightarrow> wait_place list" where
  "notify_sleepers = map (\<lambda>p. if p = Asleep then Notified else p)"

definition wait_enter :: "notifier \<Rightarrow> wait_place \<Rightarrow> wait_place" where
  "wait_enter n p = (if p = BeforeWait then (if n_notified n then Returned True else Asleep) else p)"

fun wait_leave :: "bool \<Rightarrow> wait_place \<Rightarrow> wait_place" where
  "wait_leave ret Asleep = Returned ret"
| "wait_leave ret Notified = Returned True"
| "wait_leave ret p = p"

fun latch_step :: "latch_event \<Rightarrow> latch \<Rightarrow> latch outcome" where
  "latch_step (EnterWait i) s = Inr (s\<lparr>lt_waiters := (lt_waiters s)[i := wait_enter (lt_notifier s) (lt_waiters s ! i)]\<rparr>)"
| "latch_step (TimedWaitReturns i ret) s = Inr (s\<lparr>lt_waiters := (lt_waiters s)[i := wait_leave ret (lt_waiters s ! i)]\<rparr>)"
| "latch_step (DecBy c) s =
     bind_outcome (notifier_dec c (lt_notifier s)) (\<lambda>n.
     Inr \<lparr>lt_notifier = n, lt_waiters = (if n_count n = 0 then notify_sleepers (lt_waiters s) else lt_waiters s)\<rparr>)"

definition latch_run :: "latch_event list \<Rightarrow> latch \<Rightarrow> latch outcome" where
  "latch_run = fold_outcome latch_step"

definition latch_new :: "int \<Rightarrow> nat \<Rightarrow> latch" where
  "latch_new initial_count m = \<lparr>lt_notifier = notifier_new initial_count, lt_waiters = replicate m BeforeWait\<rparr>"

text \<open>A history in which \<open>timed_wait\<close> returns only to threads that have been notified.\<close>

fun undisturbed :: "latch_event list \<Rightarrow> latch \<Rightarrow> bool" where
  "undisturbed [] s = True"
| "undisturbed (e # es) s =
     ((case e of TimedWaitReturns i _ \<Rightarrow> \<not> (i < length (lt_waiters s) \<and> lt_waiters s ! i = Asleep) | _ \<Rightarrow> True) \<and>
      (case latch_step e s of Inl _ \<Rightarrow> True | Inr s' \<Rightarrow> undisturbed es s'))"

lemma notify_sleepers_simps [simp]:
  "Asleep \<notin> set (notify_sleepers ps)" "Returned r \<in> set (notify_sleepers ps) \<longleftrightarrow> Returned r \<in> set ps"
  "Notified \<in> set (notify_sleepers ps) \<longleftrightarrow> Notified \<in> set ps \<or> Asleep \<in> set ps" "length (notify_sleepers ps) = length ps"
  by (force simp: notify_sleepers_def)+

lemma dec_notifies:
  assumes "notifier_dec c n = Inr n'"
  shows "n_notified n' \<longleftrightarrow> n_notified n \<or> n_count n' = 0"
  using assms by (cases n) (auto simp: notifier_dec_def Let_def split: if_splits)

lemma in_set_updD: "x \<in> set (xs[i := y]) \<Longrightarrow> x = y \<or> x \<in> set xs"
  using set_update_subset_insert [of xs i y] by auto

definition latch_inv :: "latch \<Rightarrow> bool" where
  "latch_inv s \<longleftrightarrow> (n_notified (lt_notifier s) \<longrightarrow> Asleep \<notin> set (lt_waiters s)) \<and>
     (Notified \<in> set (lt_waiters s) \<longrightarrow> n_notified (lt_notifier s))"

lemma Asleep_leaves: "wait_leave ret p \<noteq> Asleep" "wait_leave ret p = Notified \<Longrightarrow> False"
  by (cases p; simp)+

lemma latch_step_inv:
  assumes "latch_inv s" and "latch_step e s = Inr s'"
  shows "latch_inv s'"
proof (cases e)
  case (EnterWait i)
  then show ?thesis using assms
    by (cases "i < length (lt_waiters s)") (auto simp: latch_inv_def wait_enter_def list_update_beyond dest!: in_set_updD split: if_splits)
next
  case (TimedWaitReturns i ret)
  then show ?thesis using assms Asleep_leaves [of ret "lt_waiters s ! i"] by (auto simp: latch_inv_def dest!: in_set_updD)
next
  case (DecBy c)
  then show ?thesis using assms notify_sleepers_simps(1) [of "lt_waiters s"]
    by (auto simp: latch_inv_def dec_notifies simp del: notify_sleepers_simps(1) split: if_splits)
qed

lemma latch_run_inv:
  "latch_inv s \<Longrightarrow> latch_run es s = Inr s' \<Longrightarrow> latch_inv s' \<and> length (lt_waiters s') = length (lt_waiters s)"
proof (induction es arbitrary: s)
  case (Cons e es)
  then obtain s1 where 1: "latch_step e s = Inr s1" "latch_run es s1 = Inr s'" by (auto simp: latch_run_def)
  have "length (lt_waiters s1) = length (lt_waiters s)"
    using 1(1) by (cases e) auto
  then show ?case using Cons.IH [OF latch_step_inv [OF Cons.prems(1) 1(1)] 1(2)] by simp
qed (simp add: latch_run_def)

lemma latch_new_inv [simp]: "latch_inv (latch_new k m)"
  by (auto simp: latch_inv_def latch_new_def notifier_new_def)

text \<open>Without timeouts and idle wake-ups nobody returns before the notification, and nobody returns false.\<close>

fun answer_ok :: "bool \<Rightarrow> wait_place \<Rightarrow> bool" where
  "answer_ok notified (Returned ret) = (ret \<and> notified)"
| "answer_ok notified p = True"

lemma answer_ok_steps:
  "answer_ok (n_notified n) p \<Longrightarrow> answer_ok (n_notified n) (wait_enter n p)"
  "answer_ok b p \<Longrightarrow> p \<noteq> Asleep \<Longrightarrow> (p = Notified \<longrightarrow> b) \<Longrightarrow> answer_ok b (wait_leave r p)"
  "answer_ok b p \<Longrightarrow> (b \<longrightarrow> b') \<Longrightarrow> answer_ok b' p"
  "list_all (answer_ok b) (notify_sleepers ps) = list_all (answer_ok b) ps"
  by (cases p; simp add: wait_enter_def)+ (auto simp: notify_sleepers_def list_all_iff)

lemma list_all_updI: "list_all P xs \<Longrightarrow> (i < length xs \<Longrightarrow> P (xs ! i) \<Longrightarrow> P y) \<Longrightarrow> list_all P (xs[i := y])"
  by (cases "i < length xs") (auto simp: list_all_length nth_list_update)

lemma undisturbed_answers:
  assumes "undisturbed es s" and "latch_run es s = Inr s'" and "latch_inv s"
    and "list_all (answer_ok (n_notified (lt_notifier s))) (lt_waiters s)"
  shows "list_all (answer_ok (n_notified (lt_notifier s'))) (lt_waiters s')"
  using assms
proof (induction es arbitrary: s)
  case (Cons e es)
  then obtain s1 where 1: "latch_step e s = Inr s1" "latch_run es s1 = Inr s'" by (auto simp: latch_run_def)
  have "list_all (answer_ok (n_notified (lt_notifier s1))) (lt_waiters s1)"
  proof (cases e)
    case (EnterWait i)
    then show ?thesis using 1(1) Cons.prems(4) by (auto intro!: list_all_updI answer_ok_steps(1))
  next
    case (TimedWaitReturns i r)
    have "i < length (lt_waiters s) \<Longrightarrow> lt_waiters s ! i \<noteq> Asleep" using Cons.prems(1) TimedWaitReturns by simp
    moreover have "i < length (lt_waiters s) \<Longrightarrow> lt_waiters s ! i = Notified \<longrightarrow> n_notified (lt_notifier s)"
      using Cons.prems(3) by (metis latch_inv_def nth_mem)
    ultimately show ?thesis using 1(1) Cons.prems(4) TimedWaitReturns by (auto intro!: list_all_updI answer_ok_steps(2))
  next
    case (DecBy c)
    then obtain n where n: "notifier_dec c (lt_notifier s) = Inr n" "lt_notifier s1 = n"
      "lt_waiters s1 = (if n_count n = 0 then notify_sleepers (lt_waiters s) else lt_waiters s)" using 1(1) by auto
    have "list_all (answer_ok (n_notified n)) (lt_waiters s)"
      using Cons.prems(4) dec_notifies [OF n(1)] by (auto simp: list_all_iff intro: answer_ok_steps(3))
    then show ?thesis using n by (simp add: answer_ok_steps(4))
  qed
  then show ?case using Cons.IH [OF _ 1(2) latch_step_inv [OF Cons.prems(3) 1(1)]] Cons.prems(1) 1(1) by simp
qed (simp add: latch_run_def)

text \<open>
  C26. No wake-up is lost. Whatever the order in which threads come to wait and the count is changed: once the count has been 0, no thread sleeps, and
  every thread that still waits or comes to wait returns true with its next step. Without timeouts and idle wake-ups \<open>Wait\<close> returns
  only after that, and never false.
\<close>

theorem notification_reaches_all:
  assumes "latch_run es (latch_new k m) = Inr s"
  shows "(n_notified (lt_notifier s) \<longrightarrow> (\<forall>i < m. lt_waiters s ! i \<noteq> Asleep \<and>
      (lt_waiters s ! i = BeforeWait \<longrightarrow> wait_enter (lt_notifier s) (lt_waiters s ! i) = Returned True) \<and>
      (lt_waiters s ! i = Notified \<longrightarrow> (\<forall>ret. wait_leave ret (lt_waiters s ! i) = Returned True)))) \<and>
    (undisturbed es (latch_new k m) \<longrightarrow> (\<forall>i < m. \<forall>ret. lt_waiters s ! i = Returned ret \<longrightarrow> ret \<and> n_notified (lt_notifier s)))"
proof -
  have inv: "latch_inv s" "length (lt_waiters s) = m"
    using latch_run_inv [OF latch_new_inv assms] by (simp_all add: latch_new_def)
  have "list_all (answer_ok (n_notified (lt_notifier (latch_new k m)))) (lt_waiters (latch_new k m))"
    by (simp add: latch_new_def list_all_iff)
  then have "undisturbed es (latch_new k m) \<Longrightarrow> list_all (answer_ok (n_notified (lt_notifier s))) (lt_waiters s)"
    using undisturbed_answers [OF _ assms latch_new_inv] by blast
  then have "\<forall>i < m. \<forall>ret. lt_waiters s ! i = Returned ret \<longrightarrow> ret \<and> n_notified (lt_notifier s)" if "undisturbed es (latch_new k m)"
    using that inv(2) by (auto simp: list_all_length dest: spec)
  moreover have "lt_waiters s ! i \<noteq> Asleep" if "n_notified (lt_notifier s)" "i < m" for i
    using inv that by (metis latch_inv_def nth_mem)
  ultimately show ?thesis unfolding wait_enter_def by auto
qed

section \<open>PCQueue\<close>

datatype 'a pop_place = BeforePop | PopAsleep | PopNotified | Popped 'a

record 'a pcq =
  pq_queue :: "'a list"
  pq_poppers :: "'a pop_place list"
  pq_taken :: "'a list"      \<comment> \<open>what \<open>Pop\<close> has returned, in order\<close>

datatype 'a pcq_event = StartPop nat | WaitReturns nat | PushTask 'a

text \<open>The loop of \<open>Pop\<close>: the test, and then either \<open>wait\<close> or the removal.\<close>

definition try_pop :: "nat \<Rightarrow> 'a pcq \<Rightarrow> 'a pcq" where
  "try_pop i s =
     (case pc_pop (pq_queue s) of
        None \<Rightarrow> s\<lparr>pq_poppers := (pq_poppers s)[i := PopAsleep]\<rparr>
      | Some (t, q) \<Rightarrow> s\<lparr>pq_queue := q, pq_poppers := (pq_poppers s)[i := Popped t], pq_taken := pq_taken s @ [t]\<rparr>)"

fun pcq_step :: "'a pcq_event \<Rightarrow> 'a pcq \<Rightarrow> 'a pcq" where
  "pcq_step (StartPop i) s =
     (if i < length (pq_poppers s) \<and> pq_poppers s ! i = BeforePop then try_pop i s else s)"
| "pcq_step (WaitReturns i) s =
     (if i < length (pq_poppers s) \<and> pq_poppers s ! i \<in> {PopAsleep, PopNotified} then try_pop i s else s)"
| "pcq_step (PushTask t) s =
     s\<lparr>pq_queue := pc_push t (pq_queue s),
       pq_poppers := map (\<lambda>p. if p = PopAsleep then PopNotified else p) (pq_poppers s)\<rparr>"

definition pcq_new :: "nat \<Rightarrow> 'a pcq" where
  "pcq_new m = \<lparr>pq_queue = [], pq_poppers = replicate m BeforePop, pq_taken = []\<rparr>"

fun pushed :: "'a pcq_event \<Rightarrow> 'a list" where
  "pushed (PushTask t) = [t]"
| "pushed e = []"

text \<open>The step of the atomic queue that an event stands for: a push, a pop, or none.\<close>

inductive atomic_step :: "'a list \<times> 'a list \<Rightarrow> 'a list \<times> 'a list \<Rightarrow> bool" where
  atomic_push: "atomic_step (q, taken) (pc_push t q, taken)"
| atomic_pop: "pc_pop q = Some (t, q') \<Longrightarrow> atomic_step (q, taken) (q', taken @ [t])"
| atomic_idle: "atomic_step c c"

definition pcq_inv :: "'a list \<Rightarrow> 'a pcq \<Rightarrow> bool" where
  "pcq_inv h s \<longleftrightarrow> (PopAsleep \<in> set (pq_poppers s) \<longrightarrow> pq_queue s = []) \<and> pq_taken s @ pq_queue s = h"

lemma try_pop_inv:
  assumes "pcq_inv h s"
  shows "pcq_inv h (try_pop i s)"
proof (cases "pc_pop (pq_queue s)")
  case None
  then show ?thesis using assms pc.pop_None by (auto simp: try_pop_def pcq_inv_def dest!: in_set_updD)
next
  case (Some tq)
  obtain t q where tq: "tq = (t, q)" by (cases tq)
  have "pq_queue s = t # q" using Some pc.pop_Some by (auto simp: tq)
  then show ?thesis using assms Some by (auto simp: try_pop_def pcq_inv_def tq dest!: in_set_updD)
qed

lemma pcq_step_inv: "pcq_inv h s \<Longrightarrow> pcq_inv (h @ pushed e) (pcq_step e s)"
proof (cases e)
  case (PushTask t)
  assume "pcq_inv h s"
  then show ?thesis using PushTask pc.history_push by (auto simp: pcq_inv_def pc_push_def)
qed (auto simp: try_pop_inv)

lemma pcq_run_inv: "pcq_inv h s \<Longrightarrow> pcq_inv (h @ concat (map pushed es)) (fold pcq_step es s)"
proof (induction es arbitrary: h s)
  case (Cons e es)
  from Cons.IH [OF pcq_step_inv [OF Cons.prems]] show ?case by simp
qed simp

lemma pcq_refines:
  "atomic_step (pq_queue s, pq_taken s) (pq_queue (pcq_step e s), pq_taken (pcq_step e s))"
  by (cases e) (auto simp: try_pop_def intro: atomic_step.intros split: option.splits prod.splits)

text \<open>
  C27. \<open>Pop\<close> with its sleeps implements the atomic \<open>Pop\<close> of \<open>Thread_Pool\<close>: every event is a push, a pop or nothing of the atomic queue, the
  elements are taken in the order of the pushes, and as long as an element is there every thread inside \<open>Pop\<close>, or entering it, takes one with
  its next step.
\<close>

theorem pop_refines_atomic:
  fixes es :: "'a pcq_event list" and m :: nat
  defines "s \<equiv> fold pcq_step es (pcq_new m)"
  shows "pq_taken s @ pq_queue s = concat (map pushed es) \<and>
    atomic_step (pq_queue s, pq_taken s) (pq_queue (pcq_step e s), pq_taken (pcq_step e s)) \<and>
    (pq_queue s = [] \<or> list_all (\<lambda>p. p \<noteq> PopAsleep) (pq_poppers s))"
proof -
  have "pcq_inv [] (pcq_new m :: 'a pcq)" by (simp add: pcq_inv_def pcq_new_def)
  from pcq_run_inv [OF this] have "pcq_inv (concat (map pushed es)) s" by (simp add: s_def)
  then show ?thesis using pcq_refines [of s e] by (auto simp: pcq_inv_def list_all_iff)
qed

text \<open>A thread sleeps, the count goes to 0, and a second thread comes to wait.\<close>

theorem notification_reaches_all_witness:
  "\<exists>s. latch_run [EnterWait 0, DecBy 1] (latch_new 1 2) = Inr s \<and> n_notified (lt_notifier s) \<and>
     lt_waiters s ! 0 \<noteq> Asleep \<and> wait_enter (lt_notifier s) (lt_waiters s ! 1) = Returned True"
proof -
  have "\<exists>s. latch_run [EnterWait 0, DecBy 1] (latch_new 1 2) = Inr s \<and> n_notified (lt_notifier s) \<and> lt_waiters s ! 1 = BeforeWait"
    by (simp add: latch_run_def latch_new_def notifier_new_def notifier_dec_def wait_enter_def numeral_2_eq_2 int_range_defs i32_def
        notify_sleepers_def)
  then obtain s where s: "latch_run [EnterWait 0, DecBy 1] (latch_new 1 2) = Inr s" "n_notified (lt_notifier s)"
    "lt_waiters s ! 1 = BeforeWait" by blast
  have "\<forall>i < 2. lt_waiters s ! i \<noteq> Asleep \<and> (lt_waiters s ! i = BeforeWait \<longrightarrow>
      wait_enter (lt_notifier s) (lt_waiters s ! i) = Returned True)"
    using notification_reaches_all [OF s(1)] s(2) by blast
  then have "lt_waiters s ! 0 \<noteq> Asleep" "wait_enter (lt_notifier s) (lt_waiters s ! 1) = Returned True"
    using s(3) by (metis pos2, metis one_less_numeral_iff semiring_norm(76))
  then show ?thesis using s by blast
qed

end
