(* ===== verification/Timer_Tests.thy ===== *)
theory Timer_Tests
  imports Timer_Master
begin

text \<open>
  The test suite of the timer master, \<open>src/test/TestTimerMaster.cpp\<close>, run on the model of \<open>Timer_Master\<close>. A test case returns
  whether all its \<open>BOOST_CHECK\<close>s held, or the fault that stopped it. The cases make up to a million calls of \<open>Update\<close>; they are
  not executed here but followed through the agenda, which for timers that only set a flag is a function.
\<close>

section \<open>TestTimer\<close>

text \<open>
  The timers are numbered in the order of their creation. \<open>period_\<close> and \<open>timeout_\<close> are set once, before the
  timer is registered; the world holds \<open>expired_\<close> of the timers that still exist.
\<close>

type_synonym flags = "nat \<Rightarrow> bool option"

definition test_timer_api :: "(nat \<Rightarrow> bool) \<Rightarrow> (nat \<Rightarrow> int) \<Rightarrow> (nat, flags) timer_api" where
  "test_timer_api per tmo =
     \<lparr>api_alive = (\<lambda>t w. w t \<noteq> None), api_period = (\<lambda>t w. per t), api_timeout = (\<lambda>t w. tmo t),
      api_expired = (\<lambda>t w. w(t := map_option (\<lambda>_. True) (w t)))\<rparr>"

type_synonym test_state = "bool \<times> flags \<times> nat timer_master"

text \<open>\<open>m.Update( i )\<close>, a check, and what the test then does to the flags.\<close>

definition update_and_check ::
  "(nat, flags) timer_api \<Rightarrow> (int \<Rightarrow> flags \<Rightarrow> bool) \<Rightarrow> (int \<Rightarrow> flags \<Rightarrow> flags) \<Rightarrow> int \<Rightarrow> test_state \<Rightarrow> test_state outcome"
where
  "update_and_check A expect reset i = (\<lambda>(ok, w, m).
     bind_outcome (tm_update A i (w, m)) (\<lambda>(w, m). Inr (ok \<and> expect i w, reset i w, m)))"

section \<open>The test cases\<close>

definition timer_test0 :: "bool outcome" where
  "timer_test0 =
     (let A = test_timer_api (\<lambda>_. True) (\<lambda>_. 2); w = [0 \<mapsto> False] in
      bind_outcome (tm_register A 0 w new_timer_master) (\<lambda>m.
      bind_outcome (tm_update A 2 (w, m)) (\<lambda>(w, m).
      let ok = (w 0 = Some False) in
      bind_outcome (tm_update A 3 (w, m)) (\<lambda>(w, m).
      Inr (ok \<and> w 0 = Some True)))))"

text \<open>The loops of the other cases run up to a limit, the argument here; \<open>timer_suite\<close> below has the limits of the source.\<close>

definition timer_test1 :: "int \<Rightarrow> int \<Rightarrow> bool outcome" where
  "timer_test1 n1 n2 =
     (let A = test_timer_api (\<lambda>_. True) (\<lambda>_. 1); w = [0 \<mapsto> False];
          step = update_and_check A (\<lambda>i w. w 0 = Some True) (\<lambda>i w. w(0 \<mapsto> False)) in
      bind_outcome (tm_register A 0 w new_timer_master) (\<lambda>m.
      bind_outcome (fold_outcome step [2..n1 - 1] (True, w, m)) (\<lambda>s.
      bind_outcome (fold_outcome step [n1..n2 - 1] s) (\<lambda>(ok, _).
      Inr ok))))"

text \<open>\<open>Test2\<close>: timer \<open>i - 2\<close> of the vector has the timeout \<open>i - 1\<close>.\<close>

definition created :: "(nat \<Rightarrow> flags \<Rightarrow> flags) \<Rightarrow> nat \<Rightarrow> flags \<Rightarrow> flags" where
  "created leave t w = leave t (w(t \<mapsto> False))"

definition create_and_register ::
  "(nat, flags) timer_api \<Rightarrow> (nat \<Rightarrow> flags \<Rightarrow> flags) \<Rightarrow> nat \<Rightarrow> flags \<times> nat timer_master \<Rightarrow> (flags \<times> nat timer_master) outcome"
where
  "create_and_register A leave t = (\<lambda>(w, m).
     bind_outcome (tm_register A t (w(t \<mapsto> False)) m) (\<lambda>m. Inr (created leave t w, m)))"

definition timer_test2 :: "int \<Rightarrow> bool outcome" where
  "timer_test2 n =
     (let A = test_timer_api (\<lambda>_. False) (\<lambda>t. int t + 1) in
      bind_outcome (fold_outcome (create_and_register A (\<lambda>_ w. w)) [0..<nat (n - 2)] (Map.empty, new_timer_master)) (\<lambda>(w, m).
      bind_outcome (fold_outcome (update_and_check A (\<lambda>i w. w (nat (i - 2)) = Some True) (\<lambda>i w. w(nat (i - 2) \<mapsto> False)))
        [2..n - 1] (True, w, m)) (\<lambda>(ok, w, m).
      Inr (ok \<and> w 0 = Some False))))"

text \<open>\<open>Test3\<close>: the only pointer to a timer is a variable of the loop, so every timer is destroyed once it is registered.\<close>

definition timer_test3 :: "int \<Rightarrow> bool outcome" where
  "timer_test3 n =
     (let A = test_timer_api (\<lambda>_. False) (\<lambda>t. int t + 1) in
      bind_outcome (fold_outcome (create_and_register A (\<lambda>t w. w(t := None))) [0..<nat (n - 1)] (Map.empty, new_timer_master)) (\<lambda>(w, m).
      bind_outcome (fold_outcome (update_and_check A (\<lambda>_ _. True) (\<lambda>_ w. w)) [1..n - 1] (True, w, m)) (\<lambda>(ok, _).
      Inr ok)))"

definition magic :: "int list" where
  "magic = [1, 2, 5, 255, 254, 256, 0xFF00, 0x1000, 0xFF01, 0xFFFF]"

text \<open>\<open>Test4\<close>, over the numbers that \<open>rand\<close> returns.\<close>

definition timer_test4_round :: "int \<times> int \<Rightarrow> bool \<Rightarrow> bool outcome" where
  "timer_test4_round = (\<lambda>(x, rand) ok.
     let A = test_timer_api (\<lambda>_. True) (\<lambda>_. x); w = [0 \<mapsto> False] in
     bind_outcome (tm_register A 0 w new_timer_master) (\<lambda>m.
     bind_outcome (tm_update A x (w, m)) (\<lambda>(w, m).
     let ok = (ok \<and> w 0 = Some False); t = x + rand mod 0xFFFFF + 1 in
     bind_outcome (tm_update A t (w, m)) (\<lambda>(w, m).
     Inr (ok \<and> w 0 = Some True)))))"

definition timer_test4 :: "int list \<Rightarrow> bool outcome" where
  "timer_test4 rands = fold_outcome timer_test4_round (zip magic rands) True"

text \<open>\<open>Test5\<close>: the timers that should have expired at \<open>i\<close> are checked and set back.\<close>

definition test5_due :: "int \<Rightarrow> nat list" where
  "test5_due i = filter (\<lambda>j. (i - 1) mod magic ! j = 0) [0..<length magic]"

definition timer_test5 :: "int \<Rightarrow> bool outcome" where
  "timer_test5 max_timeout =
     (let A = test_timer_api (\<lambda>t. t < length magic) (\<lambda>t. magic ! t) in
      bind_outcome (fold_outcome (create_and_register A (\<lambda>_ w. w)) [0..<length magic] (Map.empty, new_timer_master)) (\<lambda>(w, m).
      bind_outcome (fold_outcome
          (update_and_check A (\<lambda>i w. list_all (\<lambda>j. w j = Some True) (test5_due i))
            (\<lambda>i w j. if j \<in> set (test5_due i) then Some False else w j))
        [2..max_timeout - 1] (True, w, m)) (\<lambda>(ok, _).
      Inr ok)))"

definition timer_suite :: "int list \<Rightarrow> bool outcome list" where
  "timer_suite rands =
     [timer_test0, timer_test1 0xFFFF 0xFFFFF, timer_test2 0x10000, timer_test3 0x10000, timer_test4 rands, timer_test5 0xFFFF]"

section \<open>The agenda of flags\<close>

definition flag_tick :: "(nat \<Rightarrow> bool) \<Rightarrow> (nat \<Rightarrow> int) \<Rightarrow> flags \<times> int \<times> nat timer_slot multiset \<Rightarrow> flags \<times> int \<times> nat timer_slot multiset" where
  "flag_tick per tmo = (\<lambda>(w, n, P).
     (\<lambda>t. if \<exists>x \<in># P. jiffies x = n \<and> weak_timer x = t then map_option (\<lambda>_. True) (w t) else w t, n + 1,
      {#x \<in># P. jiffies x \<noteq> n#} +
      image_mset (\<lambda>x. \<lparr>weak_timer = weak_timer x, jiffies = tmo (weak_timer x) + n\<rparr>)
        {#x \<in># P. jiffies x = n \<and> w (weak_timer x) \<noteq> None \<and> per (weak_timer x)#}))"

lemma expire_flags:
  "expire_all (test_timer_api per tmo) ts w = (\<lambda>t. if t \<in> weak_timer ` set ts then map_option (\<lambda>_. True) (w t) else w t)"
proof (induction ts arbitrary: w)
  case (Cons x ts)
  have "expire_all (test_timer_api per tmo) (x # ts) w =
    expire_all (test_timer_api per tmo) ts (w(weak_timer x := map_option (\<lambda>_. True) (w (weak_timer x))))"
    by (simp add: expire_all_def test_timer_api_def)
  then show ?case unfolding Cons.IH by (auto simp: fun_eq_iff option.map_comp comp_def)
qed (simp add: expire_all_def)

lemma flag_tick_is_tick:
  assumes "agenda_tick (test_timer_api per tmo) c c'"
  shows "c' = flag_tick per tmo c"
proof -
  let ?A = "test_timer_api per tmo"
  obtain w n P where c: "c = (w, n, P)" by (cases c) auto
  obtain ts where ts: "mset ts = {#x \<in># due n P. w (weak_timer x) \<noteq> None#}"
    and c': "c' = (expire_all ?A ts w, n + 1, {#x \<in># P. jiffies x \<noteq> n#} + mset (rearmed ?A (expire_all ?A ts w) n ts))"
    using assms unfolding c by (elim agenda_tickE) (auto simp: test_timer_api_def)
  have mem: "x \<in> set ts \<longleftrightarrow> x \<in># P \<and> jiffies x = n \<and> w (weak_timer x) \<noteq> None" for x
    using arg_cong [OF ts, of set_mset] by (auto simp: due_def)
  have "expire_all ?A ts w = (\<lambda>t. if \<exists>x \<in># P. jiffies x = n \<and> weak_timer x = t then map_option (\<lambda>_. True) (w t) else w t)"
    unfolding expire_flags by (auto simp: mem fun_eq_iff image_iff)
  moreover have "mset (rearmed ?A w' n ts) =
      image_mset (\<lambda>x. \<lparr>weak_timer = weak_timer x, jiffies = tmo (weak_timer x) + n\<rparr>)
        {#x \<in># P. jiffies x = n \<and> w (weak_timer x) \<noteq> None \<and> per (weak_timer x)#}" for w'
    by (simp add: rearmed_def test_timer_api_def ts due_def filter_filter_mset conj_ac)
  ultimately show ?thesis by (simp add: c c' flag_tick_def)
qed

text \<open>An \<open>Update\<close> of the test, as ticks of that function.\<close>

lemma test_update:
  assumes "wheel_inv m" and "timer_jiffies m \<le> i" and "i < INT_MAX" and "timeouts_fit (test_timer_api per tmo) i"
  shows "\<exists>w' m'. tm_update (test_timer_api per tmo) i (w, m) = Inr (w', m') \<and> wheel_inv m' \<and> timer_jiffies m' = i + 1 \<and>
    (w', i + 1, pending m') = (flag_tick per tmo ^^ nat (i + 1 - timer_jiffies m)) (w, timer_jiffies m, pending m)"
proof -
  have run: "c' = (flag_tick per tmo ^^ k) c" if "(agenda_tick (test_timer_api per tmo) ^^ k) c c'" for k c c'
    using that by (induction k arbitrary: c') (auto dest: flag_tick_is_tick)
  obtain w' m' where r: "tm_update (test_timer_api per tmo) i (w, m) = Inr (w', m')" "wheel_inv m'"
    "(agenda_tick (test_timer_api per tmo) ^^ nat (i + 1 - timer_jiffies m)) (w, timer_jiffies m, pending m) (agenda_view (w', m'))"
    using wheel.advance_runs [where w = w and n = "timer_jiffies m" and P = "pending m", OF assms(1) _ assms(2,3,4)] by (auto simp: agenda_view_def)
  have "timer_jiffies m' = i + 1" using agenda_clock [OF r(3)] assms(2) by (simp add: agenda_view_def)
  with r run [OF r(3)] show ?thesis by (auto simp: agenda_view_def)
qed

lemma flag_tick_quiet:
  "\<forall>x \<in># P. n + int k \<le> jiffies x \<Longrightarrow> (flag_tick per tmo ^^ k) (w, n, P) = (w, n + int k, P)"
proof (induction k)
  case (Suc k)
  then have before: "\<forall>x \<in># P. n + int k < jiffies x" by force
  then have "{#x \<in># P. jiffies x \<noteq> n + int k#} = P"
    "{#x \<in># P. jiffies x = n + int k \<and> w (weak_timer x) \<noteq> None \<and> per (weak_timer x)#} = {#}"
    by (force simp: filter_mset_eq_conv)+
  moreover have "(\<lambda>t. if \<exists>x \<in># P. jiffies x = n + int k \<and> weak_timer x = t then map_option (\<lambda>_. True) (w t) else w t) = w"
    using before by (force simp: fun_eq_iff)
  moreover have "(flag_tick per tmo ^^ k) (w, n, P) = (w, n + int k, P)" using before by (intro Suc.IH) (force simp: less_imp_le)
  ultimately show ?case by (simp add: flag_tick_def algebra_simps)
qed simp

lemma test_update_next:
  assumes "wheel_inv m" and "timer_jiffies m \<le> i" and "i < INT_MAX" and "timeouts_fit (test_timer_api per tmo) i"
    and "\<forall>x \<in># pending m. i \<le> jiffies x"
  shows "\<exists>w' m'. tm_update (test_timer_api per tmo) i (w, m) = Inr (w', m') \<and> wheel_inv m' \<and> timer_jiffies m' = i + 1 \<and>
    (w', i + 1, pending m') = flag_tick per tmo (w, i, pending m)"
proof -
  have "nat (i + 1 - timer_jiffies m) = Suc (nat (i - timer_jiffies m))" using assms(2) by simp
  then have "(flag_tick per tmo ^^ nat (i + 1 - timer_jiffies m)) (w, timer_jiffies m, pending m) = flag_tick per tmo (w, i, pending m)"
    using flag_tick_quiet [of "pending m" "timer_jiffies m" "nat (i - timer_jiffies m)" per tmo w] assms(2,5) by simp
  then show ?thesis using test_update [OF assms(1-4), of w] by simp
qed

lemma update_and_check_apply [simp]:
  "update_and_check A expect reset i (ok, w, m) =
    bind_outcome (tm_update A i (w, m)) (\<lambda>(w, m). Inr (ok \<and> expect i w, reset i w, m))"
  by (simp add: update_and_check_def)

text \<open>The loops of the tests: an invariant of the flags and the agenda that every tick keeps, and from which the check follows.\<close>

lemma test_loop:
  assumes fit: "timeouts_fit (test_timer_api per tmo) b" and b: "b < INT_MAX"
    and step: "\<And>i w P w' P'. a \<le> i \<Longrightarrow> i \<le> b \<Longrightarrow> I i w P \<Longrightarrow> flag_tick per tmo (w, i, P) = (w', i + 1, P') \<Longrightarrow>
      expect i w' \<and> I (i + 1) (reset i w') P'"
    and "wheel_inv m" and "timer_jiffies m \<le> a" and "a \<le> b" and "\<forall>x \<in># pending m. a \<le> jiffies x" and "I a w (pending m)"
  shows "\<exists>w' m'. fold_outcome (update_and_check (test_timer_api per tmo) expect reset) [a..b] (ok, w, m) = Inr (ok, w', m') \<and>
    wheel_inv m' \<and> timer_jiffies m' = b + 1 \<and> I (b + 1) w' (pending m')"
proof -
  have "\<exists>w' m'. fold_outcome (update_and_check (test_timer_api per tmo) expect reset) [i..b] (ok, w, m) = Inr (ok, w', m') \<and>
      wheel_inv m' \<and> timer_jiffies m' = b + 1 \<and> I (b + 1) w' (pending m')"
    if "nat (b + 1 - i) = Suc k" "a \<le> i" "wheel_inv m" "timer_jiffies m \<le> i" "\<forall>x \<in># pending m. i \<le> jiffies x" "I i w (pending m)" for i k w m
    using that
  proof (induction k arbitrary: i w m)
    case (Suc k)
    have i: "i < b" using Suc.prems(1) by simp
    have fit': "timeouts_fit (test_timer_api per tmo) i" by (rule timeouts_fit_mono [OF fit]) (use i in simp)
    obtain w' m' where u: "tm_update (test_timer_api per tmo) i (w, m) = Inr (w', m')" "wheel_inv m'" "timer_jiffies m' = i + 1"
      "(w', i + 1, pending m') = flag_tick per tmo (w, i, pending m)"
      using test_update_next [OF Suc.prems(3,4) _ fit' Suc.prems(5), of w] i b by auto
    note s = step [OF Suc.prems(2) _ Suc.prems(6) u(4) [symmetric]]
    have "nat (b + 1 - (i + 1)) = Suc k" using Suc.prems(1) by simp
    moreover have "\<forall>x \<in># pending m'. i + 1 \<le> jiffies x" using pending_future(1) [OF u(2)] u(3) by auto
    ultimately have "\<exists>w'' m''. fold_outcome (update_and_check (test_timer_api per tmo) expect reset) [i + 1..b] (ok, reset i w', m') = Inr (ok, w'', m'') \<and>
      wheel_inv m'' \<and> timer_jiffies m'' = b + 1 \<and> I (b + 1) w'' (pending m'')"
      using Suc.IH [of "i + 1" m' "reset i w'"] u s i Suc.prems(2) by auto
    moreover have "[i..b] = i # [i + 1..b]" using i by (simp add: upto_rec1)
    ultimately show ?case using u(1) s i by simp
  next
    case 0
    then have i: "i = b" by simp
    obtain w' m' where u: "tm_update (test_timer_api per tmo) i (w, m) = Inr (w', m')" "wheel_inv m'" "timer_jiffies m' = i + 1"
      "(w', i + 1, pending m') = flag_tick per tmo (w, i, pending m)"
      using test_update_next [OF 0(3,4) _ _ 0(5), of per tmo w] fit i b by auto
    note s = step [OF 0(2) _ 0(6) u(4) [symmetric]]
    show ?case using u s i by simp
  qed
  moreover have "nat (b + 1 - a) = Suc (nat (b - a))" using assms(6) by simp
  ultimately show ?thesis using assms by blast
qed

text \<open>Creating and registering a list of timers on a wheel that has not started.\<close>

lemma test_register:
  assumes "wheel_inv m" and "timer_jiffies m = 1" and "1 \<le> tmo t" and "tmo t < INT_MAX" and "w t \<noteq> None"
  shows "\<exists>m'. tm_register (test_timer_api per tmo) t w m = Inr m' \<and> wheel_inv m' \<and> timer_jiffies m' = 1 \<and>
    pending m' = add_mset \<lparr>weak_timer = t, jiffies = tmo t + 1\<rparr> (pending m)"
  using register_result [OF assms(1), of "test_timer_api per tmo" t w] assms(2-5) by (auto simp: test_timer_api_def)

section \<open>The cases pass\<close>

lemma test0_passes: "timer_test0 = Inr True"
  by code_simp

lemma test1_passes:
  assumes "2 < n1" and "n1 < n2" and "n2 < INT_MAX"
  shows "timer_test1 n1 n2 = Inr True"
proof -
  let ?A = "test_timer_api (\<lambda>_. True) (\<lambda>_. 1)"
  let ?w = "[0 \<mapsto> False] :: flags"
  let ?expect = "\<lambda>(i :: int) (w :: flags). w 0 = Some True"
  let ?reset = "\<lambda>(i :: int) (w :: flags). w(0 \<mapsto> False)"
  define I where "I = (\<lambda>i (w :: flags) P. w 0 = Some False \<and> P = {#\<lparr>weak_timer = 0 :: nat, jiffies = i\<rparr>#})"
  have step: "?expect i w' \<and> I (i + 1) (?reset i w') P'"
    if "I i w P" "flag_tick (\<lambda>_. True) (\<lambda>_. 1) (w, i, P) = (w', i + 1, P')" for i w P w' P'
    using that by (auto simp: I_def flag_tick_def algebra_simps)
  have fit: "timeouts_fit ?A b" if "b < INT_MAX" for b using that by (simp add: timeouts_fit_def test_timer_api_def)
  obtain m where m: "tm_register ?A 0 ?w new_timer_master = Inr m" "wheel_inv m" "timer_jiffies m = 1"
    "pending m = {#\<lparr>weak_timer = 0, jiffies = 2\<rparr>#}"
    using test_register [OF wheel_inv_new clock_new(1), of "\<lambda>_. 1" 0 ?w "\<lambda>_. True"] by (auto simp: INT_MAX_def)
  have "\<exists>w' m'. fold_outcome (update_and_check ?A ?expect ?reset) [2..n1 - 1] (True, ?w, m) = Inr (True, w', m') \<and>
    wheel_inv m' \<and> timer_jiffies m' = n1 - 1 + 1 \<and> I (n1 - 1 + 1) w' (pending m')"
    by (rule test_loop) (use assms m step fit in \<open>simp_all add: I_def\<close>)
  then obtain w1 m1 where 1: "fold_outcome (update_and_check ?A ?expect ?reset) [2..n1 - 1] (True, ?w, m) = Inr (True, w1, m1)"
    "wheel_inv m1" "timer_jiffies m1 = n1" "I n1 w1 (pending m1)" by auto
  have "\<exists>w' m'. fold_outcome (update_and_check ?A ?expect ?reset) [n1..n2 - 1] (True, w1, m1) = Inr (True, w', m') \<and>
    wheel_inv m' \<and> timer_jiffies m' = n2 - 1 + 1 \<and> I (n2 - 1 + 1) w' (pending m')"
    by (rule test_loop) (use assms 1 step fit in \<open>simp_all add: I_def\<close>)
  then show ?thesis using m(1) 1(1) by (auto simp: timer_test1_def Let_def)
qed

lemma test_create:
  assumes "wheel_inv m" and "timer_jiffies m = 1" and "\<forall>t \<in> set ts. 1 \<le> tmo t \<and> tmo t < INT_MAX"
  shows "\<exists>m'. fold_outcome (create_and_register (test_timer_api per tmo) leave) ts (w, m) =
      Inr (fold (created leave) ts w, m') \<and> wheel_inv m' \<and> timer_jiffies m' = 1 \<and>
    pending m' = pending m + image_mset (\<lambda>t. \<lparr>weak_timer = t, jiffies = tmo t + 1\<rparr>) (mset ts)"
  using assms
proof (induction ts arbitrary: w m)
  case (Cons t ts)
  obtain m1 where 1: "tm_register (test_timer_api per tmo) t (w(t \<mapsto> False)) m = Inr m1" "wheel_inv m1" "timer_jiffies m1 = 1"
    "pending m1 = add_mset \<lparr>weak_timer = t, jiffies = tmo t + 1\<rparr> (pending m)"
    using test_register [OF Cons.prems(1,2), of tmo t "w(t \<mapsto> False)" per] Cons.prems(3) by auto
  show ?case using Cons.IH [OF 1(2,3), of "created leave t w"] Cons.prems(3) 1(1,4)
    by (auto simp: create_and_register_def Let_def)
qed simp

lemma fold_flags: "fold (created (\<lambda>_ w. w)) ts w = (\<lambda>t. if t \<in> set ts then Some False else w t)"
  by (induction ts arbitrary: w) (auto simp: fun_eq_iff created_def)

lemma fold_no_flags: "fold (created (\<lambda>t w. w(t := None))) ts Map.empty = Map.empty"
  by (induction ts) (simp_all add: created_def del: fun_upd_apply)

lemma test2_passes:
  assumes "2 < n" and "n < INT_MAX"
  shows "timer_test2 n = Inr True"
proof -
  let ?A = "test_timer_api (\<lambda>_. False) (\<lambda>t. int t + 1)"
  let ?N = "nat (n - 2)"
  let ?expect = "\<lambda>i (w :: flags). w (nat (i - 2)) = Some True"
  let ?reset = "\<lambda>i (w :: flags). w(nat (i - 2) \<mapsto> False)"
  define slot where "slot = (\<lambda>t. \<lparr>weak_timer = t, jiffies = int t + 2\<rparr>)"
  define I where "I = (\<lambda>i (w :: flags) P. (\<forall>t \<in> {nat (i - 2)..<?N}. w t \<noteq> None) \<and> (2 < i \<longrightarrow> w 0 = Some False) \<and>
    P = image_mset slot (mset [nat (i - 2)..<?N]))"
  have step: "?expect i w' \<and> I (i + 1) (?reset i w') P'"
    if "2 \<le> i" "i \<le> n - 1" "I i w P" "flag_tick (\<lambda>_. False) (\<lambda>t. int t + 1) (w, i, P) = (w', i + 1, P')" for i w P w' P'
  proof -
    define a where "a = nat (i - 2)"
    have a: "int a + 2 = i" "a < ?N" "nat (i + 1 - 2) = Suc a" using that(1,2) by (auto simp: a_def)
    have "mset [a..<?N] = add_mset a (mset [Suc a..<?N])" by (simp only: upt_conv_Cons [OF a(2)] mset.simps)
    then have P: "P = add_mset (slot a) (image_mset slot (mset [Suc a..<?N]))"
      using that(3) by (simp add: I_def flip: a_def)
    have "{#x \<in># image_mset slot (mset [Suc a..<?N]). jiffies x \<noteq> i#} = image_mset slot (mset [Suc a..<?N])"
      using a(1) by (auto simp: filter_mset_eq_conv slot_def)
    moreover have "{#x \<in># P. jiffies x \<noteq> i#} = {#x \<in># image_mset slot (mset [Suc a..<?N]). jiffies x \<noteq> i#}"
      using a(1) by (simp add: P slot_def)
    ultimately have P': "P' = image_mset slot (mset [Suc a..<?N])" using that(4) by (simp add: flag_tick_def)
    have w': "w' = (\<lambda>t. if \<exists>x \<in># P. jiffies x = i \<and> weak_timer x = t then map_option (\<lambda>_. True) (w t) else w t)"
      using that(4) by (simp add: flag_tick_def)
    have "w a \<noteq> None" using that(3) a(2) by (simp add: I_def flip: a_def)
    then have "w' a = Some True" using a(1) by (auto simp: w' P slot_def)
    moreover have "\<forall>t \<in> {Suc a..<?N}. w' t \<noteq> None" using that(3) by (auto simp: w' I_def simp flip: a_def)
    moreover have "(w'(a \<mapsto> False)) 0 = Some False"
    proof (cases "a = 0")
      case False
      then have "w 0 = Some False" using that(3) a(1) by (simp add: I_def)
      moreover have "\<not> (\<exists>x \<in># P. jiffies x = i \<and> weak_timer x = 0)"
        using a(1) False by (auto simp: P slot_def)
      ultimately show ?thesis using False by (simp add: w')
    qed simp
    ultimately show ?thesis using P' a(3) that(1) by (simp add: I_def flip: a_def)
  qed
  have fit: "timeouts_fit ?A b" for b by (simp add: timeouts_fit_def test_timer_api_def)
  have lengths: "\<forall>t \<in> set [0..<?N]. 1 \<le> int t + 1 \<and> int t + 1 < INT_MAX" using assms by auto
  have slots: "(\<lambda>t. \<lparr>weak_timer = t, jiffies = int t + 1 + 1\<rparr>) = slot" by (simp add: slot_def fun_eq_iff)
  obtain m where m: "fold_outcome (create_and_register ?A (\<lambda>_ w. w)) [0..<?N] (Map.empty, new_timer_master) =
      Inr (fold (created (\<lambda>_ w. w)) [0..<?N] Map.empty, m)" "wheel_inv m" "timer_jiffies m = 1"
    "pending m = image_mset slot (mset [0..<?N])"
    using test_create [OF wheel_inv_new clock_new(1) lengths, of "\<lambda>_. False" "\<lambda>_ w. w" Map.empty] unfolding slots by auto
  have "\<exists>w' m'. fold_outcome (update_and_check ?A ?expect ?reset) [2..n - 1] (True, fold (created (\<lambda>_ w. w)) [0..<?N] Map.empty, m) =
      Inr (True, w', m') \<and> wheel_inv m' \<and> timer_jiffies m' = n - 1 + 1 \<and> I (n - 1 + 1) w' (pending m')"
    by (rule test_loop [where a = 2]) (use assms m step fit in \<open>auto simp: I_def slot_def fold_flags\<close>)
  then obtain w' m' where "fold_outcome (update_and_check ?A ?expect ?reset) [2..n - 1]
      (True, fold (created (\<lambda>_ w. w)) [0..<?N] Map.empty, m) = Inr (True, w', m')" "I n w' (pending m')" by auto
  moreover from this(2) have "w' 0 = Some False" using assms(1) by (simp add: I_def)
  ultimately show ?thesis using m(1) by (simp add: timer_test2_def)
qed

lemma test3_passes:
  assumes "1 < n" and "n < INT_MAX"
  shows "timer_test3 n = Inr True"
proof -
  let ?A = "test_timer_api (\<lambda>_. False) (\<lambda>t. int t + 1)"
  define I where "I = (\<lambda>(i :: int) (w :: flags) (P :: nat timer_slot multiset). w = Map.empty)"
  have fit: "timeouts_fit ?A b" for b by (simp add: timeouts_fit_def test_timer_api_def)
  have lengths: "\<forall>t \<in> set [0..<nat (n - 1)]. 1 \<le> int t + 1 \<and> int t + 1 < INT_MAX" using assms by auto
  obtain m where m: "fold_outcome (create_and_register ?A (\<lambda>t w. w(t := None))) [0..<nat (n - 1)] (Map.empty, new_timer_master) =
      Inr (fold (created (\<lambda>t w. w(t := None))) [0..<nat (n - 1)] Map.empty, m)" "wheel_inv m" "timer_jiffies m = 1"
    using test_create [OF wheel_inv_new clock_new(1) lengths, of "\<lambda>_. False" "\<lambda>t w. w(t := None)" Map.empty] by auto
  have "\<exists>w' m'. fold_outcome (update_and_check ?A (\<lambda>_ _. True) (\<lambda>_ w. w)) [1..n - 1] (True, Map.empty, m) =
      Inr (True, w', m') \<and> wheel_inv m' \<and> timer_jiffies m' = n - 1 + 1 \<and> I (n - 1 + 1) w' (pending m')"
    by (rule test_loop [where a = 1 and I = I]) (use assms m fit pending_future [OF m(2)] in \<open>auto simp: I_def flag_tick_def\<close>)
  then show ?thesis using m(1) unfolding fold_no_flags by (auto simp: timer_test3_def)
qed

text \<open>An agenda with one periodic timer: once expired, the flag stays, as nothing sets it back.\<close>

lemma flag_tick_keeps: "w t = Some True \<Longrightarrow> fst (flag_tick per tmo (w, n, P)) t = Some True"
  by (simp add: flag_tick_def)

lemma flag_ticks_keep: "fst c t = Some True \<Longrightarrow> fst ((flag_tick per tmo ^^ k) c) t = Some True"
proof (induction k)
  case (Suc k)
  then show ?case
    using flag_tick_keeps [of "fst ((flag_tick per tmo ^^ k) c)" t per tmo "fst (snd ((flag_tick per tmo ^^ k) c))" "snd (snd ((flag_tick per tmo ^^ k) c))"]
    by simp
qed simp

lemma test4_round_passes:
  assumes "1 \<le> x" and "x \<le> 0xFFFF" and "0 \<le> r"
  shows "timer_test4_round (x, r) ok = Inr ok"
proof -
  let ?A = "test_timer_api (\<lambda>_. True) (\<lambda>_. x)"
  let ?w = "[0 \<mapsto> False] :: flags"
  let ?t = "x + r mod 0xFFFFF + 1"
  let ?P = "{#\<lparr>weak_timer = 0 :: nat, jiffies = x + 1\<rparr>#}"
  have "0 \<le> r mod 0xFFFFF" "r mod 0xFFFFF < 0xFFFFF" by simp_all
  then have t: "x + 1 \<le> ?t" "?t < 0x120000" using assms by linarith+
  have fit: "timeouts_fit ?A b" if "b < 0x120000" for b
    using assms that by (simp add: timeouts_fit_def test_timer_api_def INT_MAX_def)
  obtain m where m: "tm_register ?A 0 ?w new_timer_master = Inr m" "wheel_inv m" "timer_jiffies m = 1" "pending m = ?P"
    using test_register [OF wheel_inv_new clock_new(1), of "\<lambda>_. x" 0 ?w "\<lambda>_. True"] assms by (auto simp: INT_MAX_def)
  obtain w1 m1 where 1: "tm_update ?A x (?w, m) = Inr (w1, m1)" "wheel_inv m1" "timer_jiffies m1 = x + 1"
    "(w1, x + 1, pending m1) = (flag_tick (\<lambda>_. True) (\<lambda>_. x) ^^ nat (x + 1 - 1)) (?w, 1, ?P)"
    using test_update [OF m(2), of x "\<lambda>_. True" "\<lambda>_. x" ?w] fit [of x] assms m(3,4) by (auto simp: INT_MAX_def)
  have "(flag_tick (\<lambda>_. True) (\<lambda>_. x) ^^ nat (x + 1 - 1)) (?w, 1, ?P) = (?w, x + 1, ?P)"
    using flag_tick_quiet [of ?P 1 "nat x" "\<lambda>_. True" "\<lambda>_. x" ?w] assms(1) by (simp add: add.commute)
  then have w1: "w1 = ?w" "pending m1 = ?P" using 1(4) by simp_all
  have "nat (?t + 1 - (x + 1)) = Suc (nat (?t - (x + 1)))" using t(1) by simp
  then obtain w2 m2 where 2: "tm_update ?A ?t (w1, m1) = Inr (w2, m2)"
    "(w2, ?t + 1, pending m2) = (flag_tick (\<lambda>_. True) (\<lambda>_. x) ^^ Suc (nat (?t - (x + 1)))) (?w, x + 1, ?P)"
    using test_update [OF 1(2), of ?t "\<lambda>_. True" "\<lambda>_. x" w1] fit [OF t(2)] t 1(3) w1 by (auto simp: INT_MAX_def)
  have "fst (flag_tick (\<lambda>_. True) (\<lambda>_. x) (?w, x + 1, ?P)) 0 = Some True" by (simp add: flag_tick_def)
  then have "w2 0 = Some True"
    using flag_ticks_keep [where c = "flag_tick (\<lambda>_. True) (\<lambda>_. x) (?w, x + 1, ?P)" and t = 0 and k = "nat (?t - (x + 1))"
        and per = "\<lambda>_. True" and tmo = "\<lambda>_. x"]
      arg_cong [OF 2(2), of fst] by (simp only: funpow_Suc_right comp_def fst_conv)
  then show ?thesis using m(1) 1(1) 2(1) w1(1) by (simp add: timer_test4_round_def Let_def)
qed

lemma test4_passes:
  assumes "list_all (\<lambda>r. 0 \<le> r) rands"
  shows "timer_test4 rands = Inr True"
proof -
  have "fold_outcome timer_test4_round (zip xs rs) ok = Inr ok"
    if "list_all (\<lambda>x. 1 \<le> x \<and> x \<le> 0xFFFF) xs" "list_all (\<lambda>r. 0 \<le> r) rs" for xs rs ok
    using that
  proof (induction xs arbitrary: rs)
    case (Cons x xs)
    then show ?case using test4_round_passes by (cases rs) auto
  qed simp
  then show ?thesis using assms by (simp add: timer_test4_def magic_def)
qed

text \<open>The deadline of a periodic timer of \<open>Test5\<close> when the clock is \<open>i\<close>.\<close>

definition next_due :: "int \<Rightarrow> nat \<Rightarrow> int" where
  "next_due i t = i + (1 - i) mod magic ! t"

lemma next_due_step:
  assumes "1 \<le> magic ! t"
  shows "next_due i t = i \<longleftrightarrow> (i - 1) mod magic ! t = 0"
    and "next_due (i + 1) t = (if next_due i t = i then magic ! t + i else next_due i t)"
proof -
  let ?T = "magic ! t"
  let ?r = "(1 - i) mod ?T"
  have r: "0 \<le> ?r" "?r < ?T" "1 - i = ?T * ((1 - i) div ?T) + ?r" using assms by simp_all
  have "?r = 0 \<longleftrightarrow> ?T dvd 1 - i" by (simp add: mod_eq_0_iff_dvd)
  also have "\<dots> \<longleftrightarrow> ?T dvd i - 1" by (metis dvd_minus_iff minus_diff_eq)
  finally show "next_due i t = i \<longleftrightarrow> (i - 1) mod ?T = 0" by (simp add: next_due_def mod_eq_0_iff_dvd)
  have "(- i) mod ?T = (if ?r = 0 then ?T - 1 else ?r - 1)"
  proof (cases "?r = 0")
    case True
    then have "- i = ?T * ((1 - i) div ?T - 1) + (?T - 1)" using r(3) by (simp add: algebra_simps)
    from int_mod_pos_eq [OF this] show ?thesis using assms True by simp
  next
    case False
    then have "- i = ?T * ((1 - i) div ?T) + (?r - 1)" using r(3) by linarith
    from int_mod_pos_eq [OF this] show ?thesis using r(1,2) False by simp
  qed
  then show "next_due (i + 1) t = (if next_due i t = i then ?T + i else next_due i t)" by (simp add: next_due_def)
qed

lemma magic_pos: "t < length magic \<Longrightarrow> 1 \<le> magic ! t \<and> magic ! t \<le> 0xFFFF"
proof -
  have "list_all (\<lambda>x. 1 \<le> x \<and> x \<le> 0xFFFF) magic" by (simp add: magic_def)
  then show "t < length magic \<Longrightarrow> 1 \<le> magic ! t \<and> magic ! t \<le> 0xFFFF" by (simp add: list_all_length)
qed

lemma image_mset_parts: "image_mset f M = image_mset f {#x \<in># M. \<not> D x#} + image_mset f {#x \<in># M. D x#}"
  by (simp add: add.commute flip: image_mset_union multiset_partition)

lemma test5_passes:
  assumes "2 < n" and "n < INT_MAX - 0xFFFF"
  shows "timer_test5 n = Inr True"
proof -
  let ?per = "\<lambda>t. t < length magic"
  let ?A = "test_timer_api ?per ((!) magic)"
  let ?ts = "[0..<length magic]"
  let ?expect = "\<lambda>i (w :: flags). list_all (\<lambda>j. w j = Some True) (test5_due i)"
  let ?reset = "\<lambda>i (w :: flags) j. if j \<in> set (test5_due i) then Some False else w j"
  define slot where "slot = (\<lambda>i t. \<lparr>weak_timer = t, jiffies = next_due i t\<rparr>)"
  define I where "I = (\<lambda>i (w :: flags) P. (\<forall>t < length magic. w t = Some False) \<and> P = image_mset (slot i) (mset ?ts))"
  have due: "t \<in> set (test5_due i) \<longleftrightarrow> t < length magic \<and> next_due i t = i" for i t
    using next_due_step(1) [of t i] magic_pos [of t] by (auto simp: test5_due_def)
  have step: "?expect i w' \<and> I (i + 1) (?reset i w') P'"
    if "I i w P" "flag_tick ?per ((!) magic) (w, i, P) = (w', i + 1, P')" for i w P w' P'
  proof -
    let ?D = "\<lambda>t. next_due i t = i"
    have P: "P = image_mset (slot i) (mset ?ts)" and w: "t < length magic \<Longrightarrow> w t = Some False" for t
      using that(1) by (auto simp: I_def)
    have "w' = (\<lambda>t. if \<exists>x \<in># P. jiffies x = i \<and> weak_timer x = t then map_option (\<lambda>_. True) (w t) else w t)"
      using that(2) by (simp add: flag_tick_def)
    then have w': "w' t = (if ?D t then Some True else Some False)" if "t < length magic" for t
      using w [OF that] that by (auto simp: P slot_def)
    have "{#x \<in># P. jiffies x = i \<and> w (weak_timer x) \<noteq> None \<and> weak_timer x < length magic#} =
        image_mset (slot i) {#t \<in># mset ?ts. ?D t#}"
      unfolding P filter_mset_image_mset
      by (rule arg_cong [of _ _ "image_mset (slot i)"], rule filter_mset_cong) (auto simp: slot_def w)
    then have "P' = image_mset (slot i) {#t \<in># mset ?ts. \<not> ?D t#} +
        image_mset (\<lambda>t. \<lparr>weak_timer = t, jiffies = magic ! t + i\<rparr>) {#t \<in># mset ?ts. ?D t#}"
      using that(2) by (simp add: flag_tick_def P filter_mset_image_mset slot_def multiset.map_comp comp_def)
    moreover have "image_mset (slot i) {#t \<in># mset ?ts. \<not> ?D t#} = image_mset (slot (i + 1)) {#t \<in># mset ?ts. \<not> ?D t#}"
      by (rule image_mset_cong) (use next_due_step(2) magic_pos in \<open>auto simp: slot_def\<close>)
    moreover have "image_mset (\<lambda>t. \<lparr>weak_timer = t, jiffies = magic ! t + i\<rparr>) {#t \<in># mset ?ts. ?D t#} =
        image_mset (slot (i + 1)) {#t \<in># mset ?ts. ?D t#}"
      by (rule image_mset_cong) (use next_due_step(2) magic_pos in \<open>auto simp: slot_def\<close>)
    ultimately have "P' = image_mset (slot (i + 1)) (mset ?ts)"
      by (simp only: image_mset_parts [of "slot (i + 1)" "mset ?ts" ?D])
    then show ?thesis using w' due by (auto simp: I_def list_all_iff)
  qed
  have fit: "timeouts_fit ?A (n - 1)"
    using magic_pos assms by (force simp: timeouts_fit_def test_timer_api_def)
  have lengths: "\<forall>t \<in> set ?ts. 1 \<le> magic ! t \<and> magic ! t < INT_MAX" using magic_pos by (force simp: INT_MAX_def)
  have slots: "image_mset (\<lambda>t. \<lparr>weak_timer = t, jiffies = magic ! t + 1\<rparr>) (mset ?ts) = image_mset (slot 2) (mset ?ts)"
  proof (rule image_mset_cong)
    fix t assume "t \<in># mset ?ts"
    then have t: "1 \<le> magic ! t" using magic_pos by auto
    have "next_due 1 t = 1" by (simp add: next_due_def)
    then show "\<lparr>weak_timer = t, jiffies = magic ! t + 1\<rparr> = slot 2 t" using next_due_step(2) [OF t, of 1] by (simp add: slot_def)
  qed
  obtain m where m: "fold_outcome (create_and_register ?A (\<lambda>_ w. w)) ?ts (Map.empty, new_timer_master) =
      Inr (fold (created (\<lambda>_ w. w)) ?ts Map.empty, m)" "wheel_inv m" "timer_jiffies m = 1"
    "pending m = image_mset (slot 2) (mset ?ts)"
    using test_create [OF wheel_inv_new clock_new(1) lengths, of ?per "\<lambda>_ w. w" Map.empty] unfolding slots by auto
  have later: "\<forall>x \<in># pending m. 2 \<le> jiffies x" unfolding m(4)
    using magic_pos by (force simp: slot_def next_due_def intro!: pos_mod_sign)
  have "\<exists>w' m'. fold_outcome (update_and_check ?A ?expect ?reset) [2..n - 1] (True, fold (created (\<lambda>_ w. w)) ?ts Map.empty, m) =
      Inr (True, w', m') \<and> wheel_inv m' \<and> timer_jiffies m' = n - 1 + 1 \<and> I (n - 1 + 1) w' (pending m')"
  proof (rule test_loop [where a = 2 and I = I])
    show "?expect i w' \<and> I (i + 1) (?reset i w') P'"
      if "I i w P" "flag_tick ?per ((!) magic) (w, i, P) = (w', i + 1, P')" for i w P w' P'
      using step [OF that] .
  qed (use assms fit m later in \<open>auto simp: I_def fold_flags\<close>)
  then show ?thesis using m(1) by (auto simp: timer_test5_def)
qed

text \<open>
  C17. All six cases pass, whatever non-negative numbers \<open>rand\<close> returns: no check fails and no \<open>CHECK\<close> of the timer master
  stops them.
\<close>

theorem timer_suite_passes:
  assumes "list_all (\<lambda>r. 0 \<le> r) rands"
  shows "timer_suite rands = replicate 6 (Inr True)"
proof -
  have "timer_test1 0xFFFF 0xFFFFF = Inr True" by (rule test1_passes) (simp_all add: INT_MAX_def)
  moreover have "timer_test2 0x10000 = Inr True" by (rule test2_passes) (simp_all add: INT_MAX_def)
  moreover have "timer_test3 0x10000 = Inr True" by (rule test3_passes) (simp_all add: INT_MAX_def)
  moreover have "timer_test5 0xFFFF = Inr True" by (rule test5_passes) (simp_all add: INT_MAX_def)
  ultimately show ?thesis
    using test0_passes test4_passes [OF assms] by (simp only: timer_suite_def) (simp add: numeral_eq_Suc)
qed

theorem timer_suite_passes_witness:
  "timer_suite [3, 1000000, 7, 0, 0, 1, 2, 3, 4, 5] = replicate 6 (Inr True)"
  by (rule timer_suite_passes) simp

end
