(* ===== verification/Unit_Tests.thy ===== *)
theory Unit_Tests
  imports Timer_Tests Shared_Const_Buffers World_Model Clients Thread_Pool
begin

text \<open>
  The other test programs of \<open>src/test/\<close>, run on the models of the classes they test: \<open>TestSharedConstBuffers.cpp\<close>,
  \<open>TestRoute.cpp\<close>, \<open>TestCoordinate.cpp\<close>, \<open>TestClients.cpp\<close> and \<open>TestThreadPool.cpp\<close>. A test returns whether all its checks held, or the
  fault that stopped it; the test of the thread pool is a relation, as the workers interleave with it.
\<close>

section \<open>Shared buffers\<close>

text \<open>\<open>GetP\<close>, and the steps \<open>p.consume( n )\<close> followed by a check of what is left.\<close>

definition GetP :: "'b buffer_api \<Rightarrow> 'b scb \<Rightarrow> string" where
  "GetP A p = concat (map (buf_bytes A) (scb_begin_end p))"

fun consume_steps :: "'b buffer_api \<Rightarrow> (int \<times> string) list \<Rightarrow> bool \<times> 'b scb \<Rightarrow> bool \<times> 'b scb" where
  "consume_steps A [] s = s"
| "consume_steps A ((n, left) # steps) (ok, p) =
     (let p = scb_consume A n p in consume_steps A steps (ok \<and> GetP A p = left, p))"

definition test_shared_const_buffers :: "'b buffer_api \<Rightarrow> bool" where
  "test_shared_const_buffers A =
     (let p = scb_push A (cs 1 ''world'') (scb_push A (cs 0 ''hello'') scb_new);
          p1 = p;
          (ok, p) = consume_steps A
            [(1, ''elloworld''), (1, ''lloworld''), (2, ''oworld''), (2, ''orld''), (2, ''ld''), (2, '''')] (True, p);
          ok = (ok \<and> scb_empty p \<and> scb_begin_end p = []);
          p = scb_clear p
      in ok \<and> GetP A p1 = ''helloworld'')"

section \<open>Nodes, branches and coordinates\<close>

text \<open>The lengths are those of \<open>Len\<close> over exact arithmetic, which \<open>pow\<close> and the sum agree with on these numbers.\<close>

definition test_branch :: "bool outcome" where
  "test_branch =
     (let w = \<lparr>w_nodes = [1 \<mapsto> node_at (coordinate3 0 0 0), 2 \<mapsto> node_at (coordinate3 1 0 0)], w_tracks = Map.empty\<rparr>;
          branch = set_end_node (Some 2) (set_start_node (Some 1) branch_new);
          branch2 = branch_between (Some 1) (Some 2) in
      bind_outcome (branch_len exact False branch w) (\<lambda>(len, branch, w).
      bind_outcome (branch_len exact False branch2 w) (\<lambda>(len2, branch2, w).
      Inr (len = 1 \<and> len2 = 1))))"

definition get_is :: "coordinate \<Rightarrow> axis \<Rightarrow> int \<Rightarrow> bool outcome" where
  "get_is c a v = bind_outcome (coord_get c (axis_index a)) (\<lambda>x. Inr (x = v))"

definition test_constructor :: "bool outcome" where
  "test_constructor =
     (let a = coordinate2 3 2; b = coordinate2 2 3; c = coordinate3 2 3 1 in
      fold_outcome (\<lambda>(c, ax, v) ok. bind_outcome (get_is c ax v) (\<lambda>r. Inr (ok \<and> r)))
        [(a, AXISX, 3), (a, AXISY, 2), (b, AXISX, 2), (b, AXISY, 3), (c, AXISX, 2), (c, AXISY, 3), (c, AXISZ, 1)] True)"

definition test_projection :: "bool outcome" where
  "test_projection =
     bind_outcome (normal_projection (coordinate3 2 3 1)) (\<lambda>b.
     bind_outcome (coord_x b) (\<lambda>x. bind_outcome (coord_y b) (\<lambda>y.
     Inr (c_value b ! x = 2 \<and> c_value b ! y = 3))))"

section \<open>Clients\<close>

text \<open>The clients live at the addresses 1 and 2, their connections at 11 and 12.\<close>

definition test_clients :: "int \<Rightarrow> int \<Rightarrow> u64 \<Rightarrow> bool outcome" where
  "test_clients junk junk2 start =
     (let H = [1 \<mapsto> client_with_connection junk ''UserNameTest'' (Some 11)]; client = Some 1 in
      bind_outcome (clients_add H client (cc_new start)) (\<lambda>(addedID, clients).
      let ok = (cc_size clients = 1 \<and> addedID \<noteq> 0) in
      bind_outcome (clients_add H client clients) (\<lambda>(id, clients).
      let ok = (ok \<and> id = 0) in
      bind_outcome (clients_get addedID clients) (\<lambda>got.
      let ok = (ok \<and> got = client);
          H = H(2 \<mapsto> client_with_connection junk2 ''UserNameTest'' (Some 12)); client2 = Some 2 in
      bind_outcome (clients_add H client2 clients) (\<lambda>(id, clients).
      Inr (ok \<and> id = 0))))))"

section \<open>The thread pool\<close>

text \<open>
  A round of \<open>testThreadPool\<close>: the pool is started, the tasks are pushed while the workers already run, and the pool is stopped; the joins end when
  all workers have left. The task \<open>(k, i)\<close> writes \<open>v[ i ]\<close> of round \<open>k\<close>.
\<close>

inductive pushes :: "'a list \<Rightarrow> 'a pool \<Rightarrow> 'a pool \<Rightarrow> bool" where
  pushes_nil: "worker_turns p n p' \<Longrightarrow> pushes [] p p'"
| pushes_task: "worker_turns p n p1 \<Longrightarrow> pushes ts (pool_push_task (Some t) p1) p' \<Longrightarrow> pushes (t # ts) p p'"

definition pool_round :: "'a list \<Rightarrow> 'a pool \<Rightarrow> 'a pool \<Rightarrow> bool" where
  "pool_round ts p p' \<longleftrightarrow> (\<exists>p1 n p2. pushes ts (pool_start p) p1 \<and>
     worker_turns (pool_stop_marks p1) n p2 \<and> (\<forall>w \<in> set (tp_workers p2). w = Gone) \<and> p' = pool_forget p2)"

definition round_tasks :: "nat \<Rightarrow> nat \<Rightarrow> (nat \<times> nat) list" where
  "round_tasks k item_size = map (\<lambda>i. (k, i)) [0..<item_size]"

text \<open>\<open>v[ i ]\<close> after the round: \<open>0xbeef\<close> once the task has run.\<close>

definition pool_check :: "nat \<Rightarrow> nat \<Rightarrow> (nat \<times> nat) pool \<Rightarrow> bool" where
  "pool_check k item_size p \<longleftrightarrow>
     list_all (\<lambda>i. (if (k, i) \<in> set (tp_done p) then 0xbeef else 0) = (0xbeef :: int)) [0..<item_size]"

inductive test_thread_pool :: "nat list \<Rightarrow> (nat \<times> nat) pool \<Rightarrow> bool \<Rightarrow> bool" where
  no_rounds: "test_thread_pool [] (pool_new ''Test'' 100) True"
| a_round: "test_thread_pool sizes p ok \<Longrightarrow> pool_round (round_tasks (length sizes) n) p p' \<Longrightarrow>
    test_thread_pool (sizes @ [n]) p' (ok \<and> pool_check (length sizes) n p')"

section \<open>The tests pass\<close>

lemma test_shared_const_buffers_passes: "test_shared_const_buffers string_buffers"
  by code_simp

lemma test_branch_passes: "test_branch = Inr True"
proof -
  have d: "coord_distance exact (coordinate3 1 0 0) (coordinate3 0 0 0) = Inr 1"
    by (simp add: exact_distance3 INT_MAX_def)
  show ?thesis
    by (simp add: test_branch_def Let_def branch_len_def branch_new_def branch_between_def set_end_node_def set_start_node_def
        pos_of_def node_at_def node_get_pos_def d to_int_def int_range_defs i32_def)
qed

lemma test_coordinates_pass: "test_constructor = Inr True" "test_projection = Inr True"
  by code_simp+

lemma test_clients_passes: "test_clients junk junk2 start = Inr True"
  by (simp add: test_clients_def clients_add_def cc_add_def cc_new_def is_unique_login_def deref_def client_with_connection_def
      cc_size_def clients_get_def cc_get_def vec_at_def Let_def)

lemma turns_keep: "worker_turns p n p' \<Longrightarrow> tp_threads p' = tp_threads p \<and> tp_size p' = tp_size p"
proof (induction rule: worker_turns.induct)
  case (one_turn i p p1 n p2)
  from one_turn.hyps(1) have "tp_threads p1 = tp_threads p \<and> tp_size p1 = tp_size p" by (cases rule: turn_cases) auto
  with one_turn show ?case by simp
qed simp

lemma pushes_run:
  "pushes ts p p' \<Longrightarrow> pool_run p0 h p \<Longrightarrow> pool_run p0 (h @ map Some ts) p' \<and> tp_threads p' = tp_threads p \<and>
    tp_size p' = tp_size p \<and> length (tp_workers p') = length (tp_workers p)"
proof (induction arbitrary: h rule: pushes.induct)
  case (pushes_nil p n p')
  then show ?case using turns_keep worker_turns_length worker_turns_run by fastforce
next
  case (pushes_task p n p1 ts t p')
  have "pool_run p0 (h @ [Some t]) (pool_push_task (Some t) p1)"
    using worker_turns_run [OF pushes_task.hyps(1) pushes_task.prems] by (rule pool_pushes)
  from pushes_task.IH [OF this] show ?case
    using turns_keep [OF pushes_task.hyps(1)] worker_turns_length [OF pushes_task.hyps(1)] by (simp add: pool_push_task_def)
qed

text \<open>Between the rounds every worker has left and every task has run.\<close>

definition between_rounds :: "'a option list \<Rightarrow> 'a pool \<Rightarrow> bool" where
  "between_rounds h p \<longleftrightarrow> pool_run (pool_new ''Test'' 100) h p \<and> tp_threads p = [] \<and> tp_size p = 100 \<and>
     marks h = length (tp_workers p) \<and> mset (tp_done p) = mset (tasks h)"

lemma round_keeps:
  assumes "between_rounds h p" and "pool_round ts p p'"
  shows "between_rounds (h @ map Some ts @ replicate 100 None) p'"
proof -
  obtain p1 n p2 where r: "pushes ts (pool_start p) p1" "worker_turns (pool_stop_marks p1) n p2"
    "\<forall>w \<in> set (tp_workers p2). w = Gone" "p' = pool_forget p2" using assms(2) by (auto simp: pool_round_def)
  let ?p0 = "pool_new ''Test'' 100 :: 'a pool"
  let ?h = "h @ map Some ts @ replicate 100 None"
  have p: "pool_run ?p0 h p" "tp_threads p = []" "tp_size p = 100" "marks h = length (tp_workers p)"
    using assms(1) by (auto simp: between_rounds_def)
  have start: "pool_run ?p0 h (pool_start p)" "length (tp_threads (pool_start p)) = 100" "tp_size (pool_start p) = 100"
    "length (tp_workers (pool_start p)) = length (tp_workers p) + 100"
    using pool_starts [OF p(1)] p(2,3) by (simp_all add: pool_start_def Let_def)
  note 1 = pushes_run [OF r(1) start(1)]
  have stop: "pool_run ?p0 ?h (pool_stop_marks p1)" using pool_stops [OF conjunct1 [OF 1]] 1 start(2) by simp
  have run: "pool_run ?p0 ?h p2" by (rule worker_turns_run [OF r(2) stop])
  have len: "length (tp_workers p2) = length (tp_workers p) + 100"
    using worker_turns_length [OF r(2)] 1 start(4) by simp
  have marks: "marks ?h = length (tp_workers p2)" using p(4) len by (simp add: marks_def)
  have h: "?h = (h @ map Some ts @ replicate 99 None) @ [None] @ []" by (simp add: replicate_append_same flip: replicate_Suc)
  have "mset (tp_done p2) = mset (tasks (h @ map Some ts @ replicate 99 None))"
    using stopped_pool_result [OF run h _ marks r(3)] by simp
  then have "mset (tp_done p2) = mset (tasks ?h)" by simp
  moreover have "tp_size p2 = 100" using turns_keep [OF r(2)] 1 start(3) by (simp add: pool_stop_marks_def)
  ultimately show ?thesis
    using pool_forgets [OF run] marks r(4) by (simp add: between_rounds_def pool_forget_def)
qed

lemma test_pool_between:
  "test_thread_pool sizes p ok \<Longrightarrow> ok \<and> (\<exists>h. between_rounds h p)"
proof (induction rule: test_thread_pool.induct)
  case no_rounds
  have "between_rounds [] (pool_new ''Test'' 100 :: (nat \<times> nat) pool)"
    using pool_init [of "pool_new ''Test'' 100 :: (nat \<times> nat) pool"] by (simp add: between_rounds_def) (simp add: pool_new_def)
  then show ?case by blast
next
  case (a_round sizes p ok n p')
  then obtain h where "between_rounds h p" by blast
  from round_keeps [OF this a_round.hyps(2)] have b: "between_rounds (h @ map Some (round_tasks (length sizes) n) @ replicate 100 None) p'" .
  then have "mset (tp_done p') = mset (tasks (h @ map Some (round_tasks (length sizes) n)))" by (simp add: between_rounds_def)
  then have "set (tp_done p') = set (tasks (h @ map Some (round_tasks (length sizes) n)))" by (rule mset_eq_setD)
  then have "pool_check (length sizes) n p'" by (auto simp: pool_check_def list_all_iff tasks_def round_tasks_def)
  then show ?case using a_round.IH b by blast
qed

text \<open>Every round can be completed, whatever the workers have done so far.\<close>

lemma round_exists:
  assumes "between_rounds h p"
  shows "\<exists>p'. pool_round ts p p'"
proof -
  obtain p1 where 1: "pushes ts (pool_start p) p1"
  proof -
    have "\<exists>p1. pushes ts q p1" for q :: "'a pool"
      by (induction ts arbitrary: q) (blast intro: pushes.intros no_turn)+
    then show thesis using that by blast
  qed
  let ?p0 = "pool_new ''Test'' 100 :: 'a pool"
  have p: "pool_run ?p0 h p" "tp_threads p = []" "tp_size p = 100" "marks h = length (tp_workers p)"
    using assms by (auto simp: between_rounds_def)
  have start: "pool_run ?p0 h (pool_start p)" "length (tp_threads (pool_start p)) = 100"
    "length (tp_workers (pool_start p)) = length (tp_workers p) + 100"
    using pool_starts [OF p(1)] p(2,3) by (simp_all add: pool_start_def Let_def)
  note 2 = pushes_run [OF 1 start(1)]
  have "pool_run ?p0 (h @ map Some ts @ replicate 100 None) (pool_stop_marks p1)" using pool_stops [OF conjunct1 [OF 2]] 2 start(2) by simp
  then obtain popped where "pool_inv (h @ map Some ts @ replicate 100 None) popped (pool_stop_marks p1)" using pool_run_inv by blast
  then have "marks (popped @ tp_queue (pool_stop_marks p1)) = marks (h @ map Some ts @ replicate 100 None)"
    "gone (tp_workers (pool_stop_marks p1)) = marks popped" by (simp_all add: pool_inv_def)
  then have "marks_for_all (pool_stop_marks p1)"
    using p(4) 2 start(3) by (simp add: marks_for_all_def) (simp add: marks_def)
  from all_workers_end [OF this] show ?thesis using 1 by (auto simp: pool_round_def)
qed

text \<open>
  The tests pass. For the pool: in whatever order its hundred workers and the pushes of every round interleave, all
  checks hold after every round, and the test can always go on to another round.
\<close>

theorem unit_tests_pass:
  "test_shared_const_buffers string_buffers \<and> test_branch = Inr True \<and> test_constructor = Inr True \<and> test_projection = Inr True \<and>
   test_clients junk junk2 start = Inr True"
  using test_shared_const_buffers_passes test_branch_passes test_coordinates_pass test_clients_passes by simp

theorem thread_pool_test_passes:
  assumes "test_thread_pool sizes p ok"
  shows "ok \<and> (\<forall>n. \<exists>p' ok'. test_thread_pool (sizes @ [n]) p' ok')"
proof -
  obtain h where "between_rounds h p" "ok" using test_pool_between [OF assms] by blast
  then show ?thesis using round_exists test_thread_pool.a_round [OF assms] by metis
qed

theorem thread_pool_test_passes_witness: "\<forall>n. \<exists>p' ok'. test_thread_pool [n] p' ok'"
  using thread_pool_test_passes [OF no_rounds] by simp

end
