(* ===== verification/Spec2Isabelle.thy ===== *)
theory Spec2Isabelle
  imports Lookup8 Lookup8_Selftest Timer_Master Timer_Threads Shared_Const_Buffers Frame_Codec Ref_Count Status_Lock Raw_Connection Notifier Rpc Thread_Pool
    Coordinates World_Model Clients Container_Race Server Stop_Race Heartbeat Client_Connection Game_Service Shared_Game Programs Closures Condition_Waits Timer_Tests Unit_Tests
begin

text \<open>
  tt3d is the skeleton of a networked transport game in C++: a server that keeps a game and serves
  remote calls over TCP (\<open>src/server/\<close>), a client that connects and registers (\<open>src/client/\<close>), and a
  core of networking, timers, threads, geometry and the world model (\<open>src/core/\<close>). This library
  models that code and proves what it promises, and names the places where it does not.

  \<^bold>\<open>How the parts interact.\<close> A \<open>Server\<close> listens; each accepted socket becomes, by \<open>Span\<close> of a template,
  a \<open>ProtobufConnection\<close> whose raw part reads and writes bytes asynchronously. Bytes go through a
  decoder of length-prefixed frames; a frame is a protobuf message that is either a request for a
  registered method, found by the hash of its name, or the response to a pending call. The server
  listens for the close of its connections, counts them in a \<open>Notifier\<close>, and gives them to a
  \<open>TimerMaster\<close>, which makes them send heartbeats. A \<open>ClientConnection\<close> is the same connection with a
  pool of services and a timer master of its own.

  \<^bold>\<open>Theories\<close> (sources under \<open>src/src/\<close>):
  \<^item> \<open>Tt_Prelude\<close>: faults and outcomes (\<open>Inl\<close> a failed \<open>CHECK\<close>, an exception or an undefined access,
    \<open>Inr\<close> the result), the 32-bit \<open>int\<close>, heap strings; threads that take turns (interface \<open>interleaved\<close>).
  \<^item> \<open>Lookup8\<close>: \<open>core/lookup8.c\<close> and \<open>core/network/Hash.hpp\<close> on 64-bit words; \<open>hash2\<close> and \<open>hash3\<close> agree with
    \<open>hash\<close>, and \<open>mix64\<close> is a bijection.
  \<^item> \<open>Lookup8_Selftest\<close>: the tests of \<open>lookup8.c\<close> itself (\<open>driver1\<close> to \<open>driver4\<close>, \<open>main\<close>): what their output means, and that
    \<open>driver2\<close> prints a variable nobody has set.
  \<^item> \<open>Timer_Master\<close>: \<open>core/TimerMaster.cpp\<close>. The four-level wheel refines an agenda (a multiset of
    deadlines) tick by tick; the interface \<open>timer_service\<close> hands this to the clients of the wheel. \<open>Timer_Threads\<close>: its thread cut
    into statements, with registrations and \<open>Stop\<close> on other threads at any moment: timers stay on time, but for a timeout of 0.
  \<^item> \<open>Shared_Const_Buffers\<close>: \<open>core/SharedConstBuffers.hpp\<close>, a queue of the bytes not yet written
    (interface \<open>byte_queue\<close>).
  \<^item> \<open>Frame_Codec\<close>: \<open>Buffer.hpp\<close>, \<open>EncodeMessage\<close>, \<open>ProtobufDecoder\<close>, \<open>RawConnectionImpl::Decode\<close> of
    \<open>core/network/\<close>, against a specification of the frames of a byte stream.
  \<^item> \<open>Ref_Count\<close>: \<open>core/Atomic.hpp\<close>, the copies and releases of an \<open>intrusive_ptr\<close>, interleaved.
  \<^item> \<open>Status_Lock\<close>: the lock and the closing of a connection (\<open>RawConnection.cpp\<close>, \<open>Connection.hpp\<close>) with the threads interleaved statement
    by statement, with the second shared hold of a read handler that answers a request; it justifies that \<open>Raw_Connection\<close> runs
    every handler to its end, as long as no \<open>Connection::Disconnect\<close> runs beside them and the mutex grants that second hold.
  \<^item> \<open>Raw_Connection\<close>: \<open>RawConnection\<close>, its status bits and lock, and \<open>Connection.hpp\<close>. The completion
    handlers are steps of a state machine; the invariant \<open>conn_inv\<close> holds between steps, and what a
    step keeps of any quantity, or lets grow, are the interfaces \<open>conserved_quantity\<close> and \<open>monotone_quantity\<close>.
  \<^item> \<open>Notifier\<close>: \<open>core/thread/Notifier.hpp\<close> and \<open>RpcController\<close>.
  \<^item> \<open>Rpc\<close>: \<open>RawProtobufConnection\<close>, \<open>ProtobufConnection\<close>: pending calls, dispatch, services, which may fault (interface
    \<open>service_order\<close>). \<open>Closures\<close>: \<open>Closure.hpp\<close>, the objects behind the callbacks and their deletion.
  \<^item> \<open>Thread_Pool\<close>: \<open>PCQueue.hpp\<close>, \<open>ThreadPool.hpp\<close>, \<open>IOServicePool\<close>; workers interleave as steps (interface
    \<open>fifo\<close>). \<open>Condition_Waits\<close>: the calls of \<open>Notifier\<close> and \<open>PCQueue\<close> that sleep, cut where they sleep.
  \<^item> \<open>Coordinates\<close>: \<open>core/Coordinate.hpp\<close>, \<open>core/TwoDVector.hpp\<close> for \<open>int\<close>; \<open>World_Model\<close>: \<open>core/model/\<close>.
  \<^item> \<open>Clients\<close>: \<open>ConcurrentContainer\<close>, \<open>Client\<close>, \<open>Clients\<close>, \<open>Game\<close>, \<open>ViewPort\<close>, \<open>RpcServiceClients\<close>; the
    registry of players is the interface \<open>id_registry\<close>, \<open>Register\<close> refines an abstract registration. \<open>Container_Race\<close>: \<open>Add\<close> and \<open>Get\<close>
    of \<open>ConcurrentContainer.cpp\<close> with their threads interleaved: \<open>Add\<close> is linearizable, \<open>Get\<close> races with a vector that grows.
  \<^item> \<open>Server\<close>: \<open>server/network/Server.cpp\<close>. Histories (\<open>server_run\<close>; \<open>server_history\<close> notes whether a \<open>Stop\<close> has gone through) of calls, accepts and steps of the
    connections; the class of the connections is the interface \<open>channel_host\<close>, interpreted on the
    connections of \<open>Rpc\<close>. \<open>Stop_Race\<close>: accepts, closes and \<open>Stop\<close> of that file with their threads interleaved; a \<open>Stop\<close> among closes
    returns, one that meets an accept hangs.
  \<^item> \<open>Heartbeat\<close>: connections on the timer wheel. \<open>Client_Connection\<close>: \<open>ClientConnection.cpp\<close>.
  \<^item> \<open>Game_Service\<close>: the server of \<open>server/main.cpp\<close> with its service, and the user of \<open>client/ClientMain.cpp\<close>
    who registers, from \<open>Connect\<close> over both connections and the game to the callback. \<open>Shared_Game\<close>: any number of connections
    on the one game. \<open>Programs\<close>: the two \<open>main\<close> functions, with the test of the lua interpreter.
  \<^item> \<open>Timer_Tests\<close>, \<open>Unit_Tests\<close>: the tests of \<open>src/test/\<close> for the timer master, the shared buffers, branches, coordinates, clients
    and the thread pool, run on the models of what they test; they pass, in every interleaving.

  \<^bold>\<open>What the lemmas show.\<close> Refinement of abstract specifications (wheel and agenda, decoder and frame
  grammar, \<open>Register\<close> and the list of players); invariants by rule induction over histories
  (connections, calls, servers, pools, sessions); end-to-end behaviour (a byte stream cut anywhere, a
  remote call, a registration, a silent peer); every fault each operation can have, and that it has no
  other; termination of the search for a call identifier and of the workers of a pool.

  \<^bold>\<open>Bounds.\<close> Loops are structural or proved to terminate. \<open>update_loop\<close> has fuel \<open>j - timer_jiffies + 2\<close>,
  one more than its rounds, and \<open>update_loop_done\<close> shows that it suffices. The loops of the programs that wait for a flag are
  \<open>partial_function\<close>s whose result is \<open>None\<close> when they never end. Overflow of an \<open>int\<close> is the
  fault \<open>SignedOverflow\<close>; theorems whose counters could reach it say so in a hypothesis.

  \<^bold>\<open>Parameters.\<close> \<open>boost::asio\<close> (buffers, sockets, resolvers, completions), the protobuf runtime, \<open>lexical_cast\<close>
  the arithmetic of \<open>double\<close>, \<open>boost::shared_mutex\<close>, the lua library and \<open>rand\<close> are arguments, with their documented laws as
  hypotheses (\<open>buffer_api_ok\<close>, \<open>codec_ok\<close>, \<open>mutex_ok\<close> and, for the second hold, \<open>mutex_shares\<close>); witnesses instantiate them.

  \<^bold>\<open>Not modelled.\<close> Interleaving inside a handler beyond the lock, the reference count, the two condition variables, the timer thread, \<open>Stop\<close> of the server
  and the container of players: the other queues and tables have mutexes of their own, held over every access. A service that calls its client back from inside a call, as that of \<open>ListenTest.cpp\<close>
  does, or closes its connection there: services answer and change the game. What \<open>io_service::run\<close> does with the handlers it is given, and with it
  \<open>TestIOServicePool.cpp\<close>; \<open>notifier_test.cpp\<close>, written for another project. Memory exhaustion and logging. \<open>client/IRenderer.hpp\<close>,
  \<open>Message.hpp\<close>, \<open>Executor.hpp\<close>, \<open>Sessions.hpp\<close> and \<open>economy/\<close> hold declarations or empty bodies.
\<close>

end
